(* ===== verification/Prelude.thy ===== *)
theory Prelude
  imports Main "HOL-Library.Word" "HOL-Library.List_Lexorder"
begin

text \<open>
  Shared vocabulary of the development: Rust's machine integers and byte strings, the fixed-size
  arrays \<^verbatim>\<open>[u8; N]\<close> as a type of their own, big-endian integer encodings, and Rust's two ways
  of not returning a value (an \<^verbatim>\<open>Err\<close> and a panic) as one sum type with its bind. The generic
  lemmas on lists and words that the component theories share are collected here, in the
  simpset or in the named collections \<open>rust_simps\<close> (unfolding of the result monad) and
  \<open>byte_simps\<close> (encodings and array conversions).

  Conventions. The target has 64-bit \<^verbatim>\<open>usize\<close>, so the casts between \<^verbatim>\<open>usize\<close> and \<^verbatim>\<open>u64\<close> are the
  identity; a slice is a HOL list and its \<^verbatim>\<open>len()\<close> is \<open>length\<close>. Arithmetic follows the release
  profile (no profile of the workspace turns overflow checks on): \<open>+\<close>, \<open>-\<close>, \<open>*\<close> on \<open>u64\<close>
  wrap and a shift amount is taken modulo 64.
\<close>

named_theorems rust_simps "unfolding rules of the result monad"
named_theorems byte_simps "byte encodings and array conversions"

unbundle bit_operations_syntax

section \<open>Machine integers and byte strings\<close>

type_synonym u8 = "8 word"
type_synonym u32 = "32 word"
type_synonym u64 = "64 word"
type_synonym i64 = "64 word"   \<comment> \<open>read through \<open>sint\<close>\<close>
type_synonym bytes = "u8 list"

text \<open>Rust's \<^verbatim>\<open><<\<close> on \<^verbatim>\<open>u64\<close>: the shift amount is masked.\<close>

definition shl64 :: "u64 \<Rightarrow> nat \<Rightarrow> u64" where
  "shl64 x n = push_bit (n mod 64) x"

definition shr64 :: "u64 \<Rightarrow> nat \<Rightarrow> u64" where
  "shr64 x n = drop_bit (n mod 64) x"

text \<open>\<^verbatim>\<open>u64::leading_zeros\<close>: the number of zero bits above the highest set bit, 64 for zero.\<close>

definition leading_zeros :: "u64 \<Rightarrow> nat" where
  "leading_zeros w = length (takeWhile (\<lambda>i. \<not> bit w i) (rev [0..<64]))"

section \<open>Results: errors and panics\<close>

datatype panic = AssertFailed | UnwrapFailed | IndexOutOfBounds | ArithmeticOverflow

datatype 'e exn = Err 'e | Panic panic

type_synonym ('e, 'a) result = "'e exn + 'a"

definition bindR :: "('e, 'a) result \<Rightarrow> ('a \<Rightarrow> ('e, 'b) result) \<Rightarrow> ('e, 'b) result" where
  "bindR r f = (case r of Inl e \<Rightarrow> Inl e | Inr a \<Rightarrow> f a)"

text \<open>\<^verbatim>\<open>Option::unwrap\<close>.\<close>

definition unwrap :: "'a option \<Rightarrow> ('e, 'a) result" where
  "unwrap x = (case x of None \<Rightarrow> Inl (Panic UnwrapFailed) | Some a \<Rightarrow> Inr a)"

text \<open>\<^verbatim>\<open>map_err\<close>: the error is converted, a panic keeps unwinding.\<close>

definition map_err :: "('e \<Rightarrow> 'f) \<Rightarrow> ('e, 'a) result \<Rightarrow> ('f, 'a) result" where
  "map_err f r = (case r of Inl (Err e) \<Rightarrow> Inl (Err (f e))
     | Inl (Panic p) \<Rightarrow> Inl (Panic p) | Inr a \<Rightarrow> Inr a)"

text \<open>Indexing a vector or slice.\<close>

definition index :: "'a list \<Rightarrow> nat \<Rightarrow> ('e, 'a) result" where
  "index xs i = (if i < length xs then Inr (xs ! i) else Inl (Panic IndexOutOfBounds))"

text \<open>A \<^verbatim>\<open>for\<close> loop over \<open>xs\<close> whose body may fail or panic.\<close>

fun foldR :: "('s \<Rightarrow> 'a \<Rightarrow> ('e, 's) result) \<Rightarrow> 's \<Rightarrow> 'a list \<Rightarrow> ('e, 's) result" where
  "foldR f s [] = Inr s"
| "foldR f s (x # xs) = bindR (f s x) (\<lambda>s'. foldR f s' xs)"

lemma bindR_simps [simp]:
  "bindR (Inr a) f = f a" "bindR (Inl e) f = Inl e"
  by (simp_all add: bindR_def)

lemma bindR_Inr_iff: "bindR r f = Inr b \<longleftrightarrow> (\<exists>a. r = Inr a \<and> f a = Inr b)"
  by (cases r) auto

lemma bindR_Inl_iff: "bindR r f = Inl e \<longleftrightarrow> r = Inl e \<or> (\<exists>a. r = Inr a \<and> f a = Inl e)"
  by (cases r) auto

lemma bindR_assoc: "bindR (bindR r f) g = bindR r (\<lambda>a. bindR (f a) g)"
  by (cases r) auto

text \<open>\<^verbatim>\<open>iter().map(f).collect()\<close> with a fallible \<open>f\<close>.\<close>

lemma foldR_collect:
  "\<forall>x \<in> set xs. f x = Inr (g x) \<Longrightarrow> foldR (\<lambda>acc x. bindR (f x) (\<lambda>y. Inr (acc @ [y]))) acc xs = Inr (acc @ map g xs)"
  by (induction xs arbitrary: acc) simp_all

lemma foldR_append: "foldR f s (xs @ ys) = bindR (foldR f s xs) (\<lambda>s'. foldR f s' ys)"
  by (induction xs arbitrary: s) (simp_all add: bindR_assoc)

lemma bindR_cong [fundef_cong]:
  "r = r' \<Longrightarrow> (\<And>a. r' = Inr a \<Longrightarrow> f a = f' a) \<Longrightarrow> bindR r f = bindR r' f'"
  by (cases r') auto

lemma unwrap_simps [simp]: "unwrap (Some a) = Inr a" "unwrap None = Inl (Panic UnwrapFailed)"
  by (simp_all add: unwrap_def)

lemma unwrap_Inr_iff: "unwrap x = Inr a \<longleftrightarrow> x = Some a"
  by (cases x) auto

lemma map_err_simps [simp]:
  "map_err f (Inr a) = Inr a" "map_err f (Inl (Err e)) = Inl (Err (f e))"
  "map_err f (Inl (Panic p)) = Inl (Panic p)"
  by (simp_all add: map_err_def)

lemma map_err_Inr_iff: "map_err f r = Inr a \<longleftrightarrow> r = Inr a"
  by (auto simp: map_err_def split: sum.splits exn.splits)

lemma index_in [simp]: "i < length xs \<Longrightarrow> index xs i = Inr (xs ! i)"
  by (simp add: index_def)

lemmas result_iffs = bindR_Inr_iff bindR_Inl_iff unwrap_Inr_iff map_err_Inr_iff
declare result_iffs [rust_simps] bindR_assoc [rust_simps]

section \<open>Fixed-size arrays\<close>

text \<open>\<^verbatim>\<open>[u8; N]\<close> is \<open>N barr\<close>: a byte string of length exactly \<open>N\<close>.\<close>

typedef (overloaded) 'n barr = "{bs :: bytes. length bs = LENGTH('n::len)}"
  morphisms to_vec Abs_barr
proof
  show "replicate LENGTH('n) 0 \<in> {bs :: bytes. length bs = LENGTH('n::len)}" by simp
qed

text \<open>
  \<open>arr_of\<close> builds an array from a byte string, cut or padded with zero bytes to the length of
  the type; \<open>try_into\<close> is Rust's checked conversion from a slice or vector.
\<close>

definition arr_of :: "bytes \<Rightarrow> 'n::len barr" where
  "arr_of bs = Abs_barr (take LENGTH('n) (bs @ replicate LENGTH('n) 0))"

definition try_into :: "bytes \<Rightarrow> 'n::len barr option" where
  "try_into bs = (if length bs = LENGTH('n) then Some (arr_of bs) else None)"

lemma Abs_barr_to_vec [code abstype]: "Abs_barr (to_vec a) = a"
  by (rule to_vec_inverse)

lemma length_to_vec [simp]: "length (to_vec (a :: 'n::len barr)) = LENGTH('n)"
  using to_vec [of a] by simp

lemma to_vec_eq_iff [simp]: "to_vec a = to_vec b \<longleftrightarrow> a = b"
  by (simp add: to_vec_inject)

lemma to_vec_arr_of [byte_simps, code abstract]:
  "to_vec (arr_of bs :: 'n::len barr) = take LENGTH('n) (bs @ replicate LENGTH('n) 0)"
  by (simp add: arr_of_def Abs_barr_inverse)

lemma to_vec_arr_of_exact [simp]:
  "length bs = LENGTH('n) \<Longrightarrow> to_vec (arr_of bs :: 'n::len barr) = bs"
  by (simp add: to_vec_arr_of)

lemma arr_of_to_vec [simp]: "arr_of (to_vec a) = a"
  by (metis length_to_vec to_vec_arr_of_exact to_vec_eq_iff)

lemma try_into_to_vec [simp]: "try_into (to_vec a) = Some a"
  by (simp add: try_into_def)

lemma try_into_Some_iff: "try_into bs = Some a \<longleftrightarrow> bs = to_vec a"
  by (auto simp: try_into_def split: if_splits)

lemma try_into_None_iff:
  "(try_into bs :: 'n::len barr option) = None \<longleftrightarrow> length bs \<noteq> LENGTH('n)"
  by (simp add: try_into_def)

text \<open>\<^verbatim>\<open>buf[lo..hi].copy_from_slice(src)\<close> with \<^verbatim>\<open>hi - lo = src.len()\<close> within the buffer.\<close>

definition copy_into :: "bytes \<Rightarrow> nat \<Rightarrow> bytes \<Rightarrow> bytes" where
  "copy_into buf lo src = take lo buf @ src @ drop (lo + length src) buf"

lemma length_copy_into [simp]:
  "lo + length src \<le> length buf \<Longrightarrow> length (copy_into buf lo src) = length buf"
  by (simp add: copy_into_def)

instantiation barr :: (len) equal
begin

definition equal_barr :: "'a barr \<Rightarrow> 'a barr \<Rightarrow> bool" where
  "equal_barr a b = (to_vec a = to_vec b)"

instance
  by standard (simp add: equal_barr_def)

end

section \<open>Big-endian encodings\<close>

fun be_bytes :: "nat \<Rightarrow> nat \<Rightarrow> bytes" where
  "be_bytes 0 n = []"
| "be_bytes (Suc w) n = be_bytes w (n div 256) @ [of_nat n]"

definition be_val :: "bytes \<Rightarrow> nat" where
  "be_val bs = foldl (\<lambda>a b. a * 256 + unat b) 0 bs"

definition u64_to_be :: "u64 \<Rightarrow> 8 barr" where
  "u64_to_be x = arr_of (be_bytes 8 (unat x))"

definition u64_from_be :: "8 barr \<Rightarrow> u64" where
  "u64_from_be a = of_nat (be_val (to_vec a))"

definition u32_to_be :: "u32 \<Rightarrow> 4 barr" where
  "u32_to_be x = arr_of (be_bytes 4 (unat x))"

definition u32_from_be :: "4 barr \<Rightarrow> u32" where
  "u32_from_be a = of_nat (be_val (to_vec a))"

lemma unat_lt2p: "unat (x :: 'a::len word) < 2 ^ LENGTH('a)"
  by (rule unsigned_less)

lemma length_be_bytes [simp]: "length (be_bytes w n) = w"
  by (induction w arbitrary: n) auto

lemma be_val_snoc [simp]: "be_val (bs @ [b]) = be_val bs * 256 + unat b"
  by (simp add: be_val_def)

lemma be_val_Nil [simp]: "be_val [] = 0"
  by (simp add: be_val_def)

lemma unat_of_nat_u8: "unat (of_nat n :: u8) = n mod 256"
  by (simp add: unat_of_nat)

lemma be_val_be_bytes: "be_val (be_bytes w n) = n mod 256 ^ w"
proof (induction w arbitrary: n)
  case (Suc w)
  have "n mod 256 ^ Suc w = n div 256 mod 256 ^ w * 256 + n mod 256"
    by (simp add: mod_mult2_eq mult.commute)
  then show ?case by (simp add: Suc unat_of_nat_u8)
qed simp

lemma be_val_bound: "be_val bs < 256 ^ length bs"
proof (induction bs rule: rev_induct)
  case (snoc b bs)
  have "unat b < 256" using unat_lt2p [of b] by simp
  with snoc show ?case by simp
qed simp

lemma be_bytes_be_val: "be_bytes (length bs) (be_val bs) = bs"
proof (induction bs rule: rev_induct)
  case (snoc b bs)
  have b: "unat b < 256" using unat_lt2p [of b] by simp
  have "(be_val bs * 256 + unat b) div 256 = be_val bs"
    using b by simp
  moreover have "(of_nat (be_val bs * 256 + unat b) :: u8) = b"
    using b by (simp only: word_unat_eq_iff unat_of_nat_u8) simp
  ultimately show ?case using snoc by simp
qed simp

lemma to_vec_u64_to_be [byte_simps]: "to_vec (u64_to_be x) = be_bytes 8 (unat x)"
  by (simp add: u64_to_be_def)

lemma to_vec_u32_to_be [byte_simps]: "to_vec (u32_to_be x) = be_bytes 4 (unat x)"
  by (simp add: u32_to_be_def)

lemma u64_from_to_be [simp]: "u64_from_be (u64_to_be x) = x"
  using unat_lt2p [of x] by (simp add: u64_from_be_def be_val_be_bytes to_vec_u64_to_be)

lemma u64_to_from_be [simp]: "u64_to_be (u64_from_be a) = a"
proof -
  have "be_val (to_vec a) < 2 ^ 64"
    using be_val_bound [of "to_vec a"] by simp
  then have "to_vec (u64_to_be (u64_from_be a)) = be_bytes 8 (be_val (to_vec a))"
    by (simp add: u64_from_be_def unat_of_nat to_vec_u64_to_be)
  also have "\<dots> = to_vec a"
    using be_bytes_be_val [of "to_vec a"] by simp
  finally show ?thesis by simp
qed

lemma u32_from_to_be [simp]: "u32_from_be (u32_to_be x) = x"
  using unat_lt2p [of x] by (simp add: u32_from_be_def be_val_be_bytes to_vec_u32_to_be)

lemma u64_to_be_inject [simp]: "u64_to_be x = u64_to_be y \<longleftrightarrow> x = y"
  by (metis u64_from_to_be)

lemma u32_to_be_inject [simp]: "u32_to_be x = u32_to_be y \<longleftrightarrow> x = y"
  by (metis u32_from_to_be)

section \<open>Bits of machine words\<close>

lemma word_and_shl_one: "l < 64 \<Longrightarrow> w AND shl64 1 l = 0 \<longleftrightarrow> \<not> bit w l"
  by (simp add: shl64_def push_bit_of_1 and_exp_eq_0_iff_not_bit)

lemma unat_of_nat_u64: "n < 2 ^ 64 \<Longrightarrow> unat (of_nat n :: u64) = n"
  by (simp add: unat_of_nat)

lemma word_unat_Rep_inverse: "of_nat (unat w) = (w :: 'a::len word)"
  by simp

lemma unat_u64_2p: "l < 64 \<Longrightarrow> unat (2 ^ l :: u64) = 2 ^ l"
proof -
  assume "l < 64"
  then have "(2::nat) ^ l < 2 ^ 64" by (intro power_strict_increasing) auto
  from unat_of_nat_u64 [OF this] show ?thesis by simp
qed

lemma bit_u64_of_nat: "n < 2 ^ 64 \<Longrightarrow> bit (of_nat n :: u64) l \<longleftrightarrow> bit n l"
proof -
  assume "n < 2 ^ 64"
  then have "bit n l \<longleftrightarrow> bit (unat (of_nat n :: u64)) l" by (simp add: unat_of_nat)
  then show ?thesis by (simp add: bit_unsigned_iff)
qed

lemma unat_shr64_1 [simp]: "unat (shr64 w 1) = unat w div 2" "unat (shr64 w (Suc 0)) = unat w div 2"
  by (simp_all only: shr64_def unat_drop_bit_eq) (simp_all add: drop_bit_Suc)

lemma u64_and_1: "w AND 1 = 0 \<longleftrightarrow> even (unat w)" for w :: u64
proof -
  have "w AND 1 = 0 \<longleftrightarrow> \<not> bit w 0" using word_and_shl_one [of 0 w] by (simp add: shl64_def)
  also have "\<dots> \<longleftrightarrow> \<not> bit (unat w) 0" by (simp add: bit_unsigned_iff)
  finally show ?thesis by (simp add: bit_iff_odd)
qed

lemma bit_nat_odd_div: "bit n l \<longleftrightarrow> odd (n div 2 ^ l)" for n :: nat
  by (simp add: bit_iff_odd)

text \<open>The highest set bit and \<open>leading_zeros\<close>.\<close>

lemma leading_zeros_top:
  assumes "w \<noteq> 0"
  shows "leading_zeros w < 64" and "bit w (63 - leading_zeros w)"
    and "63 - leading_zeros w < j \<Longrightarrow> \<not> bit w j"
proof -
  let ?xs = "rev [0..<64::nat]" and ?P = "\<lambda>i. \<not> bit w i"
  have nth: "?xs ! i = 63 - i" if "i < 64" for i
    using that by (simp add: rev_nth)
  obtain b where "bit w b" using assms by (auto simp: bit_eq_iff)
  then have "b \<in> set ?xs" using bit_imp_le_length [of w b] by simp
  with \<open>bit w b\<close> have "takeWhile ?P ?xs \<noteq> ?xs" by (auto simp: takeWhile_eq_all_conv)
  then show lt: "leading_zeros w < 64"
    unfolding leading_zeros_def
    by (metis (no_types, lifting) length_rev length_takeWhile_le length_upt less_le minus_nat.diff_0
        takeWhile_eq_take take_all_iff)
  show "bit w (63 - leading_zeros w)"
    using nth_length_takeWhile [of ?P ?xs] lt nth by (simp add: leading_zeros_def)
  show "\<not> bit w j" if "63 - leading_zeros w < j"
  proof
    assume "bit w j"
    then have "j < 64" using bit_imp_le_length [of w j] by simp
    with that have "63 - j < leading_zeros w" by linarith
    then have "?P (takeWhile ?P ?xs ! (63 - j))"
      by (metis (mono_tags, lifting) leading_zeros_def nth_mem set_takeWhileD)
    moreover have "takeWhile ?P ?xs ! (63 - j) = j"
      using \<open>63 - j < leading_zeros w\<close> \<open>j < 64\<close> nth [of "63 - j"]
      by (simp add: leading_zeros_def takeWhile_nth)
    ultimately show False using \<open>bit w j\<close> by simp
  qed
qed

lemma leading_zeros_bounds:
  assumes "w \<noteq> 0"
  shows "2 ^ (63 - leading_zeros w) \<le> unat w" and "unat w < 2 ^ Suc (63 - leading_zeros w)"
proof -
  let ?i = "63 - leading_zeros w"
  have "odd (unat w div 2 ^ ?i)"
    using leading_zeros_top(2) [OF assms] by (simp add: bit_unsigned_iff flip: bit_nat_odd_div)
  then show "2 ^ ?i \<le> unat w"
    by (metis div_less even_zero not_le)
  have "take_bit (Suc ?i) (unat w) = unat w"
    using leading_zeros_top(3) [OF assms]
    by (intro bit_eqI) (auto simp: bit_take_bit_iff bit_unsigned_iff not_less_eq [symmetric])
  then show "unat w < 2 ^ Suc ?i"
    by (metis take_bit_nat_less_exp)
qed

section \<open>Lists\<close>

lemma option_eq_by_Some: "(\<And>v. x = Some v \<longleftrightarrow> y = Some v) \<Longrightarrow> x = y"
  by (cases x; cases y) auto

lemma find_append: "find P (xs @ ys) = (case find P xs of None \<Rightarrow> find P ys | Some x \<Rightarrow> Some x)"
  by (induction xs) auto

text \<open>In a strictly increasing list the elements after position \<open>n\<close> are those above the one before it.\<close>

lemma drop_sorted_filter:
  fixes f :: "'a \<Rightarrow> 'b::linorder"
  assumes "sorted_wrt (\<lambda>a b. f a < f b) xs" and "n < length xs"
  shows "drop (Suc n) xs = filter (\<lambda>x. f (xs ! n) < f x) xs"
proof -
  let ?P = "\<lambda>x. f (xs ! n) < f x"
  have "filter ?P (take (Suc n) xs) = []"
    using assms by (auto simp: filter_empty_conv in_set_conv_nth sorted_wrt_iff_nth_less not_less less_Suc_eq
        order.strict_implies_order)
  moreover have "filter ?P (drop (Suc n) xs) = drop (Suc n) xs"
    using assms by (auto simp: filter_id_conv in_set_conv_nth sorted_wrt_iff_nth_less)
  ultimately show ?thesis by (metis append_Nil append_take_drop_id filter_append)
qed

lemma sorted_last_max:
  fixes f :: "'a \<Rightarrow> 'b::linorder"
  shows "sorted_wrt (\<lambda>a b. f a < f b) xs \<Longrightarrow> x \<in> set xs \<Longrightarrow> f x \<le> f (last xs)"
  by (cases xs rule: rev_cases) (auto simp: sorted_wrt_append order.strict_implies_order)

lemma u64_Suc_le_iff:
  fixes a b :: u64
  assumes "a + 1 \<noteq> 0"
  shows "a + 1 \<le> b \<longleftrightarrow> a < b"
proof -
  have "unat (1 + a) = Suc (unat a)" using assms by (intro unatSuc) (simp add: add.commute)
  then show ?thesis by (simp add: word_le_nat_alt word_less_nat_alt add.commute Suc_le_eq)
qed

lemma u32_less_Suc:
  fixes a b :: u32
  assumes "a + 1 \<noteq> 0" and "b \<le> a"
  shows "b < a + 1"
proof -
  have "unat (1 + a) = Suc (unat a)" using assms(1) by (intro unatSuc) (simp add: add.commute)
  then show ?thesis using assms(2) by (simp add: word_le_nat_alt word_less_nat_alt add.commute)
qed

lemma u64_Suc_eq_0: "a + 1 = 0 \<Longrightarrow> b \<le> (a :: u64)"
  by (metis add.commute add_diff_cancel_right' diff_0 word_order.extremum)

end
