(* ===== verification/Merkle_Spec.thy ===== *)
theory Merkle_Spec
  imports Prelude
begin

text \<open>
  The abstract specification of the cryptographic core: RFC 6962 Merkle trees over an arbitrary
  combining function \<open>nd\<close> on digests, with unbounded natural numbers and lists. \<open>MTH\<close> is the
  Merkle tree hash, \<open>PATH\<close> and \<open>SUBPROOF\<close> the proof generators, \<open>recon\<close> and \<open>recon2\<close> the
  reference verifiers that follow the tree top-down. The theory proves their completeness
  (a generated proof reconstructs the root), their soundness (a proof that reconstructs the root of
  a known tree is the generated one, as long as \<open>nd\<close> has no collision among the pairs that were
  combined) and the laws of the split point \<open>kpow\<close>. The machine-level theories of the crates
  refine these definitions.
\<close>

section \<open>The split point\<close>

text \<open>The largest power of two strictly below \<open>n\<close> (for \<open>n > 1\<close>).\<close>

fun kpow :: "nat \<Rightarrow> nat" where
  "kpow n = (if n \<le> 2 then 1 else 2 * kpow (Suc n div 2))"

declare kpow.simps [simp del]

lemma kpow_pow2: "\<exists>d. kpow n = 2 ^ d"
proof (induction n rule: kpow.induct)
  case (1 n)
  show ?case
  proof (cases "n \<le> 2")
    case True
    then show ?thesis by (intro exI [of _ 0]) (simp add: kpow.simps [of n])
  next
    case False
    with 1 obtain d where "kpow (Suc n div 2) = 2 ^ d" by auto
    with False show ?thesis by (intro exI [of _ "Suc d"]) (simp add: kpow.simps [of n])
  qed
qed

lemma kpow_bounds: "1 < n \<Longrightarrow> kpow n < n \<and> n \<le> 2 * kpow n"
proof (induction n rule: kpow.induct)
  case (1 n)
  show ?case
  proof (cases "n \<le> 2")
    case True
    with 1 show ?thesis by (simp add: kpow.simps [of n])
  next
    case False
    then have "kpow (Suc n div 2) < Suc n div 2 \<and> Suc n div 2 \<le> 2 * kpow (Suc n div 2)"
      using 1 by simp
    with False show ?thesis by (simp add: kpow.simps [of n]) linarith
  qed
qed

lemma kpow_pos [simp]: "0 < kpow n"
  using kpow_pow2 [of n] by auto

lemma kpow_neq_0 [simp]: "kpow n \<noteq> 0"
  using kpow_pos [of n] by simp

lemma kpow_less [simp]: "1 < n \<Longrightarrow> kpow n < n"
  using kpow_bounds by blast

lemma kpow_less_Suc0 [simp]: "Suc 0 < n \<Longrightarrow> kpow n < n"
  using kpow_bounds by simp

lemma min_kpow [simp]: "Suc 0 < n \<Longrightarrow> min n (kpow n) = kpow n" "Suc 0 < n \<Longrightarrow> min (kpow n) n = kpow n"
  using kpow_bounds [of n] by auto

lemma diff_kpow_less: "m < n \<Longrightarrow> n - kpow n < n"
  by simp

lemma kpow_le_double: "1 < n \<Longrightarrow> n \<le> 2 * kpow n"
  using kpow_bounds by blast

text \<open>The two bounds and being a power of two determine the split point.\<close>

lemma kpow_unique:
  assumes "2 ^ d < n" and "n \<le> 2 ^ Suc d"
  shows "kpow n = 2 ^ d"
proof -
  obtain e where e: "kpow n = 2 ^ e" using kpow_pow2 by blast
  have "1 < n" using assms(1) by (meson le_less_trans one_le_numeral one_le_power)
  then have "2 ^ e < n" and "n \<le> 2 ^ Suc e"
    using kpow_bounds [of n] e by auto
  with assms have "(2::nat) ^ e < 2 ^ Suc d" and "(2::nat) ^ d < 2 ^ Suc e"
    by (meson le_less_trans less_le_trans)+
  then have "e < Suc d" and "d < Suc e"
    using power_less_imp_less_exp [of "2::nat"] by (metis one_less_numeral_iff semiring_norm(76))+
  with e show ?thesis by (simp add: less_antisym)
qed

lemma kpow_double: "0 < n \<Longrightarrow> n \<le> 2 ^ d \<Longrightarrow> kpow (2 ^ d + n) = 2 ^ d"
  by (rule kpow_unique) auto

text \<open>A size between a split point and its double has the same split point.\<close>

lemma kpow_between: "kpow n < m \<Longrightarrow> m \<le> n \<Longrightarrow> 1 < n \<Longrightarrow> kpow m = kpow n"
  using kpow_pow2 [of n] kpow_le_double [of n]
  by (metis kpow_unique le_trans power_Suc)

lemma kpow_pow: "kpow (2 ^ Suc d) = 2 ^ d"
  by (rule kpow_unique) auto

section \<open>Merkle tree hash and proofs\<close>

function MTH :: "('h \<Rightarrow> 'h \<Rightarrow> 'h) \<Rightarrow> 'h list \<Rightarrow> 'h" where
  "MTH nd xs = (if length xs \<le> 1 then hd xs
     else nd (MTH nd (take (kpow (length xs)) xs)) (MTH nd (drop (kpow (length xs)) xs)))"
  by pat_completeness auto
termination
  by (relation "measure (\<lambda>(nd, xs). length xs)") (auto simp: not_le intro: diff_kpow_less)

function PATH :: "('h \<Rightarrow> 'h \<Rightarrow> 'h) \<Rightarrow> 'h list \<Rightarrow> nat \<Rightarrow> 'h list" where
  "PATH nd xs m = (if length xs \<le> 1 then []
     else let k = kpow (length xs) in
       if m < k then PATH nd (take k xs) m @ [MTH nd (drop k xs)]
       else PATH nd (drop k xs) (m - k) @ [MTH nd (take k xs)])"
  by pat_completeness auto
termination
  by (relation "measure (\<lambda>(nd, xs, m). length xs)") (auto simp: not_le intro: diff_kpow_less)

function SUBPROOF :: "('h \<Rightarrow> 'h \<Rightarrow> 'h) \<Rightarrow> 'h list \<Rightarrow> nat \<Rightarrow> bool \<Rightarrow> 'h list" where
  "SUBPROOF nd xs m b = (if length xs \<le> m then (if b then [] else [MTH nd xs])
     else if length xs \<le> 1 then []
     else let k = kpow (length xs) in
       if m \<le> k then SUBPROOF nd (take k xs) m b @ [MTH nd (drop k xs)]
       else SUBPROOF nd (drop k xs) (m - k) False @ [MTH nd (take k xs)])"
  by pat_completeness auto
termination
  by (relation "measure (\<lambda>(nd, xs, m, b). length xs)") (auto simp: not_le intro: diff_kpow_less)

declare MTH.simps [simp del] PATH.simps [simp del] SUBPROOF.simps [simp del]

lemma MTH_single [simp]: "MTH nd [x] = x"
  by (simp add: MTH.simps)

lemma MTH_split: "1 < length xs \<Longrightarrow>
  MTH nd xs = nd (MTH nd (take (kpow (length xs)) xs)) (MTH nd (drop (kpow (length xs)) xs))"
  by (subst MTH.simps) simp

lemma MTH_append:
  assumes "length xs = 2 ^ d" and "0 < length ys" and "length ys \<le> 2 ^ d"
  shows "MTH nd (xs @ ys) = nd (MTH nd xs) (MTH nd ys)"
proof -
  have "kpow (length (xs @ ys)) = 2 ^ d"
    using assms kpow_double by simp
  moreover have "1 < length (xs @ ys)"
    unfolding length_append assms(1) using assms(2) one_le_power [of "2::nat" d] by linarith
  ultimately show ?thesis
    unfolding MTH_split [OF \<open>1 < length (xs @ ys)\<close>] using assms(1) by simp
qed

section \<open>Reference verifiers\<close>

text \<open>
  \<open>recon nd n m p r\<close> recomputes the root of a tree of \<open>n\<close> leaves from leaf \<open>m\<close> with digest
  \<open>r\<close> and the audit path \<open>p\<close> (leaf to root); \<open>None\<close> when the path has the wrong length.
\<close>

function recon :: "('h \<Rightarrow> 'h \<Rightarrow> 'h) \<Rightarrow> nat \<Rightarrow> nat \<Rightarrow> 'h list \<Rightarrow> 'h \<Rightarrow> 'h option" where
  "recon nd n m p r =
     (if n \<le> 1 then (if p = [] then Some r else None)
      else if p = [] then None
      else let k = kpow n in
        if m < k then map_option (\<lambda>h. nd h (last p)) (recon nd k m (butlast p) r)
        else map_option (\<lambda>h. nd (last p) h) (recon nd (n - k) (m - k) (butlast p) r))"
  by pat_completeness auto
termination
  by (relation "measure (\<lambda>(nd, n, m, p, r). n)") (auto simp: not_le intro: diff_kpow_less)

text \<open>The pairs of digests that \<open>MTH\<close> and \<open>recon\<close> combine.\<close>

function MTH_pairs :: "('h \<Rightarrow> 'h \<Rightarrow> 'h) \<Rightarrow> 'h list \<Rightarrow> ('h \<times> 'h) list" where
  "MTH_pairs nd xs = (if length xs \<le> 1 then []
     else let l = take (kpow (length xs)) xs; r = drop (kpow (length xs)) xs in
       (MTH nd l, MTH nd r) # MTH_pairs nd l @ MTH_pairs nd r)"
  by pat_completeness auto
termination
  by (relation "measure (\<lambda>(nd, xs). length xs)") (auto simp: not_le intro: diff_kpow_less)

function recon_pairs :: "('h \<Rightarrow> 'h \<Rightarrow> 'h) \<Rightarrow> nat \<Rightarrow> nat \<Rightarrow> 'h list \<Rightarrow> 'h \<Rightarrow> ('h \<times> 'h) list" where
  "recon_pairs nd n m p r =
     (if n \<le> 1 \<or> p = [] then []
      else let k = kpow n in
        if m < k
        then (case recon nd k m (butlast p) r of None \<Rightarrow> [] | Some h \<Rightarrow> [(h, last p)])
               @ recon_pairs nd k m (butlast p) r
        else (case recon nd (n - k) (m - k) (butlast p) r of None \<Rightarrow> [] | Some h \<Rightarrow> [(last p, h)])
               @ recon_pairs nd (n - k) (m - k) (butlast p) r)"
  by pat_completeness auto
termination
  by (relation "measure (\<lambda>(nd, n, m, p, r). n)") (auto simp: not_le intro: diff_kpow_less)

text \<open>
  \<open>recon2\<close> follows \<open>SUBPROOF\<close> and returns the reconstructed roots of the old and of the new tree
  with the unread rest of the proof.
\<close>

function recon2 ::
  "('h \<Rightarrow> 'h \<Rightarrow> 'h) \<Rightarrow> nat \<Rightarrow> nat \<Rightarrow> 'h \<Rightarrow> 'h list \<Rightarrow> bool \<Rightarrow> (('h \<times> 'h) \<times> 'h list) option" where
  "recon2 nd m n old it b =
     (if n \<le> m \<or> n \<le> 1 then
        (if b then Some ((old, old), it)
         else (case it of [] \<Rightarrow> None | h # rest \<Rightarrow> Some ((h, h), rest)))
      else let k = kpow n in
        if m \<le> k then
          (case recon2 nd m k old it b of None \<Rightarrow> None
           | Some ((lo, ln), rest) \<Rightarrow>
               (case rest of [] \<Rightarrow> None | rh # rest' \<Rightarrow> Some ((lo, nd ln rh), rest')))
        else
          (case recon2 nd (m - k) (n - k) old it False of None \<Rightarrow> None
           | Some ((ro, rn), rest) \<Rightarrow>
               (case rest of [] \<Rightarrow> None | lh # rest' \<Rightarrow> Some ((nd lh ro, nd lh rn), rest'))))"
  by pat_completeness auto
termination
  by (relation "measure (\<lambda>(nd, m, n, old, it, b). n)") (auto simp: not_le intro: diff_kpow_less)

text \<open>The pairs combined for the new root.\<close>

function recon2_pairs ::
  "('h \<Rightarrow> 'h \<Rightarrow> 'h) \<Rightarrow> nat \<Rightarrow> nat \<Rightarrow> 'h \<Rightarrow> 'h list \<Rightarrow> bool \<Rightarrow> ('h \<times> 'h) list" where
  "recon2_pairs nd m n old it b =
     (if n \<le> m \<or> n \<le> 1 then []
      else let k = kpow n in
        if m \<le> k then
          (case recon2 nd m k old it b of Some ((lo, ln), rh # rest') \<Rightarrow> [(ln, rh)] | _ \<Rightarrow> [])
            @ recon2_pairs nd m k old it b
        else
          (case recon2 nd (m - k) (n - k) old it False of
             Some ((ro, rn), lh # rest') \<Rightarrow> [(lh, rn)] | _ \<Rightarrow> [])
            @ recon2_pairs nd (m - k) (n - k) old it False)"
  by pat_completeness auto
termination
  by (relation "measure (\<lambda>(nd, m, n, old, it, b). n)") (auto simp: not_le intro: diff_kpow_less)

declare recon.simps [simp del] MTH_pairs.simps [simp del] recon_pairs.simps [simp del]
  recon2.simps [simp del] recon2_pairs.simps [simp del]

section \<open>Unfolding rules\<close>

lemma recon_single: "recon nd (Suc 0) m p r = (if p = [] then Some r else None)"
  by (simp add: recon.simps)

lemma recon_Nil: "1 < n \<Longrightarrow> recon nd n m [] r = None"
  by (simp add: recon.simps)

lemma recon_left: "1 < n \<Longrightarrow> m < kpow n \<Longrightarrow>
  recon nd n m (p @ [s]) r = map_option (\<lambda>h. nd h s) (recon nd (kpow n) m p r)"
  by (subst recon.simps) simp

lemma recon_right: "1 < n \<Longrightarrow> kpow n \<le> m \<Longrightarrow>
  recon nd n m (p @ [s]) r = map_option (nd s) (recon nd (n - kpow n) (m - kpow n) p r)"
  by (subst recon.simps) (simp add: Let_def)

lemma PATH_left: "1 < length xs \<Longrightarrow> m < kpow (length xs) \<Longrightarrow>
  PATH nd xs m = PATH nd (take (kpow (length xs)) xs) m @ [MTH nd (drop (kpow (length xs)) xs)]"
  by (subst PATH.simps) (simp add: Let_def)

lemma PATH_right: "1 < length xs \<Longrightarrow> kpow (length xs) \<le> m \<Longrightarrow>
  PATH nd xs m =
    PATH nd (drop (kpow (length xs)) xs) (m - kpow (length xs)) @ [MTH nd (take (kpow (length xs)) xs)]"
  by (subst PATH.simps) (simp add: Let_def)

lemma PATH_single: "length xs = 1 \<Longrightarrow> PATH nd xs m = []"
  by (simp add: PATH.simps)

lemma MTH_pairs_split: "1 < length xs \<Longrightarrow>
  MTH_pairs nd xs = (MTH nd (take (kpow (length xs)) xs), MTH nd (drop (kpow (length xs)) xs))
     # MTH_pairs nd (take (kpow (length xs)) xs) @ MTH_pairs nd (drop (kpow (length xs)) xs)"
  by (subst MTH_pairs.simps) (simp add: Let_def)

lemma recon_pairs_left: "1 < n \<Longrightarrow> m < kpow n \<Longrightarrow> recon nd (kpow n) m p r = Some h \<Longrightarrow>
  recon_pairs nd n m (p @ [s]) r = (h, s) # recon_pairs nd (kpow n) m p r"
  by (subst recon_pairs.simps) simp

lemma recon_pairs_right: "1 < n \<Longrightarrow> kpow n \<le> m \<Longrightarrow>
  recon nd (n - kpow n) (m - kpow n) p r = Some h \<Longrightarrow>
  recon_pairs nd n m (p @ [s]) r = (s, h) # recon_pairs nd (n - kpow n) (m - kpow n) p r"
  by (subst recon_pairs.simps) (simp add: Let_def)

text \<open>The length of the audit path of leaf \<open>m\<close> in a tree of \<open>n\<close> leaves.\<close>

function path_len :: "nat \<Rightarrow> nat \<Rightarrow> nat" where
  "path_len n m = (if n \<le> 1 then 0
     else if m < kpow n then Suc (path_len (kpow n) m)
     else Suc (path_len (n - kpow n) (m - kpow n)))"
  by pat_completeness auto
termination
  by (relation "measure (\<lambda>(n, m). n)") (auto simp: not_le intro: diff_kpow_less)

declare path_len.simps [simp del]

lemma path_len_single: "path_len (Suc 0) m = 0"
  by (simp add: path_len.simps)

lemma path_len_left: "1 < n \<Longrightarrow> m < kpow n \<Longrightarrow> path_len n m = Suc (path_len (kpow n) m)"
  by (subst path_len.simps) simp

lemma path_len_right: "1 < n \<Longrightarrow> kpow n \<le> m \<Longrightarrow>
  path_len n m = Suc (path_len (n - kpow n) (m - kpow n))"
  by (subst path_len.simps) simp

lemma path_len_pos: "1 < n \<Longrightarrow> 0 < path_len n m"
  by (subst path_len.simps) simp

lemmas path_len_rules = path_len_single path_len_left path_len_right

lemma kpow_le_pow: "1 < n \<Longrightarrow> n \<le> 2 ^ Suc e \<Longrightarrow> kpow n \<le> 2 ^ e"
proof -
  assume gt: "1 < n" and n: "n \<le> 2 ^ Suc e"
  obtain d where d: "kpow n = 2 ^ d" using kpow_pow2 by blast
  with kpow_less [OF gt] n have "(2::nat) ^ d < 2 ^ Suc e" by linarith
  then have "d < Suc e" by (rule power_less_imp_less_exp [rotated]) simp
  with d show ?thesis by simp
qed

lemma path_len_bound: "m < n \<Longrightarrow> n \<le> 2 ^ d \<Longrightarrow> path_len n m \<le> d"
proof (induction n m arbitrary: d rule: path_len.induct)
  case (1 n m)
  show ?case
  proof (cases "n = 1")
    case True
    then show ?thesis by (simp add: path_len_single)
  next
    case False
    then have gt: "1 < n" using "1.prems"(1) by simp
    then obtain e where d: "d = Suc e" using "1.prems"(2) by (cases d) auto
    have k: "kpow n \<le> 2 ^ e" and nk: "n - kpow n \<le> 2 ^ e"
      using gt "1.prems"(2) kpow_le_double [OF gt] kpow_le_pow [of n e] unfolding d by simp_all
    show ?thesis
    proof (cases "m < kpow n")
      case True
      with gt d k "1.IH"(1) [of e] show ?thesis by (simp add: path_len_left)
    next
      case False
      with gt d nk "1.IH"(2) [of e] "1.prems"(1) show ?thesis by (simp add: path_len_right)
    qed
  qed
qed

section \<open>Inclusion: completeness and soundness\<close>

theorem recon_PATH:
  "m < length xs \<Longrightarrow> recon nd (length xs) m (PATH nd xs m) (xs ! m) = Some (MTH nd xs)"
proof (induction nd xs m rule: PATH.induct)
  case (1 nd xs m)
  let ?k = "kpow (length xs)"
  consider "length xs = 1" | "1 < length xs" "m < ?k" | "1 < length xs" "?k \<le> m"
    using "1.prems" by linarith
  then show ?case
  proof cases
    case 1
    then obtain x where "xs = [x]" by (auto simp: length_Suc_conv)
    with "1.prems" show ?thesis by (simp add: PATH_single recon_single)
  next
    case 2
    then have "recon nd ?k m (PATH nd (take ?k xs) m) (xs ! m) = Some (MTH nd (take ?k xs))"
      using "1.IH"(1) by simp
    with 2 show ?thesis by (simp add: PATH_left recon_left MTH_split)
  next
    case 3
    then have "recon nd (length xs - ?k) (m - ?k) (PATH nd (drop ?k xs) (m - ?k)) (xs ! m)
        = Some (MTH nd (drop ?k xs))"
      using "1.IH"(2) "1.prems" by simp
    with 3 show ?thesis by (simp add: PATH_right recon_right MTH_split)
  qed
qed

lemma recon_Some_iff_length:
  "m < n \<Longrightarrow> (\<exists>h. recon nd n m p r = Some h) \<longleftrightarrow> length p = path_len n m"
proof (induction nd n m p r rule: recon.induct)
  case (1 nd n m p r)
  consider "n = 1" | "1 < n" "p = []" | "1 < n" "p \<noteq> []" "m < kpow n" | "1 < n" "p \<noteq> []" "kpow n \<le> m"
    using "1.prems" by linarith
  then show ?case
  proof cases
    case 1
    then show ?thesis by (simp add: recon_single path_len_single)
  next
    case 2
    then show ?thesis using path_len_pos [of n m] by (simp add: recon_Nil)
  next
    case 3
    then obtain q s where p: "p = q @ [s]" by (cases p rule: rev_cases) auto
    then have "(\<exists>h. recon nd (kpow n) m q r = Some h) \<longleftrightarrow> length q = path_len (kpow n) m"
      using "1.IH"(1) [OF _ _ refl] 3 by simp
    with 3 p show ?thesis by (simp add: recon_left path_len_left)
  next
    case 4
    then obtain q s where p: "p = q @ [s]" by (cases p rule: rev_cases) auto
    then have "(\<exists>h. recon nd (n - kpow n) (m - kpow n) q r = Some h) \<longleftrightarrow>
        length q = path_len (n - kpow n) (m - kpow n)"
      using "1.IH"(2) [OF _ _ refl] 4 "1.prems" by (simp add: diff_less_mono)
    with 4 p show ?thesis by (simp add: recon_right path_len_right)
  qed
qed

lemma length_PATH: "m < length xs \<Longrightarrow> length (PATH nd xs m) = path_len (length xs) m"
  using recon_Some_iff_length [of m "length xs" nd "PATH nd xs m" "xs ! m"] recon_PATH [of m xs nd]
  by simp

lemma inj_onD2: "inj_on (case_prod f) S \<Longrightarrow> f a b = f c d \<Longrightarrow> (a, b) \<in> S \<Longrightarrow> (c, d) \<in> S \<Longrightarrow>
  a = c \<and> b = d"
  by (metis case_prod_conv inj_onD prod.inject)

theorem recon_sound:
  assumes "m < length xs" and "recon nd (length xs) m p r = Some (MTH nd xs)"
    and "inj_on (case_prod nd) (set (MTH_pairs nd xs) \<union> set (recon_pairs nd (length xs) m p r))"
  shows "r = xs ! m \<and> p = PATH nd xs m"
  using assms
proof (induction nd xs m arbitrary: p rule: PATH.induct)
  case (1 nd xs m)
  let ?k = "kpow (length xs)"
  let ?l = "take ?k xs" and ?r = "drop ?k xs"
  consider "length xs = 1" | "1 < length xs" "m < ?k" | "1 < length xs" "?k \<le> m"
    using "1.prems"(1) by linarith
  then show ?case
  proof cases
    case 1
    then obtain x where "xs = [x]" by (auto simp: length_Suc_conv)
    with "1.prems"(1,2) show ?thesis
      by (simp add: PATH_single recon_single split: if_splits)
  next
    case 2
    then obtain q s h where p: "p = q @ [s]" and h: "recon nd ?k m q r = Some h"
      and eq: "nd h s = nd (MTH nd ?l) (MTH nd ?r)"
      using "1.prems"(2) by (cases p rule: rev_cases)
        (auto simp: recon_Nil recon_left MTH_split [of xs])
    have prs: "recon_pairs nd (length xs) m p r = (h, s) # recon_pairs nd ?k m q r"
      using 2 h p by (simp add: recon_pairs_left)
    have "h = MTH nd ?l \<and> s = MTH nd ?r"
      by (rule inj_onD2 [OF "1.prems"(3) eq]) (use 2 in \<open>simp_all add: prs MTH_pairs_split\<close>)
    moreover have "inj_on (case_prod nd) (set (MTH_pairs nd ?l) \<union> set (recon_pairs nd ?k m q r))"
      by (rule inj_on_subset [OF "1.prems"(3)]) (use 2 in \<open>auto simp: prs MTH_pairs_split [of xs]\<close>)
    ultimately show ?thesis
      using "1.IH"(1) [of _ q] 2 p h by (simp add: PATH_left)
  next
    case 3
    then obtain q s h where p: "p = q @ [s]" and h: "recon nd (length xs - ?k) (m - ?k) q r = Some h"
      and eq: "nd s h = nd (MTH nd ?l) (MTH nd ?r)"
      using "1.prems"(2) by (cases p rule: rev_cases)
        (auto simp: recon_Nil recon_right MTH_split [of xs])
    have prs: "recon_pairs nd (length xs) m p r =
        (s, h) # recon_pairs nd (length xs - ?k) (m - ?k) q r"
      using 3 h p by (simp add: recon_pairs_right)
    have "s = MTH nd ?l \<and> h = MTH nd ?r"
      by (rule inj_onD2 [OF "1.prems"(3) eq]) (use 3 in \<open>simp_all add: prs MTH_pairs_split\<close>)
    moreover have "inj_on (case_prod nd)
        (set (MTH_pairs nd ?r) \<union> set (recon_pairs nd (length xs - ?k) (m - ?k) q r))"
      by (rule inj_on_subset [OF "1.prems"(3)]) (use 3 in \<open>auto simp: prs MTH_pairs_split [of xs]\<close>)
    ultimately show ?thesis
      using "1.IH"(2) [of _ q] 3 p h "1.prems"(1) by (simp add: PATH_right diff_less_mono)
  qed
qed

section \<open>Consistency: completeness and soundness\<close>

lemma SUBPROOF_left: "m < length xs \<Longrightarrow> 1 < length xs \<Longrightarrow> m \<le> kpow (length xs) \<Longrightarrow>
  SUBPROOF nd xs m b =
    SUBPROOF nd (take (kpow (length xs)) xs) m b @ [MTH nd (drop (kpow (length xs)) xs)]"
  by (subst SUBPROOF.simps) (simp add: Let_def)

lemma SUBPROOF_right: "m < length xs \<Longrightarrow> 1 < length xs \<Longrightarrow> kpow (length xs) < m \<Longrightarrow>
  SUBPROOF nd xs m b =
    SUBPROOF nd (drop (kpow (length xs)) xs) (m - kpow (length xs)) False
      @ [MTH nd (take (kpow (length xs)) xs)]"
  by (subst SUBPROOF.simps) (simp add: Let_def)

lemma SUBPROOF_base: "SUBPROOF nd xs (length xs) b = (if b then [] else [MTH nd xs])"
  by (subst SUBPROOF.simps) simp

lemma recon2_base: "recon2 nd n n old it b =
  (if b then Some ((old, old), it)
   else (case it of [] \<Rightarrow> None | h # rest \<Rightarrow> Some ((h, h), rest)))"
  by (subst recon2.simps) simp

lemma recon2_left: "m < n \<Longrightarrow> 1 < n \<Longrightarrow> m \<le> kpow n \<Longrightarrow> recon2 nd m n old it b =
  (case recon2 nd m (kpow n) old it b of None \<Rightarrow> None
   | Some ((lo, ln), rest) \<Rightarrow>
       (case rest of [] \<Rightarrow> None | rh # rest' \<Rightarrow> Some ((lo, nd ln rh), rest')))"
  by (subst recon2.simps) (simp add: Let_def)

lemma recon2_right: "m < n \<Longrightarrow> 1 < n \<Longrightarrow> kpow n < m \<Longrightarrow> recon2 nd m n old it b =
  (case recon2 nd (m - kpow n) (n - kpow n) old it False of None \<Rightarrow> None
   | Some ((ro, rn), rest) \<Rightarrow>
       (case rest of [] \<Rightarrow> None | lh # rest' \<Rightarrow> Some ((nd lh ro, nd lh rn), rest')))"
  by (subst recon2.simps) (simp add: Let_def)

lemma recon2_pairs_left: "m < n \<Longrightarrow> 1 < n \<Longrightarrow> m \<le> kpow n \<Longrightarrow>
  recon2 nd m (kpow n) old it b = Some ((lo, ln), rh # rest) \<Longrightarrow>
  recon2_pairs nd m n old it b = (ln, rh) # recon2_pairs nd m (kpow n) old it b"
  by (subst recon2_pairs.simps) (simp add: Let_def)

lemma recon2_pairs_right: "m < n \<Longrightarrow> 1 < n \<Longrightarrow> kpow n < m \<Longrightarrow>
  recon2 nd (m - kpow n) (n - kpow n) old it False = Some ((ro, rn), lh # rest) \<Longrightarrow>
  recon2_pairs nd m n old it b = (lh, rn) # recon2_pairs nd (m - kpow n) (n - kpow n) old it False"
  by (subst recon2_pairs.simps) (simp add: Let_def)

text \<open>A prefix longer than the split point shares the left subtree.\<close>

lemma MTH_take_right:
  assumes "1 < length xs" and "kpow (length xs) < m" and "m \<le> length xs"
  shows "MTH nd (take m xs) =
    nd (MTH nd (take (kpow (length xs)) xs)) (MTH nd (take (m - kpow (length xs)) (drop (kpow (length xs)) xs)))"
proof -
  have "length (take m xs) = m" using assms by simp
  moreover have "1 < m" using assms kpow_pos [of "length xs"] by linarith
  moreover have "kpow m = kpow (length xs)"
    using assms by (intro kpow_between) auto
  ultimately show ?thesis
    using assms by (simp add: MTH_split [of "take m xs"] min_def drop_take)
qed

theorem recon2_SUBPROOF:
  "0 < m \<Longrightarrow> m \<le> length xs \<Longrightarrow> (b \<Longrightarrow> old = MTH nd (take m xs)) \<Longrightarrow>
   recon2 nd m (length xs) old (SUBPROOF nd xs m b @ rest) b =
     Some ((MTH nd (take m xs), MTH nd xs), rest)"
proof (induction nd xs m b arbitrary: rest rule: SUBPROOF.induct)
  case (1 nd xs m b)
  let ?k = "kpow (length xs)"
  consider "m = length xs" | "m < length xs" "1 < length xs" "m \<le> ?k"
    | "m < length xs" "1 < length xs" "?k < m"
    using "1.prems"(1,2) by linarith
  then show ?case
  proof cases
    case 1
    with "1.prems" show ?thesis by (auto simp: recon2_base SUBPROOF_base)
  next
    case 2
    then have "recon2 nd m ?k old (SUBPROOF nd (take ?k xs) m b @ MTH nd (drop ?k xs) # rest) b =
        Some ((MTH nd (take m xs), MTH nd (take ?k xs)), MTH nd (drop ?k xs) # rest)"
      using "1.IH"(1) [of _ "MTH nd (drop ?k xs) # rest"] "1.prems" by (simp add: min.absorb1)
    with 2 show ?thesis by (simp add: recon2_left SUBPROOF_left MTH_split [of xs])
  next
    case 3
    then have "recon2 nd (m - ?k) (length xs - ?k) old
        (SUBPROOF nd (drop ?k xs) (m - ?k) False @ MTH nd (take ?k xs) # rest) False =
        Some ((MTH nd (take (m - ?k) (drop ?k xs)), MTH nd (drop ?k xs)), MTH nd (take ?k xs) # rest)"
      using "1.IH"(2) [of _ "MTH nd (take ?k xs) # rest"] "1.prems" by simp
    with 3 show ?thesis
      by (simp add: recon2_right SUBPROOF_right MTH_split [of xs] MTH_take_right)
  qed
qed

theorem recon2_sound:
  assumes "0 < m" and "m \<le> length xs"
    and "recon2 nd m (length xs) old it b = Some ((ro, MTH nd xs), rest)"
    and "inj_on (case_prod nd) (set (MTH_pairs nd xs) \<union> set (recon2_pairs nd m (length xs) old it b))"
  shows "ro = MTH nd (take m xs)"
  using assms
proof (induction nd xs m b arbitrary: ro rest rule: SUBPROOF.induct)
  case (1 nd xs m b)
  let ?k = "kpow (length xs)"
  let ?l = "take ?k xs" and ?r = "drop ?k xs"
  consider "m = length xs" | "m < length xs" "1 < length xs" "m \<le> ?k"
    | "m < length xs" "1 < length xs" "?k < m"
    using "1.prems"(1,2) by linarith
  then show ?case
  proof cases
    case 1
    with "1.prems"(3) show ?thesis by (auto simp: recon2_base split: if_splits list.splits)
  next
    case 2
    then obtain ln rh where sub: "recon2 nd m ?k old it b = Some ((ro, ln), rh # rest)"
      and eq: "nd ln rh = nd (MTH nd ?l) (MTH nd ?r)"
      using "1.prems"(3) by (auto simp: recon2_left [OF 2] MTH_split [OF 2(2)] split: option.splits list.splits)
    note prs = recon2_pairs_left [OF 2 sub]
    have "ln = MTH nd ?l \<and> rh = MTH nd ?r"
      by (rule inj_onD2 [OF "1.prems"(4) eq]) (use 2 in \<open>simp_all add: prs MTH_pairs_split\<close>)
    moreover have "inj_on (case_prod nd) (set (MTH_pairs nd ?l) \<union> set (recon2_pairs nd m ?k old it b))"
      by (rule inj_on_subset [OF "1.prems"(4)]) (use 2 in \<open>auto simp: prs MTH_pairs_split [of xs]\<close>)
    ultimately have "ro = MTH nd (take m ?l)"
      using "1.IH"(1) [of _ ro "rh # rest"] 2 sub "1.prems"(1) by simp
    with 2 show ?thesis by (simp add: min.absorb1)
  next
    case 3
    from "1.prems"(3) obtain so sn lh where sub: "recon2 nd (m - ?k) (length xs - ?k) old it False = Some ((so, sn), lh # rest)"
      and eq: "nd lh sn = nd (MTH nd ?l) (MTH nd ?r)" and ro: "ro = nd lh so"
      unfolding recon2_right [OF 3] MTH_split [OF 3(2)] by (auto split: option.splits list.splits)
    note prs = recon2_pairs_right [OF 3 sub]
    have "lh = MTH nd ?l \<and> sn = MTH nd ?r"
      by (rule inj_onD2 [OF "1.prems"(4) eq]) (use 3 in \<open>simp_all add: prs MTH_pairs_split\<close>)
    moreover have "inj_on (case_prod nd)
        (set (MTH_pairs nd ?r) \<union> set (recon2_pairs nd (m - ?k) (length xs - ?k) old it False))"
      by (rule inj_on_subset [OF "1.prems"(4)]) (use 3 in \<open>auto simp: prs MTH_pairs_split [of xs]\<close>)
    ultimately have "lh = MTH nd ?l" and "so = MTH nd (take (m - ?k) ?r)"
      using "1.IH"(2) [of _ so "lh # rest"] 3 sub "1.prems"(2) by simp_all
    with 3 ro show ?thesis by (simp add: MTH_take_right)
  qed
qed

section \<open>The root determines the leaves\<close>

theorem MTH_inject:
  assumes "length xs = length ys" and "0 < length xs" and "MTH nd xs = MTH nd ys"
    and "inj_on (case_prod nd) (set (MTH_pairs nd xs) \<union> set (MTH_pairs nd ys))"
  shows "xs = ys"
  using assms
proof (induction nd xs arbitrary: ys rule: MTH.induct)
  case (1 nd xs)
  let ?k = "kpow (length xs)"
  show ?case
  proof (cases "length xs = 1")
    case True
    then obtain x y where "xs = [x]" "ys = [y]"
      using "1.prems"(1) by (metis One_nat_def length_0_conv length_Suc_conv)
    with "1.prems"(3) show ?thesis by simp
  next
    case False
    then have gt: "1 < length xs" "1 < length ys" using "1.prems"(1,2) by linarith+
    note prs = MTH_pairs_split [OF gt(1)] MTH_pairs_split [OF gt(2)]
    have eq: "nd (MTH nd (take ?k xs)) (MTH nd (drop ?k xs)) =
        nd (MTH nd (take ?k ys)) (MTH nd (drop ?k ys))"
      using "1.prems"(1,3) gt by (simp add: MTH_split)
    have roots: "MTH nd (take ?k xs) = MTH nd (take ?k ys) \<and> MTH nd (drop ?k xs) = MTH nd (drop ?k ys)"
      by (rule inj_onD2 [OF "1.prems"(4) eq]) (use "1.prems"(1) in \<open>simp_all add: prs\<close>)
    have "take ?k xs = take ?k ys"
      by (rule "1.IH"(1)) (use gt roots "1.prems"(1) in
        \<open>auto intro: inj_on_subset [OF "1.prems"(4)] simp: prs\<close>)
    moreover have "drop ?k xs = drop ?k ys"
      by (rule "1.IH"(2)) (use gt roots "1.prems"(1) in
        \<open>auto intro: inj_on_subset [OF "1.prems"(4)] simp: prs\<close>)
    ultimately show ?thesis by (metis append_take_drop_id)
  qed
qed

end
