(* ===== verification/Core_Hash.thy ===== *)
theory Core_Hash
  imports Merkle_Spec
begin

text \<open>
  \<^verbatim>\<open>settled-core/src/hash.rs\<close>: the two domain-separated hash constructions. SHA-256 is code of
  the \<^verbatim>\<open>sha2\<close> crate, so it is a parameter \<open>sha\<close> from byte strings to 32-byte arrays; nothing is
  assumed of it here. Collision resistance enters theorems only as injectivity on the finite list of
  byte strings that a computation really hashes; \<open>tree_inputs\<close> is the set of those hashed when the
  root of a log is computed.
\<close>

type_synonym hash = "32 barr"
type_synonym sha256 = "bytes \<Rightarrow> hash"

definition leaf_hash :: "sha256 \<Rightarrow> bytes \<Rightarrow> hash" where
  "leaf_hash sha data = sha (0x00 # data)"

definition node_hash :: "sha256 \<Rightarrow> hash \<Rightarrow> hash \<Rightarrow> hash" where
  "node_hash sha left right = sha (0x01 # to_vec left @ to_vec right)"

text \<open>The byte string hashed for a pair of children, and the one hashed for a leaf.\<close>

definition node_input :: "hash \<times> hash \<Rightarrow> bytes" where
  "node_input p = 0x01 # to_vec (fst p) @ to_vec (snd p)"

definition leaf_input :: "bytes \<Rightarrow> bytes" where
  "leaf_input data = 0x00 # data"

lemma node_input_inject [simp]: "node_input p = node_input q \<longleftrightarrow> p = q"
  by (cases p; cases q) (simp add: node_input_def append_eq_append_conv)

lemma leaf_input_inject [simp]: "leaf_input d = leaf_input e \<longleftrightarrow> d = e"
  by (simp add: leaf_input_def)

text \<open>Domain separation: no byte string is both a leaf input and a node input.\<close>

lemma leaf_input_neq_node_input [simp]:
  "leaf_input d \<noteq> node_input p" "node_input p \<noteq> leaf_input d"
  by (simp_all add: leaf_input_def node_input_def)

lemma node_hash_input: "node_hash sha l r = sha (node_input (l, r))"
  by (simp add: node_hash_def node_input_def)

lemma leaf_hash_input: "leaf_hash sha d = sha (leaf_input d)"
  by (simp add: leaf_hash_def leaf_input_def)

text \<open>Injectivity of SHA-256 on the hashed byte strings carries over to the combined pairs.\<close>

lemma inj_on_node_hash:
  assumes "inj_on sha (node_input ` S)"
  shows "inj_on (case_prod (node_hash sha)) S"
proof (rule inj_onI)
  fix p q
  assume "p \<in> S" "q \<in> S" and eq: "case_prod (node_hash sha) p = case_prod (node_hash sha) q"
  then have "sha (node_input p) = sha (node_input q)"
    by (simp add: node_hash_input split: prod.splits)
  with \<open>p \<in> S\<close> \<open>q \<in> S\<close> have "node_input p = node_input q"
    by (auto dest: inj_onD [OF assms])
  then show "p = q" by simp
qed

lemma inj_on_map_leaf_hash:
  assumes "map (leaf_hash sha) ds = map (leaf_hash sha) es"
    and "inj_on sha (leaf_input ` (set ds \<union> set es))"
  shows "ds = es"
proof (rule map_inj_on [OF assms(1)])
  show "inj_on (leaf_hash sha) (set ds \<union> set es)"
    using assms(2) by (auto simp: inj_on_def leaf_hash_input)
qed

section \<open>The hashed byte strings of a log\<close>

text \<open>The byte strings hashed when the root of the log with entries \<open>ds\<close> is computed.\<close>

definition tree_inputs :: "sha256 \<Rightarrow> bytes list \<Rightarrow> bytes set" where
  "tree_inputs sha ds = leaf_input ` set ds \<union>
     node_input ` set (MTH_pairs (node_hash sha) (map (leaf_hash sha) ds))"

text \<open>
  A concrete function in the place of SHA-256 for the theorems that show hypotheses can hold: the
  first 32 non-zero bytes of the input. It has no collisions on the small inputs used there.
\<close>

definition toy_sha :: sha256 where
  "toy_sha bs = arr_of (filter (\<lambda>b. b \<noteq> 0) bs)"

end
