(* ===== verification/Core_Sth.thy ===== *)
theory Core_Sth
  imports Core_Hash
begin

text \<open>
  \<^verbatim>\<open>settled-core/src/sth.rs\<close>: the 48-byte payload of a signed tree head, its signature and the
  check of the signature. Ed25519 is code of the \<^verbatim>\<open>ed25519-dalek\<close> crate: the record \<open>ed25519\<close> holds
  the functions the program calls, and \<open>ed_laws\<close> the documented behaviour it relies on (a public
  key derived from a signing key parses, a signature made with the signing key verifies under it, and
  the strict check accepts no more than the plain one).
  Unforgeability is not assumed: no theorem needs it.
\<close>

type_synonym signing_key = "32 barr"
type_synonym public_key = "32 barr"
type_synonym signature = "64 barr"

record ed25519 =
  ed_public :: "signing_key \<Rightarrow> public_key"                          \<comment> \<open>\<^verbatim>\<open>verifying_key().to_bytes()\<close>\<close>
  ed_sign :: "signing_key \<Rightarrow> bytes \<Rightarrow> signature"                   \<comment> \<open>\<^verbatim>\<open>sign\<close>\<close>
  ed_key_ok :: "public_key \<Rightarrow> bool"                                \<comment> \<open>\<^verbatim>\<open>VerifyingKey::from_bytes\<close> is \<^verbatim>\<open>Ok\<close>\<close>
  ed_verify :: "public_key \<Rightarrow> bytes \<Rightarrow> signature \<Rightarrow> bool"         \<comment> \<open>\<^verbatim>\<open>verify\<close>\<close>
  ed_verify_strict :: "public_key \<Rightarrow> bytes \<Rightarrow> signature \<Rightarrow> bool"  \<comment> \<open>\<^verbatim>\<open>verify_strict\<close>\<close>
  ed_sig_from_slice :: "bytes \<Rightarrow> signature option"                 \<comment> \<open>\<^verbatim>\<open>Signature::from_slice\<close>\<close>

definition ed_laws :: "ed25519 \<Rightarrow> bool" where
  "ed_laws ed \<longleftrightarrow> (\<forall>sk m. ed_key_ok ed (ed_public ed sk)
     \<and> ed_verify ed (ed_public ed sk) m (ed_sign ed sk m)
     \<and> ed_verify_strict ed (ed_public ed sk) m (ed_sign ed sk m))
   \<and> (\<forall>pk m s. ed_verify_strict ed pk m s \<longrightarrow> ed_verify ed pk m s)
   \<and> (\<forall>s. ed_sig_from_slice ed (to_vec s) = Some s)"

lemma ed_lawsD:
  assumes "ed_laws ed"
  shows "ed_key_ok ed (ed_public ed sk)" "ed_verify ed (ed_public ed sk) m (ed_sign ed sk m)"
    "ed_verify_strict ed (ed_public ed sk) m (ed_sign ed sk m)" "ed_sig_from_slice ed (to_vec s) = Some s"
    "ed_verify_strict ed pk m s \<Longrightarrow> ed_verify ed pk m s"
  using assms unfolding ed_laws_def by blast+

section \<open>The signed payload\<close>

definition signing_payload :: "u64 \<Rightarrow> hash \<Rightarrow> i64 \<Rightarrow> 48 barr" where
  "signing_payload tree_size root_hash timestamp_ns =
     (let buf = replicate 48 0;
          buf = copy_into buf 0 (to_vec (u64_to_be tree_size));
          buf = copy_into buf 8 (to_vec root_hash);
          buf = copy_into buf 40 (to_vec (u64_to_be timestamp_ns))
      in arr_of buf)"

definition sign_tree_head :: "ed25519 \<Rightarrow> signing_key \<Rightarrow> u64 \<Rightarrow> hash \<Rightarrow> i64 \<Rightarrow> signature" where
  "sign_tree_head ed key tree_size root_hash timestamp_ns =
     ed_sign ed key (to_vec (signing_payload tree_size root_hash timestamp_ns))"

definition verify_tree_head ::
  "ed25519 \<Rightarrow> public_key \<Rightarrow> u64 \<Rightarrow> hash \<Rightarrow> i64 \<Rightarrow> signature \<Rightarrow> bool" where
  "verify_tree_head ed key tree_size root_hash timestamp_ns sig =
     ed_verify ed key (to_vec (signing_payload tree_size root_hash timestamp_ns)) sig"

lemma to_vec_signing_payload:
  "to_vec (signing_payload n root ts) = be_bytes 8 (unat n) @ to_vec root @ be_bytes 8 (unat ts)"
  by (simp add: signing_payload_def Let_def copy_into_def to_vec_u64_to_be)

text \<open>
  The payload commits to all three fields: two tree heads with the same signed bytes have the same
  size, root and timestamp. The layout is size, root, timestamp, big-endian, 48 bytes.
\<close>

theorem signing_payload_binding:
  "(signing_payload n root ts = signing_payload n' root' ts' \<longleftrightarrow> n = n' \<and> root = root' \<and> ts = ts')
   \<and> to_vec (signing_payload n root ts) = to_vec (u64_to_be n) @ to_vec root @ to_vec (u64_to_be ts)"
proof
  have inj: "be_bytes 8 (unat a) = be_bytes 8 (unat b) \<longleftrightarrow> a = b" for a b :: u64
    by (metis to_vec_u64_to_be to_vec_eq_iff u64_to_be_inject)
  have "signing_payload n root ts = signing_payload n' root' ts' \<longleftrightarrow>
      to_vec (signing_payload n root ts) = to_vec (signing_payload n' root' ts')" by simp
  also have "\<dots> \<longleftrightarrow> n = n' \<and> root = root' \<and> ts = ts'"
    unfolding to_vec_signing_payload by (simp add: inj)
  finally show "signing_payload n root ts = signing_payload n' root' ts' \<longleftrightarrow>
      n = n' \<and> root = root' \<and> ts = ts'" .
qed (simp add: to_vec_signing_payload to_vec_u64_to_be)

lemma sign_verify_tree_head:
  "ed_laws ed \<Longrightarrow> verify_tree_head ed (ed_public ed sk) n root ts (sign_tree_head ed sk n root ts)"
  by (simp add: verify_tree_head_def sign_tree_head_def ed_lawsD)

text \<open>
  A concrete signature scheme for the theorems that show hypotheses can hold: the public key is the
  key itself, and the signature of a message is the key followed by the first half of the message.
\<close>

definition toy_ed :: ed25519 where
  "toy_ed = \<lparr>ed_public = (\<lambda>sk. sk), ed_sign = (\<lambda>sk m. arr_of (to_vec sk @ m)),
     ed_key_ok = (\<lambda>_. True), ed_verify = (\<lambda>pk m s. s = arr_of (to_vec pk @ m)),
     ed_verify_strict = (\<lambda>pk m s. s = arr_of (to_vec pk @ m)), ed_sig_from_slice = try_into\<rparr>"

lemma toy_ed_laws: "ed_laws toy_ed"
  by (simp add: ed_laws_def toy_ed_def)

end
