(* ===== verification/Storage_Rocks.thy ===== *)
theory Storage_Rocks
  imports Core_Hash Core_Sth "HOL-Library.Finite_Map"
begin

text \<open>
  What \<^verbatim>\<open>settled-storage\<close> stands on. RocksDB and the protobuf codec are third-party code, so they are
  parameters: a record \<open>rocksdb\<close> of the operations the stores call, on an opaque state, and a record
  \<open>codec\<close> of the encoders and decoders that \<^verbatim>\<open>prost\<close> generates. The predicate \<open>rocks_laws\<close> states
  the documented behaviour of RocksDB through a \<open>view\<close> of its state as one finite map per column
  family: a read returns the value of the map or fails, a write batch is applied as a whole or not at
  all, and an iterator walks the keys in byte order from the requested end, possibly stopping with an
  error. Every operation may fail at any time. \<open>codec_laws\<close> is the encode/decode round trip.

  The theory also holds the storage errors (\<^verbatim>\<open>error.rs\<close>), the protobuf records (\<^verbatim>\<open>proto.rs\<close>) and the
  public types with their conversions (\<^verbatim>\<open>types.rs\<close>).
\<close>

section \<open>Errors, messages and types\<close>

datatype storage_error =
    RocksDb string
  | Encode string
  | Decode string
  | Corruption string
  | SchemaMismatch u32 u32

record log_entry_proto =
  lp_seq :: u64
  lp_timestamp_ns :: i64
  lp_key :: bytes
  lp_data :: bytes
  lp_leaf_hash :: bytes

record signed_tree_head_proto =
  sp_tree_size :: u64
  sp_root_hash :: bytes
  sp_timestamp_ns :: i64
  sp_signature :: bytes
  sp_public_key :: bytes
  sp_key_version :: u32

record key_record_proto =
  kp_version :: u32
  kp_public_key :: bytes
  kp_activated_at_tree_size :: u64

record log_entry =
  le_seq :: u64
  le_timestamp_ns :: i64
  le_key :: bytes
  le_data :: bytes
  le_leaf_hash :: hash

record signed_tree_head =
  sth_tree_size :: u64
  sth_root_hash :: hash
  sth_timestamp_ns :: i64
  sth_signature :: signature
  sth_public_key :: public_key
  sth_key_version :: u32

definition corrupt :: "string \<Rightarrow> 'a option \<Rightarrow> (storage_error, 'a) result" where
  "corrupt msg x = (case x of None \<Rightarrow> Inl (Err (Corruption msg)) | Some a \<Rightarrow> Inr a)"

definition log_entry_try_from :: "log_entry_proto \<Rightarrow> (storage_error, log_entry) result" where
  "log_entry_try_from p =
     bindR (corrupt ''leaf_hash must be 32 bytes'' (try_into (lp_leaf_hash p))) (\<lambda>lh.
       Inr \<lparr>le_seq = lp_seq p, le_timestamp_ns = lp_timestamp_ns p, le_key = lp_key p,
            le_data = lp_data p, le_leaf_hash = lh\<rparr>)"

definition log_entry_to_proto :: "log_entry \<Rightarrow> log_entry_proto" where
  "log_entry_to_proto e = \<lparr>lp_seq = le_seq e, lp_timestamp_ns = le_timestamp_ns e, lp_key = le_key e,
     lp_data = le_data e, lp_leaf_hash = to_vec (le_leaf_hash e)\<rparr>"

definition sth_try_from :: "signed_tree_head_proto \<Rightarrow> (storage_error, signed_tree_head) result" where
  "sth_try_from p =
     bindR (corrupt ''root_hash must be 32 bytes'' (try_into (sp_root_hash p))) (\<lambda>rh.
     bindR (corrupt ''signature must be 32 bytes'' (try_into (sp_signature p))) (\<lambda>sg.
     bindR (corrupt ''public_key must be 32 bytes'' (try_into (sp_public_key p))) (\<lambda>pk.
       Inr \<lparr>sth_tree_size = sp_tree_size p, sth_root_hash = rh, sth_timestamp_ns = sp_timestamp_ns p,
            sth_signature = sg, sth_public_key = pk, sth_key_version = sp_key_version p\<rparr>)))"

definition sth_to_store_proto :: "signed_tree_head \<Rightarrow> signed_tree_head_proto" where
  "sth_to_store_proto s = \<lparr>sp_tree_size = sth_tree_size s, sp_root_hash = to_vec (sth_root_hash s),
     sp_timestamp_ns = sth_timestamp_ns s, sp_signature = to_vec (sth_signature s),
     sp_public_key = to_vec (sth_public_key s), sp_key_version = sth_key_version s\<rparr>"

lemma corrupt_simps [simp]:
  "corrupt msg (Some a) = Inr a" "corrupt msg None = Inl (Err (Corruption msg))"
  by (simp_all add: corrupt_def)

lemma log_entry_proto_roundtrip [simp]: "log_entry_try_from (log_entry_to_proto e) = Inr e"
  by (simp add: log_entry_try_from_def log_entry_to_proto_def)

lemma sth_proto_roundtrip [simp]: "sth_try_from (sth_to_store_proto s) = Inr s"
  by (simp add: sth_try_from_def sth_to_store_proto_def)

section \<open>The codec\<close>

record codec =
  enc_log :: "log_entry_proto \<Rightarrow> string + bytes"
  dec_log :: "bytes \<Rightarrow> string + log_entry_proto"
  enc_sth :: "signed_tree_head_proto \<Rightarrow> string + bytes"
  dec_sth :: "bytes \<Rightarrow> string + signed_tree_head_proto"
  enc_key :: "key_record_proto \<Rightarrow> string + bytes"
  dec_key :: "bytes \<Rightarrow> string + key_record_proto"

text \<open>Encoding into a growing vector succeeds, and decoding gives the message back.\<close>

definition codec_laws :: "codec \<Rightarrow> bool" where
  "codec_laws C \<longleftrightarrow>
     (\<forall>p. \<exists>b. enc_log C p = Inr b \<and> dec_log C b = Inr p) \<and>
     (\<forall>p. \<exists>b. enc_sth C p = Inr b \<and> dec_sth C b = Inr p) \<and>
     (\<forall>p. \<exists>b. enc_key C p = Inr b \<and> dec_key C b = Inr p)"

definition from_lib :: "(string \<Rightarrow> storage_error) \<Rightarrow> string + 'a \<Rightarrow> (storage_error, 'a) result" where
  "from_lib f r = (case r of Inl m \<Rightarrow> Inl (Err (f m)) | Inr a \<Rightarrow> Inr a)"

lemma from_lib_simps [simp]: "from_lib f (Inr a) = Inr a" "from_lib f (Inl m) = Inl (Err (f m))"
  by (simp_all add: from_lib_def)

lemma from_lib_Inr_iff: "from_lib f r = Inr a \<longleftrightarrow> r = Inr a"
  by (cases r) simp_all

declare from_lib_Inr_iff [rust_simps]

section \<open>RocksDB\<close>

datatype cf = CfDefault | CfLog | CfTree | CfHeads | CfIndex | CfKeys

datatype iter_mode = IterStart | IterEnd | IterFrom bytes   \<comment> \<open>the last one forward\<close>

datatype batch_op = PutCf cf bytes bytes | DeleteCf cf bytes

record 'd rocksdb =
  rdb_get :: "'d \<Rightarrow> cf \<Rightarrow> bytes \<Rightarrow> string + bytes option"
  rdb_write :: "'d \<Rightarrow> batch_op list \<Rightarrow> 'd \<times> (string + unit)"
  rdb_iter :: "'d \<Rightarrow> cf \<Rightarrow> iter_mode \<Rightarrow> (string + bytes \<times> bytes) list"

type_synonym kvmap = "(bytes, bytes) fmap"
type_synonym families = "cf \<Rightarrow> kvmap"

text \<open>A finite map in key order, and what an iterator walks over.\<close>

abbreviation fm_list :: "kvmap \<Rightarrow> (bytes \<times> bytes) list" where
  "fm_list \<equiv> sorted_list_of_fmap"

fun scan :: "kvmap \<Rightarrow> iter_mode \<Rightarrow> (bytes \<times> bytes) list" where
  "scan m IterStart = fm_list m"
| "scan m IterEnd = rev (fm_list m)"
| "scan m (IterFrom k) = filter (\<lambda>(k', v). k \<le> k') (fm_list m)"

fun apply_op :: "batch_op \<Rightarrow> families \<Rightarrow> families" where
  "apply_op (PutCf c k v) f = f(c := fmupd k v (f c))"
| "apply_op (DeleteCf c k) f = f(c := fmdrop k (f c))"

definition rocks_laws :: "'d rocksdb \<Rightarrow> ('d \<Rightarrow> families) \<Rightarrow> bool" where
  "rocks_laws R view \<longleftrightarrow>
     (\<forall>d c k r. rdb_get R d c k = Inr r \<longrightarrow> r = fmlookup (view d c) k) \<and>
     (\<forall>d ops d'. rdb_write R d ops = (d', Inr ()) \<longrightarrow> view d' = fold apply_op ops (view d)) \<and>
     (\<forall>d ops d' e. rdb_write R d ops = (d', Inl e) \<longrightarrow> view d' = view d) \<and>
     (\<forall>d c mode. rdb_iter R d c mode = map Inr (scan (view d c) mode) \<or>
        (\<exists>n e. rdb_iter R d c mode = map Inr (take n (scan (view d c) mode)) @ [Inl e]))"

lemma rocks_getD: "rocks_laws R view \<Longrightarrow> rdb_get R d c k = Inr r \<Longrightarrow> r = fmlookup (view d c) k"
  unfolding rocks_laws_def by blast

lemma rocks_writeD:
  assumes "rocks_laws R view"
  shows "rdb_write R d ops = (d', Inr ()) \<Longrightarrow> view d' = fold apply_op ops (view d)"
    and "rdb_write R d ops = (d', Inl e) \<Longrightarrow> view d' = view d"
  using assms unfolding rocks_laws_def by blast+

lemma rocks_iterD:
  assumes "rocks_laws R view"
  obtains (all) "rdb_iter R d c mode = map Inr (scan (view d c) mode)"
    | (cut) n e where "rdb_iter R d c mode = map Inr (take n (scan (view d c) mode)) @ [Inl e]"
  using assms unfolding rocks_laws_def by blast

subsection \<open>Finite maps in key order\<close>

lemma keys_fm_list: "map fst (fm_list m) = sorted_list_of_fset (fmdom m)"
  by (simp add: sorted_list_of_fmap_def o_def)

lemma set_keys_fm_list: "fst ` set (fm_list m) = fmdom' m"
  by (metis fmdom'_alt_def keys_fm_list list.set_map sorted_list_of_fset_simps(1))

lemma sorted_fm_list: "sorted_wrt (<) (map fst (fm_list m))"
  by (simp add: keys_fm_list sorted_list_of_fset.rep_eq)

lemma distinct_fm_list: "distinct (map fst (fm_list m))"
  using sorted_fm_list [of m] by (simp add: strict_sorted_iff)

lemma in_fm_list_iff: "(k, v) \<in> set (fm_list m) \<longleftrightarrow> fmlookup m k = Some v"
  by (metis distinct_fm_list map_of_eq_Some_iff map_of_sorted_list)

lemma map_inj_on_eq:
  assumes "map f xs = map f ys" and "set xs = set ys" and "distinct (map f xs)"
  shows "xs = ys"
  using assms by (intro map_inj_on [of f]) (auto simp: distinct_map)

text \<open>A strictly sorted list with the same lookups is the list of the map.\<close>

lemma fm_list_unique:
  assumes "sorted_wrt (<) (map fst xs)" and "map_of xs = fmlookup m"
  shows "fm_list m = xs"
proof -
  have d: "distinct (map fst xs)" using assms(1) by (simp add: strict_sorted_iff)
  have set: "set xs = set (fm_list m)"
    using map_of_eq_Some_iff [OF d] assms(2) in_fm_list_iff by auto
  then have "set (map fst xs) = set (map fst (fm_list m))" by simp
  then have keys: "map fst xs = map fst (fm_list m)"
    using assms(1) sorted_fm_list [of m] strict_sorted_equal by metis
  show ?thesis
    by (rule sym, rule map_inj_on_eq [OF keys set d])
qed

lemma fm_list_empty [simp]: "fm_list fmempty = []"
  by (simp add: sorted_list_of_fmap_def sorted_list_of_fset.rep_eq)

section \<open>Integer keys\<close>

text \<open>
  The stores use big-endian integers as keys so that the byte order of the keys is the order of the
  numbers. The locale is that contract.
\<close>

locale ordered_key =
  fixes key_of :: "'a::linorder \<Rightarrow> bytes"
  assumes key_less: "key_of a < key_of b \<longleftrightarrow> a < b"
begin

lemma key_inject: "key_of a = key_of b \<longleftrightarrow> a = b"
  by (metis key_less less_irrefl linorder_neqE)

lemma key_le: "key_of a \<le> key_of b \<longleftrightarrow> a \<le> b"
  by (metis key_less not_less)

lemma sorted_keys: "sorted_wrt (<) (map key_of xs) \<longleftrightarrow> sorted_wrt (<) xs"
  by (simp add: sorted_wrt_map key_less)

end

text \<open>
  A column family that holds the records \<open>rs\<close>, each under the key of its number: lookup, range scan
  and replacement of a record.
\<close>

definition upd_by :: "('r \<Rightarrow> 'k::linorder) \<Rightarrow> 'r \<Rightarrow> 'r list \<Rightarrow> 'r list" where
  "upd_by rid r rs = filter (\<lambda>x. rid x < rid r) rs @ [r] @ filter (\<lambda>x. rid r < rid x) rs"

lemma fm_list_upd:
  "fm_list (fmupd k v m) = filter (\<lambda>(k', v'). k' < k) (fm_list m) @ [(k, v)] @ filter (\<lambda>(k', v'). k < k') (fm_list m)"
proof (rule fm_list_unique)
  let ?lo = "filter (\<lambda>(k', v'). k' < k) (fm_list m)" and ?hi = "filter (\<lambda>(k', v'). k < k') (fm_list m)"
  have s: "sorted_wrt (\<lambda>p q. fst p < fst q) (fm_list m)" using sorted_fm_list [of m] by (simp add: sorted_wrt_map)
  show s': "sorted_wrt (<) (map fst (?lo @ [(k, v)] @ ?hi))"
    using s by (auto simp: sorted_wrt_map sorted_wrt_append sorted_wrt_filter)
  then have d: "distinct (map fst (?lo @ [(k, v)] @ ?hi))" by (simp add: strict_sorted_iff)
  show "map_of (?lo @ [(k, v)] @ ?hi) = fmlookup (fmupd k v m)"
  proof (rule ext, rule option_eq_by_Some)
    fix k' v'
    have "map_of (?lo @ [(k, v)] @ ?hi) k' = Some v' \<longleftrightarrow> (k', v') \<in> set (?lo @ [(k, v)] @ ?hi)"
      by (rule map_of_eq_Some_iff [OF d])
    also have "\<dots> \<longleftrightarrow> fmlookup (fmupd k v m) k' = Some v'"
      using in_fm_list_iff [of k' v' m] by (auto simp: neq_iff)
    finally show "map_of (?lo @ [(k, v)] @ ?hi) k' = Some v' \<longleftrightarrow> fmlookup (fmupd k v m) k' = Some v'" .
  qed
qed

locale record_store = ordered_key key_of for key_of :: "'k::linorder \<Rightarrow> bytes" +
  fixes rid :: "'r \<Rightarrow> 'k" and enc :: "'r \<Rightarrow> bytes"
begin

lemma rows_sorted:
  assumes "fm_list m = map (\<lambda>r. (key_of (rid r), enc r)) rs"
  shows "sorted_wrt (\<lambda>a b. rid a < rid b) rs"
proof -
  have "sorted_wrt (<) (map key_of (map rid rs))"
    using sorted_fm_list [of m] assms by (simp add: o_def)
  then show ?thesis unfolding sorted_keys by (simp add: sorted_wrt_map)
qed

lemma rows_lookup:
  assumes "fm_list m = map (\<lambda>r. (key_of (rid r), enc r)) rs"
  shows "fmlookup m (key_of n) = map_option enc (find (\<lambda>r. rid r = n) rs)"
proof -
  have "map_of (map (\<lambda>r. (key_of (rid r), enc r)) rs) (key_of n) = map_option enc (find (\<lambda>r. rid r = n) rs)"
    by (induction rs) (auto simp: key_inject)
  then show ?thesis using assms unfolding map_of_sorted_list [symmetric] by simp
qed

lemma rows_from:
  assumes "fm_list m = map (\<lambda>r. (key_of (rid r), enc r)) rs"
  shows "scan m (IterFrom (key_of n)) = map (\<lambda>r. (key_of (rid r), enc r)) (filter (\<lambda>r. n \<le> rid r) rs)"
  using assms by (simp add: filter_map o_def key_le)

lemma rows_put:
  assumes "fm_list m = map (\<lambda>r. (key_of (rid r), enc r)) rs"
  shows "fm_list (fmupd (key_of (rid r)) (enc r) m) = map (\<lambda>r. (key_of (rid r), enc r)) (upd_by rid r rs)"
  unfolding fm_list_upd assms by (simp add: upd_by_def filter_map o_def key_less)

end

lemma upd_by_last: "(\<And>x. x \<in> set rs \<Longrightarrow> rid x < rid r) \<Longrightarrow> upd_by rid r rs = rs @ [r]"
  by (auto simp: upd_by_def filter_id_conv filter_empty_conv dest: order.asym)

lemma find_upd_by:
  "find (\<lambda>x. rid x = n) (upd_by rid r rs) = (if n = rid r then Some r else find (\<lambda>x. rid x = n) rs)"
proof -
  have "find (\<lambda>x. rid x = n) (filter P rs) = find (\<lambda>x. rid x = n) rs" if "\<And>x. rid x = n \<Longrightarrow> P x" for P
    using that by (induction rs) auto
  moreover have "find (\<lambda>x. rid x = n) (filter P rs) = None" if "\<And>x. rid x = n \<Longrightarrow> \<not> P x" for P
    using that by (induction rs) auto
  ultimately show ?thesis
    by (cases "rid r" n rule: linorder_cases) (auto simp: upd_by_def find_append split: option.splits)
qed

lemma set_upd_by: "set (upd_by rid r rs) = insert r {x \<in> set rs. rid x \<noteq> rid r}"
  by (auto simp: upd_by_def neq_iff)

lemma snoc_less_snoc:
  "length xs = length ys \<Longrightarrow> xs @ [x] < ys @ [y] \<longleftrightarrow> xs < ys \<or> xs = ys \<and> x < (y :: 'a::order)"
  by (induction xs ys rule: list_induct2) auto

lemma less_div_mod:
  "a < b \<longleftrightarrow> a div 256 < b div 256 \<or> a div 256 = b div 256 \<and> a mod 256 < b mod (256::nat)"
proof -
  define q r q' r' where "q = a div 256" "r = a mod 256" "q' = b div 256" "r' = b mod 256"
  then have "a = q * 256 + r" "b = q' * 256 + r'" "r < 256" "r' < 256" by simp_all
  then show ?thesis unfolding \<open>q = _\<close> [symmetric] \<open>r = _\<close> [symmetric] \<open>q' = _\<close> [symmetric] \<open>r' = _\<close> [symmetric]
    by linarith
qed

lemma be_bytes_less:
  "a < 256 ^ w \<Longrightarrow> b < 256 ^ w \<Longrightarrow> be_bytes w a < be_bytes w b \<longleftrightarrow> a < b"
proof (induction w arbitrary: a b)
  case (Suc w)
  let ?x = "of_nat a :: u8" and ?y = "of_nat b :: u8"
  have dv: "a div 256 < 256 ^ w" "b div 256 < 256 ^ w" using Suc.prems by (simp_all add: less_mult_imp_div_less mult.commute)
  have inj: "be_bytes w (a div 256) = be_bytes w (b div 256) \<longleftrightarrow> a div 256 = b div 256"
    by (metis be_val_be_bytes dv mod_less)
  have "?x < ?y \<longleftrightarrow> a mod 256 < b mod 256"
    by (simp add: word_less_nat_alt unat_of_nat_u8)
  then have "be_bytes (Suc w) a < be_bytes (Suc w) b \<longleftrightarrow>
      a div 256 < b div 256 \<or> a div 256 = b div 256 \<and> a mod 256 < b mod 256"
    using Suc.IH [OF dv] inj by (simp add: snoc_less_snoc)
  also have "\<dots> \<longleftrightarrow> a < b" by (rule less_div_mod [symmetric])
  finally show ?case .
qed simp

abbreviation u64_key :: "u64 \<Rightarrow> bytes" where
  "u64_key x \<equiv> to_vec (u64_to_be x)"

abbreviation u32_key :: "u32 \<Rightarrow> bytes" where
  "u32_key x \<equiv> to_vec (u32_to_be x)"

interpretation k64: ordered_key u64_key
proof
  fix a b :: u64
  show "u64_key a < u64_key b \<longleftrightarrow> a < b"
    using unat_lt2p [of a] unat_lt2p [of b] by (simp add: be_bytes_less word_less_nat_alt to_vec_u64_to_be to_vec_u32_to_be)
qed

interpretation k32: ordered_key u32_key
proof
  fix a b :: u32
  show "u32_key a < u32_key b \<longleftrightarrow> a < b"
    using unat_lt2p [of a] unat_lt2p [of b] by (simp add: be_bytes_less word_less_nat_alt to_vec_u64_to_be to_vec_u32_to_be)
qed

section \<open>Concrete parameters\<close>

text \<open>
  An in-memory database that never fails and a self-delimiting codec: they meet the laws, so the
  hypotheses of the theorems about the stores and the server can hold.
\<close>

definition mem_rocks :: "families rocksdb" where
  "mem_rocks = \<lparr>rdb_get = (\<lambda>d c k. Inr (fmlookup (d c) k)),
     rdb_write = (\<lambda>d ops. (fold apply_op ops d, Inr ())),
     rdb_iter = (\<lambda>d c mode. map Inr (scan (d c) mode))\<rparr>"

lemma mem_rocks_laws: "rocks_laws mem_rocks (\<lambda>d. d)"
  by (simp add: rocks_laws_def mem_rocks_def)

fun put_bytes :: "bytes \<Rightarrow> bytes \<Rightarrow> bytes" where
  "put_bytes [] rest = 0 # rest"
| "put_bytes (b # bs) rest = 1 # b # put_bytes bs rest"

fun take_bytes :: "bytes \<Rightarrow> bytes \<times> bytes" where
  "take_bytes (t # b # rest) = (if t = 0 then ([], b # rest)
     else let (bs, r) = take_bytes rest in (b # bs, r))"
| "take_bytes _ = ([], [])"

lemma take_put_bytes [simp]: "take_bytes (put_bytes bs rest) = (bs, rest)"
  by (induction bs) (cases rest; auto)+

definition put_nat :: "nat \<Rightarrow> bytes \<Rightarrow> bytes" where
  "put_nat n rest = put_bytes (be_bytes 8 n) rest"

definition mem_codec :: codec where
  "mem_codec = \<lparr>
     enc_log = (\<lambda>p. Inr (put_nat (unat (lp_seq p)) (put_nat (unat (lp_timestamp_ns p))
       (put_bytes (lp_key p) (put_bytes (lp_data p) (put_bytes (lp_leaf_hash p) [])))))),
     dec_log = (\<lambda>b. let (s, b) = take_bytes b; (t, b) = take_bytes b; (k, b) = take_bytes b;
       (d, b) = take_bytes b; (h, b) = take_bytes b
       in Inr \<lparr>lp_seq = of_nat (be_val s), lp_timestamp_ns = of_nat (be_val t), lp_key = k, lp_data = d,
         lp_leaf_hash = h\<rparr>),
     enc_sth = (\<lambda>p. Inr (put_nat (unat (sp_tree_size p)) (put_bytes (sp_root_hash p)
       (put_nat (unat (sp_timestamp_ns p)) (put_bytes (sp_signature p) (put_bytes (sp_public_key p)
       (put_nat (unat (sp_key_version p)) []))))))),
     dec_sth = (\<lambda>b. let (s, b) = take_bytes b; (r, b) = take_bytes b; (t, b) = take_bytes b;
       (g, b) = take_bytes b; (k, b) = take_bytes b; (v, b) = take_bytes b
       in Inr \<lparr>sp_tree_size = of_nat (be_val s), sp_root_hash = r, sp_timestamp_ns = of_nat (be_val t),
         sp_signature = g, sp_public_key = k, sp_key_version = of_nat (be_val v)\<rparr>),
     enc_key = (\<lambda>p. Inr (put_nat (unat (kp_version p)) (put_bytes (kp_public_key p)
       (put_nat (unat (kp_activated_at_tree_size p)) [])))),
     dec_key = (\<lambda>b. let (v, b) = take_bytes b; (k, b) = take_bytes b; (a, b) = take_bytes b
       in Inr \<lparr>kp_version = of_nat (be_val v), kp_public_key = k,
         kp_activated_at_tree_size = of_nat (be_val a)\<rparr>)\<rparr>"

lemma of_nat_be_val [simp]:
  "of_nat (be_val (be_bytes 8 (unat (x :: u64)))) = x" "of_nat (be_val (be_bytes 8 (unat (y :: u32)))) = y"
  using unat_lt2p [of x] unat_lt2p [of y] by (simp_all add: be_val_be_bytes)

lemma mem_codec_laws: "codec_laws mem_codec"
  by (simp add: codec_laws_def mem_codec_def put_nat_def)

end
