(* ===== verification/Storage_Log.thy ===== *)
theory Storage_Log
  imports Storage_Rocks
begin

text \<open>
  \<^verbatim>\<open>settled-storage\<close>: opening the database (\<^verbatim>\<open>db.rs\<close>) and the log store (\<^verbatim>\<open>log_store.rs\<close>). The state
  \<open>db\<close> is \<^verbatim>\<open>DbInner\<close>: the RocksDB handle and the atomic sequence counter. Writers return the new
  state with their result, since a failed write still has advanced the counter; readers return a result
  only. The clock is an argument \<open>now\<close>, nanoseconds since the epoch, negative before it.

  \<open>log_rel\<close> relates a database to the list of entries it holds; the lemmas show what every operation
  does to that list. A read \<^emph>\<open>yields\<close> a value when it returns it unless RocksDB reports an error: the
  stores never report corruption or a decoding error of their own data.
\<close>

record 'd db =
  db_rocks :: 'd
  next_seq :: u64

definition ascii :: "string \<Rightarrow> bytes" where
  "ascii s = map of_char s"

abbreviation (input) SCHEMA_VERSION_KEY :: bytes where
  "SCHEMA_VERSION_KEY \<equiv> ascii ''schema_version''"

abbreviation (input) CURRENT_SCHEMA_VERSION :: u32 where
  "CURRENT_SCHEMA_VERSION \<equiv> 1"

section \<open>Opening a database\<close>

text \<open>\<open>opened\<close> is what \<^verbatim>\<open>DB::open_cf_descriptors\<close> returned.\<close>

definition db_check_schema :: "'d rocksdb \<Rightarrow> 'd \<Rightarrow> (storage_error, 'd) result" where
  "db_check_schema R d =
     bindR (from_lib RocksDb (rdb_get R d CfDefault SCHEMA_VERSION_KEY)) (\<lambda>got. case got of
       None \<Rightarrow> (case rdb_write R d [PutCf CfDefault SCHEMA_VERSION_KEY (u32_key CURRENT_SCHEMA_VERSION)] of
           (d', r) \<Rightarrow> bindR (from_lib RocksDb r) (\<lambda>_. Inr d'))
     | Some v \<Rightarrow> bindR (corrupt ''bad schema_version length'' (try_into v)) (\<lambda>b.
           let version = u32_from_be b in
           if CURRENT_SCHEMA_VERSION < version
           then Inl (Err (SchemaMismatch version CURRENT_SCHEMA_VERSION)) else Inr d))"

definition db_next_seq :: "'d rocksdb \<Rightarrow> 'd \<Rightarrow> (storage_error, u64) result" where
  "db_next_seq R d = (case rdb_iter R d CfLog IterEnd of
       [] \<Rightarrow> Inr 0
     | Inl e # _ \<Rightarrow> Inl (Err (RocksDb e))
     | Inr (k, _) # _ \<Rightarrow> bindR (corrupt ''bad seq key length'' (try_into k)) (\<lambda>b. Inr (u64_from_be b + 1)))"

definition db_open :: "'d rocksdb \<Rightarrow> string + 'd \<Rightarrow> (storage_error, 'd db) result" where
  "db_open R opened =
     bindR (from_lib RocksDb opened) (\<lambda>d.
     bindR (db_check_schema R d) (\<lambda>d.
     bindR (db_next_seq R d) (\<lambda>n. Inr \<lparr>db_rocks = d, next_seq = n\<rparr>)))"

section \<open>Loops over iterators\<close>

text \<open>
  \<^verbatim>\<open>for item in iter { let (k, v) = item?; body }\<close>: the body continues or breaks with a new loop
  state, or returns an error.
\<close>

datatype 's flow = Continue 's | Break 's

fun for_items ::
  "('s \<Rightarrow> bytes \<times> bytes \<Rightarrow> (storage_error, 's flow) result) \<Rightarrow> 's \<Rightarrow> (string + bytes \<times> bytes) list \<Rightarrow>
   (storage_error, 's) result" where
  "for_items f s [] = Inr s"
| "for_items f s (Inl e # _) = Inl (Err (RocksDb e))"
| "for_items f s (Inr kv # rest) = bindR (f s kv) (\<lambda>st. case st of
     Continue s' \<Rightarrow> for_items f s' rest
   | Break s' \<Rightarrow> Inr s')"

definition yields :: "(storage_error, 'a) result \<Rightarrow> 'a \<Rightarrow> bool" where
  "yields r x \<longleftrightarrow> r = Inr x \<or> (\<exists>m. r = Inl (Err (RocksDb m)))"

lemma yieldsI [simp]: "yields (Inr x) x" "yields (Inl (Err (RocksDb m))) x"
  by (simp_all add: yields_def)

lemma yields_Inr: "yields (Inr y) x \<longleftrightarrow> y = x"
  by (auto simp: yields_def)

lemma yields_bind: "yields r x \<Longrightarrow> yields (f x) y \<Longrightarrow> yields (bindR r f) y"
  by (auto simp: yields_def)

lemma for_items_cut:
  "for_items f s (map Inr (take n xs) @ [Inl e]) = Inl (Err (RocksDb e)) \<or>
   for_items f s (map Inr (take n xs) @ [Inl e]) = for_items f s (map Inr xs)"
proof (induction xs arbitrary: s n)
  case Nil
  then show ?case by simp
next
  case (Cons x xs)
  show ?case
  proof (cases n)
    case 0
    then show ?thesis by simp
  next
    case (Suc m)
    show ?thesis
    proof (cases "f s x")
      case (Inl a)
      with Suc show ?thesis by simp
    next
      case (Inr st)
      with Suc Cons.IH [of _ m] show ?thesis by (cases st) simp_all
    qed
  qed
qed

lemma for_items_yields:
  assumes "rocks_laws R view" and "for_items f s (map Inr (scan (view d c) mode)) = Inr x"
  shows "yields (for_items f s (rdb_iter R d c mode)) x"
  using assms(1)
proof (cases rule: rocks_iterD [of R view d c mode])
  case all
  with assms(2) show ?thesis by simp
next
  case (cut n e)
  then show ?thesis
    using for_items_cut [of f s n "scan (view d c) mode" e] assms(2) by auto
qed

section \<open>The log store\<close>

text \<open>\<^verbatim>\<open>SystemTime::now().duration_since(UNIX_EPOCH).unwrap().as_nanos() as i64\<close>.\<close>

definition timestamp_of :: "int \<Rightarrow> ('e, i64) result" where
  "timestamp_of now = (if now < 0 then Inl (Panic UnwrapFailed) else Inr (word_of_int now))"

definition ls_append ::
  "'d rocksdb \<Rightarrow> codec \<Rightarrow> sha256 \<Rightarrow> int \<Rightarrow> bytes \<Rightarrow> bytes \<Rightarrow> 'd db \<Rightarrow>
   'd db \<times> (storage_error, u64 \<times> i64) result" where
  "ls_append R C sha now key data db =
     (let seq = next_seq db; db = db\<lparr>next_seq := next_seq db + 1\<rparr> in
      case timestamp_of now of Inl e \<Rightarrow> (db, Inl e)
      | Inr timestamp_ns \<Rightarrow>
        (let lh = leaf_hash sha data;
             proto = \<lparr>lp_seq = seq, lp_timestamp_ns = timestamp_ns, lp_key = key, lp_data = data,
                      lp_leaf_hash = to_vec lh\<rparr>
         in case from_lib Encode (enc_log C proto) of Inl e \<Rightarrow> (db, Inl e)
            | Inr value_buf \<Rightarrow>
              (let seq_key = u64_key seq;
                   (d', r) = rdb_write R (db_rocks db) [PutCf CfLog seq_key value_buf, PutCf CfIndex key seq_key]
               in (db\<lparr>db_rocks := d'\<rparr>, bindR (from_lib RocksDb r) (\<lambda>_. Inr (seq, timestamp_ns))))))"

text \<open>The loop of \<^verbatim>\<open>append_batch\<close>: the write batch and the results, or the first encoding error.\<close>

fun append_batch_loop ::
  "codec \<Rightarrow> sha256 \<Rightarrow> i64 \<Rightarrow> u64 \<Rightarrow> (bytes \<times> bytes) list \<Rightarrow> batch_op list \<Rightarrow> (u64 \<times> i64 \<times> hash) list \<Rightarrow>
   (storage_error, batch_op list \<times> (u64 \<times> i64 \<times> hash) list) result" where
  "append_batch_loop C sha ts seq [] batch results = Inr (batch, results)"
| "append_batch_loop C sha ts seq ((key, data) # entries) batch results =
     (let lh = leaf_hash sha data in
      bindR (from_lib Encode (enc_log C \<lparr>lp_seq = seq, lp_timestamp_ns = ts, lp_key = key,
          lp_data = data, lp_leaf_hash = to_vec lh\<rparr>)) (\<lambda>value_buf.
        append_batch_loop C sha ts (seq + 1) entries
          (batch @ [PutCf CfLog (u64_key seq) value_buf, PutCf CfIndex key (u64_key seq)])
          (results @ [(seq, ts, lh)])))"

definition ls_append_batch ::
  "'d rocksdb \<Rightarrow> codec \<Rightarrow> sha256 \<Rightarrow> int \<Rightarrow> (bytes \<times> bytes) list \<Rightarrow> 'd db \<Rightarrow>
   'd db \<times> (storage_error, (u64 \<times> i64 \<times> hash) list) result" where
  "ls_append_batch R C sha now entries db =
     (if entries = [] then (db, Inr [])
      else let n = of_nat (length entries); first_seq = next_seq db; db = db\<lparr>next_seq := next_seq db + n\<rparr> in
        case timestamp_of now of Inl e \<Rightarrow> (db, Inl e)
        | Inr timestamp_ns \<Rightarrow>
          (case append_batch_loop C sha timestamp_ns first_seq entries [] [] of Inl e \<Rightarrow> (db, Inl e)
           | Inr (batch, results) \<Rightarrow>
             (let (d', r) = rdb_write R (db_rocks db) batch
              in (db\<lparr>db_rocks := d'\<rparr>, bindR (from_lib RocksDb r) (\<lambda>_. Inr results)))))"

definition ls_count :: "'d db \<Rightarrow> u64" where
  "ls_count db = next_seq db"

definition decode_log_entry :: "codec \<Rightarrow> bytes \<Rightarrow> (storage_error, log_entry) result" where
  "decode_log_entry C v = bindR (from_lib Decode (dec_log C v)) log_entry_try_from"

definition ls_get_by_seq :: "'d rocksdb \<Rightarrow> codec \<Rightarrow> 'd db \<Rightarrow> u64 \<Rightarrow> (storage_error, log_entry option) result" where
  "ls_get_by_seq R C db seq =
     bindR (from_lib RocksDb (rdb_get R (db_rocks db) CfLog (u64_key seq))) (\<lambda>got. case got of
       Some v \<Rightarrow> bindR (decode_log_entry C v) (\<lambda>e. Inr (Some e))
     | None \<Rightarrow> Inr None)"

definition ls_get_seq_by_key :: "'d rocksdb \<Rightarrow> 'd db \<Rightarrow> bytes \<Rightarrow> (storage_error, u64 option) result" where
  "ls_get_seq_by_key R db key =
     bindR (from_lib RocksDb (rdb_get R (db_rocks db) CfIndex key)) (\<lambda>got. case got of
       Some v \<Rightarrow> bindR (corrupt ''bad seq value in index CF'' (try_into v)) (\<lambda>b. Inr (Some (u64_from_be b)))
     | None \<Rightarrow> Inr None)"

definition seq_of_key :: "bytes \<Rightarrow> (storage_error, u64) result" where
  "seq_of_key k = bindR (corrupt ''bad seq key length'' (try_into k)) (\<lambda>b. Inr (u64_from_be b))"

definition ls_entries_by_key ::
  "'d rocksdb \<Rightarrow> codec \<Rightarrow> 'd db \<Rightarrow> bytes \<Rightarrow> u64 \<Rightarrow> nat \<Rightarrow> (storage_error, log_entry list \<times> u64) result" where
  "ls_entries_by_key R C db key from_seq limit =
     (if limit = 0 then Inr ([], 0)
      else for_items (\<lambda>(entries, next_cursor) (k, v).
          bindR (seq_of_key k) (\<lambda>seq.
          bindR (from_lib Decode (dec_log C v)) (\<lambda>proto.
            if lp_key proto = key then
              bindR (log_entry_try_from proto) (\<lambda>e.
                let entries = entries @ [e] in
                if limit \<le> length entries then Inr (Break (entries, seq + 1))
                else Inr (Continue (entries, next_cursor)))
            else Inr (Continue (entries, next_cursor)))))
        ([], 0) (rdb_iter R (db_rocks db) CfLog (IterFrom (u64_key from_seq))))"

definition ls_seq_range_paged ::
  "'d rocksdb \<Rightarrow> codec \<Rightarrow> 'd db \<Rightarrow> u64 \<Rightarrow> u64 \<Rightarrow> nat \<Rightarrow> (storage_error, log_entry list \<times> u64) result" where
  "ls_seq_range_paged R C db start end limit =
     (if limit = 0 then Inr ([], 0)
      else for_items (\<lambda>(entries, next_cursor) (k, v).
          bindR (seq_of_key k) (\<lambda>seq.
            if end \<noteq> 0 \<and> end \<le> seq then Inr (Break (entries, next_cursor))
            else bindR (decode_log_entry C v) (\<lambda>e.
              let entries = entries @ [e] in
              if limit \<le> length entries then
                (let next = seq + 1 in Inr (Break (entries, if end = 0 \<or> next < end then next else 0)))
              else Inr (Continue (entries, next_cursor)))))
        ([], 0) (rdb_iter R (db_rocks db) CfLog (IterFrom (u64_key start))))"

definition ls_seq_range ::
  "'d rocksdb \<Rightarrow> codec \<Rightarrow> 'd db \<Rightarrow> u64 \<Rightarrow> u64 \<Rightarrow> (storage_error, log_entry list) result" where
  "ls_seq_range R C db start end =
     for_items (\<lambda>entries (k, v).
         bindR (seq_of_key k) (\<lambda>seq.
           if end \<le> seq then Inr (Break entries)
           else bindR (decode_log_entry C v) (\<lambda>e. Inr (Continue (entries @ [e])))))
       [] (rdb_iter R (db_rocks db) CfLog (IterFrom (u64_key start)))"

definition ls_latest :: "'d rocksdb \<Rightarrow> codec \<Rightarrow> 'd db \<Rightarrow> nat \<Rightarrow> (storage_error, log_entry list) result" where
  "ls_latest R C db n =
     (if n = 0 then Inr []
      else for_items (\<lambda>entries (k, v).
          bindR (decode_log_entry C v) (\<lambda>e.
            let entries = entries @ [e] in
            if n \<le> length entries then Inr (Break entries) else Inr (Continue entries)))
        [] (rdb_iter R (db_rocks db) CfLog IterEnd))"

section \<open>What a database holds\<close>

definition log_value :: "codec \<Rightarrow> log_entry \<Rightarrow> bytes" where
  "log_value C e = (case enc_log C (log_entry_to_proto e) of Inr b \<Rightarrow> b | Inl _ \<Rightarrow> [])"

abbreviation log_kv :: "codec \<Rightarrow> log_entry \<Rightarrow> bytes \<times> bytes" where
  "log_kv C e \<equiv> (u64_key (le_seq e), log_value C e)"

text \<open>The newest entry with a key.\<close>

definition last_with_key :: "bytes \<Rightarrow> log_entry list \<Rightarrow> log_entry option" where
  "last_with_key k es = find (\<lambda>e. le_key e = k) (rev es)"

text \<open>
  The log column family holds exactly the entries \<open>es\<close>, in this order and all numbered below the
  counter; the index column family maps every key to the number of its newest entry.
\<close>

definition log_fam :: "codec \<Rightarrow> sha256 \<Rightarrow> families \<Rightarrow> log_entry list \<Rightarrow> bool" where
  "log_fam C sha f es \<longleftrightarrow>
     fm_list (f CfLog) = map (log_kv C) es \<and>
     (\<forall>e \<in> set es. le_leaf_hash e = leaf_hash sha (le_data e)) \<and>
     (\<forall>k. fmlookup (f CfIndex) k = map_option (\<lambda>e. u64_key (le_seq e)) (last_with_key k es))"

definition log_rel :: "codec \<Rightarrow> sha256 \<Rightarrow> ('d \<Rightarrow> families) \<Rightarrow> 'd db \<Rightarrow> log_entry list \<Rightarrow> bool" where
  "log_rel C sha view db es \<longleftrightarrow>
     log_fam C sha (view (db_rocks db)) es \<and> (\<forall>e \<in> set es. le_seq e < next_seq db)"

text \<open>The numbers of the entries are gap-free from zero and the counter is their number.\<close>

definition dense :: "'d db \<Rightarrow> log_entry list \<Rightarrow> bool" where
  "dense db es \<longleftrightarrow> length es < 2 ^ 64 \<and> next_seq db = of_nat (length es) \<and>
     map (\<lambda>e. unat (le_seq e)) es = [0..<length es]"

lemma codec_logD:
  assumes "codec_laws C"
  shows "enc_log C (log_entry_to_proto e) = Inr (log_value C e)"
    and "dec_log C (log_value C e) = Inr (log_entry_to_proto e)"
    and "decode_log_entry C (log_value C e) = Inr e"
proof -
  obtain b where b: "enc_log C (log_entry_to_proto e) = Inr b" "dec_log C b = Inr (log_entry_to_proto e)"
    using assms unfolding codec_laws_def by blast
  then show "enc_log C (log_entry_to_proto e) = Inr (log_value C e)"
    and d: "dec_log C (log_value C e) = Inr (log_entry_to_proto e)"
    by (simp_all add: log_value_def)
  then show "decode_log_entry C (log_value C e) = Inr e" by (simp add: decode_log_entry_def)
qed

lemma seq_of_u64_key [simp]: "seq_of_key (u64_key n) = Inr n"
  by (simp only: seq_of_key_def try_into_to_vec corrupt_simps bindR_simps u64_from_to_be)

interpretation log_rows: record_store u64_key le_seq "log_value C" for C
  by unfold_locales

lemma log_rel_rows: "log_rel C sha view db es \<Longrightarrow> fm_list (view (db_rocks db) CfLog) = map (log_kv C) es"
  by (simp add: log_rel_def log_fam_def)

lemmas log_rel_sorted = log_rows.rows_sorted [OF log_rel_rows]
  and scan_from_log = log_rows.rows_from [OF log_rel_rows]
  and log_rel_lookup = log_rows.rows_lookup [OF log_rel_rows]

section \<open>Reading\<close>

lemma ls_get_by_seq_yields:
  assumes "rocks_laws R view" and "codec_laws C" and "log_rel C sha view db es"
  shows "yields (ls_get_by_seq R C db n) (find (\<lambda>e. le_seq e = n) es)"
proof (cases "rdb_get R (db_rocks db) CfLog (u64_key n)")
  case (Inl e)
  then show ?thesis by (simp add: ls_get_by_seq_def)
next
  case (Inr got)
  from rocks_getD [OF assms(1) Inr] log_rel_lookup [OF assms(3)]
  have "got = map_option (log_value C) (find (\<lambda>e. le_seq e = n) es)" by simp
  with Inr show ?thesis
    by (cases "find (\<lambda>e. le_seq e = n) es") (simp_all add: ls_get_by_seq_def codec_logD [OF assms(2)])
qed

lemma ls_get_seq_by_key_yields:
  assumes "rocks_laws R view" and "log_rel C sha view db es"
  shows "yields (ls_get_seq_by_key R db k) (map_option le_seq (last_with_key k es))"
proof (cases "rdb_get R (db_rocks db) CfIndex k")
  case (Inl e)
  then show ?thesis by (simp add: ls_get_seq_by_key_def)
next
  case (Inr got)
  from rocks_getD [OF assms(1) Inr] assms(2)
  have "got = map_option (\<lambda>e. u64_key (le_seq e)) (last_with_key k es)" by (simp add: log_rel_def log_fam_def)
  with Inr show ?thesis
    by (cases "last_with_key k es") (simp_all add: ls_get_seq_by_key_def)
qed

lemma filter_le_less_sorted:
  "sorted_wrt (\<lambda>a b. le_seq a < le_seq b) (e # es) \<Longrightarrow> end \<le> le_seq e \<Longrightarrow>
   filter (\<lambda>e. le_seq e < end) (e # es) = []"
  by (auto simp: filter_empty_conv)

lemma ls_seq_range_yields:
  assumes "rocks_laws R view" and "codec_laws C" and "log_rel C sha view db es"
  shows "yields (ls_seq_range R C db start end) (filter (\<lambda>e. start \<le> le_seq e \<and> le_seq e < end) es)"
proof -
  let ?f = "\<lambda>entries (k, v). bindR (seq_of_key k) (\<lambda>seq.
           if end \<le> seq then Inr (Break entries)
           else bindR (decode_log_entry C v) (\<lambda>e. Inr (Continue (entries @ [e]))))"
  have "for_items ?f acc (map Inr (map (log_kv C) xs)) = Inr (acc @ filter (\<lambda>e. le_seq e < end) xs)"
    if "sorted_wrt (\<lambda>a b. le_seq a < le_seq b) xs" for acc xs
    using that
  proof (induction xs arbitrary: acc)
    case (Cons x xs)
    show ?case
    proof (cases "end \<le> le_seq x")
      case True
      with filter_le_less_sorted [OF Cons.prems True] show ?thesis by simp
    next
      case False
      with Cons show ?thesis by (simp add: codec_logD [OF assms(2)] not_le)
    qed
  qed simp
  from this [of "filter (\<lambda>e. start \<le> le_seq e) es" "[]"]
  have "for_items ?f [] (map Inr (scan (view (db_rocks db) CfLog) (IterFrom (u64_key start)))) =
      Inr (filter (\<lambda>e. start \<le> le_seq e \<and> le_seq e < end) es)"
    unfolding scan_from_log [OF assms(3)]
    using log_rel_sorted [OF assms(3)] by (simp add: sorted_wrt_filter conj_commute)
  from for_items_yields [OF assms(1) this] show ?thesis by (simp add: ls_seq_range_def)
qed

lemma ls_latest_yields:
  assumes "rocks_laws R view" and "codec_laws C" and "log_rel C sha view db es"
  shows "yields (ls_latest R C db n) (take n (rev es))"
proof (cases "n = 0")
  case True
  then show ?thesis by (simp add: ls_latest_def)
next
  case False
  let ?f = "\<lambda>entries (k, v). bindR (decode_log_entry C v) (\<lambda>e.
            let entries = entries @ [e] in
            if n \<le> length entries then Inr (Break entries) else Inr (Continue entries))"
  have "length acc < n \<Longrightarrow>
      for_items ?f acc (map Inr (map (log_kv C) xs)) = Inr (acc @ take (n - length acc) xs)" for acc xs
  proof (induction xs arbitrary: acc)
    case (Cons x xs)
    show ?case
    proof (cases "n \<le> Suc (length acc)")
      case True
      with Cons.prems have "n - length acc = 1" by simp
      with True show ?thesis by (simp add: codec_logD [OF assms(2)] Let_def)
    next
      case False
      with Cons.IH [of "acc @ [x]"] show ?thesis
        by (simp add: codec_logD [OF assms(2)] Let_def take_Cons')
    qed
  qed simp
  from this [of "[]" "rev es"] False assms(3)
  have "for_items ?f [] (map Inr (scan (view (db_rocks db) CfLog) IterEnd)) = Inr (take n (rev es))"
    by (simp add: log_rel_def log_fam_def rev_map)
  from for_items_yields [OF assms(1) this] False show ?thesis by (simp add: ls_latest_def)
qed

subsection \<open>Pages\<close>

text \<open>The cursor after a page of \<open>xs\<close>: the number after the last entry of a full page.\<close>

definition page_cursor :: "u64 \<Rightarrow> nat \<Rightarrow> log_entry list \<Rightarrow> u64" where
  "page_cursor end limit xs =
     (if limit \<le> length xs then
        (let next = le_seq (xs ! (limit - 1)) + 1 in if end = 0 \<or> next < end then next else 0)
      else 0)"

lemma filter_paged_sorted:
  "sorted_wrt (\<lambda>a b. le_seq a < le_seq b) (e # es) \<Longrightarrow> end \<noteq> 0 \<and> end \<le> le_seq e \<Longrightarrow>
   filter (\<lambda>e. end = 0 \<or> le_seq e < end) (e # es) = []"
  by (auto simp: filter_empty_conv)

lemma ls_seq_range_paged_yields:
  assumes "rocks_laws R view" and "codec_laws C" and "log_rel C sha view db es"
    and "xs = filter (\<lambda>e. start \<le> le_seq e \<and> (end = 0 \<or> le_seq e < end)) es" and "0 < limit"
  shows "yields (ls_seq_range_paged R C db start end limit) (take limit xs, page_cursor end limit xs)"
proof -
  let ?f = "\<lambda>(entries, next_cursor) (k, v). bindR (seq_of_key k) (\<lambda>seq.
            if end \<noteq> 0 \<and> end \<le> seq then Inr (Break (entries, next_cursor))
            else bindR (decode_log_entry C v) (\<lambda>e.
              let entries = entries @ [e] in
              if limit \<le> length entries then
                (let next = seq + 1 in Inr (Break (entries, if end = 0 \<or> next < end then next else 0)))
              else Inr (Continue (entries, next_cursor))))"
  let ?ok = "\<lambda>e. end = 0 \<or> le_seq e < end"
  have "for_items ?f (acc, 0) (map Inr (map (log_kv C) ys)) =
      Inr (take limit (acc @ filter ?ok ys), page_cursor end limit (acc @ filter ?ok ys))"
    if "sorted_wrt (\<lambda>a b. le_seq a < le_seq b) ys" and "length acc < limit" for acc ys
    using that
  proof (induction ys arbitrary: acc)
    case Nil
    then show ?case by (simp add: page_cursor_def)
  next
    case (Cons y ys)
    show ?case
    proof (cases "end \<noteq> 0 \<and> end \<le> le_seq y")
      case True
      with filter_paged_sorted [OF Cons.prems(1) True] Cons.prems(2) show ?thesis
        by (simp add: page_cursor_def)
    next
      case False
      then have ok: "?ok y" by auto
      show ?thesis
      proof (cases "limit \<le> Suc (length acc)")
        case True
        with Cons.prems(2) have "limit = Suc (length acc)" by simp
        with ok False show ?thesis
          by (simp add: codec_logD [OF assms(2)] Let_def page_cursor_def nth_append)
      next
        case full: False
        with ok False Cons.IH [of "acc @ [y]"] Cons.prems show ?thesis
          by (simp add: codec_logD [OF assms(2)] Let_def)
      qed
    qed
  qed
  from this [of "filter (\<lambda>e. start \<le> le_seq e) es" "[]"] assms(5)
  have "for_items ?f ([], 0) (map Inr (scan (view (db_rocks db) CfLog) (IterFrom (u64_key start)))) =
      Inr (take limit xs, page_cursor end limit xs)"
    unfolding scan_from_log [OF assms(3)] assms(4)
    using log_rel_sorted [OF assms(3)] by (simp add: sorted_wrt_filter conj_commute)
  from for_items_yields [OF assms(1) this] assms(5) show ?thesis by (simp add: ls_seq_range_paged_def)
qed

lemma ls_entries_by_key_yields:
  assumes "rocks_laws R view" and "codec_laws C" and "log_rel C sha view db es"
    and "xs = filter (\<lambda>e. from_seq \<le> le_seq e \<and> le_key e = key) es" and "0 < limit"
  shows "yields (ls_entries_by_key R C db key from_seq limit) (take limit xs, page_cursor 0 limit xs)"
proof -
  let ?f = "\<lambda>(entries, next_cursor) (k, v). bindR (seq_of_key k) (\<lambda>seq.
          bindR (from_lib Decode (dec_log C v)) (\<lambda>proto.
            if lp_key proto = key then
              bindR (log_entry_try_from proto) (\<lambda>e.
                let entries = entries @ [e] in
                if limit \<le> length entries then Inr (Break (entries, seq + 1))
                else Inr (Continue (entries, next_cursor)))
            else Inr (Continue (entries, next_cursor))))"
  let ?ok = "\<lambda>e. le_key e = key"
  have proto_key: "lp_key (log_entry_to_proto e) = le_key e" for e by (simp add: log_entry_to_proto_def)
  have "for_items ?f (acc, 0) (map Inr (map (log_kv C) ys)) =
      Inr (take limit (acc @ filter ?ok ys), page_cursor 0 limit (acc @ filter ?ok ys))"
    if "length acc < limit" for acc ys
    using that
  proof (induction ys arbitrary: acc)
    case Nil
    then show ?case by (simp add: page_cursor_def)
  next
    case (Cons y ys)
    show ?case
    proof (cases "le_key y = key \<and> limit \<le> Suc (length acc)")
      case True
      with Cons.prems have "limit = Suc (length acc)" by simp
      with True show ?thesis
        by (simp add: codec_logD [OF assms(2)] proto_key Let_def page_cursor_def nth_append)
    next
      case False
      with Cons.IH [of acc] Cons.IH [of "acc @ [y]"] Cons.prems show ?thesis
        by (auto simp: codec_logD [OF assms(2)] proto_key Let_def)
    qed
  qed
  from this [of "[]" "filter (\<lambda>e. from_seq \<le> le_seq e) es"] assms(5)
  have "for_items ?f ([], 0) (map Inr (scan (view (db_rocks db) CfLog) (IterFrom (u64_key from_seq)))) =
      Inr (take limit xs, page_cursor 0 limit xs)"
    unfolding scan_from_log [OF assms(3)] assms(4) by (simp add: conj_commute)
  from for_items_yields [OF assms(1) this] assms(5) show ?thesis by (simp add: ls_entries_by_key_def)
qed

text \<open>The entries after a page are exactly those from its cursor on; a zero cursor means none.\<close>

lemma page_cursor_grows:
  assumes "\<And>e. e \<in> set xs \<Longrightarrow> start \<le> le_seq e" and "0 < limit" and "page_cursor end limit xs \<noteq> 0"
  shows "start < page_cursor end limit xs"
proof -
  have full: "limit \<le> length xs" using assms(3) by (auto simp: page_cursor_def split: if_splits)
  let ?l = "le_seq (xs ! (limit - 1))"
  have c: "page_cursor end limit xs = ?l + 1" using assms(3) full by (auto simp: page_cursor_def Let_def split: if_splits)
  have "xs ! (limit - 1) \<in> set xs" using full assms(2) by (intro nth_mem) simp
  then have "start \<le> ?l" by (rule assms(1))
  moreover have "?l < ?l + 1" using u64_Suc_le_iff [of ?l "?l + 1"] assms(3) c by simp
  ultimately show ?thesis unfolding c by (rule le_less_trans)
qed

lemma page_cursor_complete:
  assumes sorted: "sorted_wrt (\<lambda>a b. le_seq a < le_seq b) es"
    and xs: "xs = filter (\<lambda>e. start \<le> le_seq e \<and> (end = 0 \<or> le_seq e < end) \<and> P e) es" and "0 < limit"
  shows "drop limit xs = (if page_cursor end limit xs = 0 then []
    else filter (\<lambda>e. page_cursor end limit xs \<le> le_seq e \<and> (end = 0 \<or> le_seq e < end) \<and> P e) es)"
proof (cases "limit \<le> length xs")
  case False
  then show ?thesis by (simp add: page_cursor_def)
next
  case True
  define l where "l = le_seq (xs ! (limit - 1))"
  have "sorted_wrt (\<lambda>a b. le_seq a < le_seq b) xs" using sorted xs by (simp add: sorted_wrt_filter)
  from drop_sorted_filter [OF this, of "limit - 1"] True \<open>0 < limit\<close>
  have drop: "drop limit xs = filter (\<lambda>x. l < le_seq x) xs" by (simp add: l_def)
  have mem: "xs ! (limit - 1) \<in> set xs" using True \<open>0 < limit\<close> by (intro nth_mem) simp
  then have start: "start \<le> l" using xs by (auto simp: l_def)
  show ?thesis
  proof (cases "l + 1 \<noteq> 0 \<and> (end = 0 \<or> l + 1 < end)")
    case True
    then have c: "page_cursor end limit xs = l + 1"
      using \<open>limit \<le> length xs\<close> by (simp add: page_cursor_def Let_def l_def)
    have iff: "l + 1 \<le> b \<longleftrightarrow> l < b" for b using True u64_Suc_le_iff by blast
    have "filter (\<lambda>x. l < le_seq x) xs =
        filter (\<lambda>e. l + 1 \<le> le_seq e \<and> (end = 0 \<or> le_seq e < end) \<and> P e) es"
      unfolding xs filter_filter iff using start by (intro filter_cong) auto
    with True c drop show ?thesis by simp
  next
    case False
    then have c: "page_cursor end limit xs = 0"
      using \<open>limit \<le> length xs\<close> by (auto simp: page_cursor_def Let_def l_def)
    have "\<not> l < le_seq e" if "e \<in> set xs" for e
    proof
      assume lt: "l < le_seq e"
      then have nz: "l + 1 \<noteq> 0" using u64_Suc_eq_0 [of l "le_seq e"] by auto
      then have "l + 1 \<le> le_seq e" using lt u64_Suc_le_iff by blast
      with False nz that xs show False by auto
    qed
    with c drop show ?thesis by (simp add: filter_empty_conv)
  qed
qed

section \<open>Appending\<close>

definition new_entry :: "sha256 \<Rightarrow> i64 \<Rightarrow> u64 \<Rightarrow> bytes \<Rightarrow> bytes \<Rightarrow> log_entry" where
  "new_entry sha ts seq key data = \<lparr>le_seq = seq, le_timestamp_ns = ts, le_key = key, le_data = data,
     le_leaf_hash = leaf_hash sha data\<rparr>"

fun batch_entries :: "sha256 \<Rightarrow> i64 \<Rightarrow> u64 \<Rightarrow> (bytes \<times> bytes) list \<Rightarrow> log_entry list" where
  "batch_entries sha ts seq [] = []"
| "batch_entries sha ts seq ((key, data) # kvs) = new_entry sha ts seq key data # batch_entries sha ts (seq + 1) kvs"

definition put_ops :: "codec \<Rightarrow> log_entry \<Rightarrow> batch_op list" where
  "put_ops C e = [PutCf CfLog (u64_key (le_seq e)) (log_value C e), PutCf CfIndex (le_key e) (u64_key (le_seq e))]"

lemma new_entry_simps [simp]:
  "le_seq (new_entry sha ts n k d) = n" "le_key (new_entry sha ts n k d) = k"
  "le_timestamp_ns (new_entry sha ts n k d) = ts" "le_data (new_entry sha ts n k d) = d"
  "le_leaf_hash (new_entry sha ts n k d) = leaf_hash sha d"
  by (simp_all add: new_entry_def)

lemma new_entry_proto:
  "\<lparr>lp_seq = n, lp_timestamp_ns = ts, lp_key = k, lp_data = d, lp_leaf_hash = to_vec (leaf_hash sha d)\<rparr> =
   log_entry_to_proto (new_entry sha ts n k d)"
  by (simp add: log_entry_to_proto_def new_entry_def)

lemma length_batch_entries [simp]: "length (batch_entries sha ts n kvs) = length kvs"
  by (induction kvs arbitrary: n) auto

lemma batch_entries_data:
  "map (\<lambda>e. (le_key e, le_data e)) (batch_entries sha ts n kvs) = kvs"
  "e \<in> set (batch_entries sha ts n kvs) \<Longrightarrow> le_leaf_hash e = leaf_hash sha (le_data e)"
  by (induction kvs arbitrary: n) auto

lemma batch_entries_seqs:
  "unat n + length kvs < 2 ^ 64 \<Longrightarrow>
   map (\<lambda>e. unat (le_seq e)) (batch_entries sha ts n kvs) = [unat n..<unat n + length kvs]"
proof (induction kvs arbitrary: n)
  case (Cons kv kvs)
  have "unat (n + 1) = Suc (unat n)" using Cons.prems by (simp add: unat_word_ariths)
  then have "map (\<lambda>e. unat (le_seq e)) (batch_entries sha ts (n + 1) kvs) =
      [Suc (unat n)..<unat n + length (kv # kvs)]"
    using Cons.IH [of "n + 1"] Cons.prems by simp
  then show ?case by (cases kv) (simp add: upt_conv_Cons del: upt_Suc)
qed simp

lemma append_batch_loop_eq:
  assumes "codec_laws C"
  shows "append_batch_loop C sha ts n kvs b r =
    Inr (b @ concat (map (put_ops C) (batch_entries sha ts n kvs)),
         r @ map (\<lambda>e. (le_seq e, le_timestamp_ns e, le_leaf_hash e)) (batch_entries sha ts n kvs))"
  by (induction kvs arbitrary: n b r)
    (auto simp: Let_def new_entry_proto codec_logD [OF assms] put_ops_def simp del: append_assoc)

lemma last_with_key_snoc: "last_with_key k (es @ [e]) = (if le_key e = k then Some e else last_with_key k es)"
  by (simp add: last_with_key_def)

text \<open>Storing entries with increasing numbers above the stored ones extends the log.\<close>

lemma log_fam_puts:
  assumes "log_fam C sha f es" and "sorted_wrt (\<lambda>a b. le_seq a < le_seq b) (es @ new)"
    and "\<And>e. e \<in> set new \<Longrightarrow> le_leaf_hash e = leaf_hash sha (le_data e)"
  shows "log_fam C sha (fold apply_op (concat (map (put_ops C) new)) f) (es @ new)"
  using assms
proof (induction new arbitrary: f es)
  case (Cons e new)
  let ?f = "fold apply_op (put_ops C e) f"
  have "upd_by le_seq e es = es @ [e]"
    using Cons.prems(2) by (intro upd_by_last) (simp add: sorted_wrt_append)
  then have "fm_list (?f CfLog) = map (log_kv C) (es @ [e])"
    using log_rows.rows_put [of "f CfLog" C es e] Cons.prems(1) by (simp add: log_fam_def put_ops_def)
  then have "log_fam C sha ?f (es @ [e])"
    using Cons.prems(1,3) by (auto simp: log_fam_def put_ops_def last_with_key_snoc)
  from Cons.IH [OF this] Cons.prems show ?case by simp
qed simp

lemma put_ops_other: "c \<notin> {CfLog, CfIndex} \<Longrightarrow> fold apply_op (concat (map (put_ops C) new)) f c = f c"
  by (induction new arbitrary: f) (auto simp: put_ops_def)

lemma sorted_batch:
  assumes "log_rel C sha view db es" and "unat (next_seq db) + length kvs < 2 ^ 64"
  shows "sorted_wrt (\<lambda>a b. le_seq a < le_seq b) (es @ batch_entries sha ts (next_seq db) kvs)"
    and "\<And>e. e \<in> set (es @ batch_entries sha ts (next_seq db) kvs) \<Longrightarrow>
      le_seq e < next_seq db + of_nat (length kvs) \<or> kvs = []"
proof -
  let ?new = "batch_entries sha ts (next_seq db) kvs"
  note seqs = batch_entries_seqs [OF assms(2), of sha ts]
  have range: "unat (next_seq db) \<le> unat (le_seq e) \<and> unat (le_seq e) < unat (next_seq db) + length kvs"
    if "e \<in> set ?new" for e
  proof -
    from that have "unat (le_seq e) \<in> set (map (\<lambda>e. unat (le_seq e)) ?new)" by auto
    then show ?thesis unfolding seqs by simp
  qed
  have "sorted_wrt (<) (map (\<lambda>e. unat (le_seq e)) ?new)" unfolding seqs by simp
  then have "sorted_wrt (\<lambda>a b. le_seq a < le_seq b) ?new"
    by (simp add: sorted_wrt_map word_less_nat_alt)
  moreover have "le_seq a < le_seq b" if "a \<in> set es" "b \<in> set ?new" for a b
    using that range [of b] assms(1) by (auto simp: log_rel_def word_less_nat_alt)
  ultimately show "sorted_wrt (\<lambda>a b. le_seq a < le_seq b) (es @ ?new)"
    using log_rel_sorted [OF assms(1)] by (simp add: sorted_wrt_append)
  have sum: "unat (next_seq db + of_nat (length kvs)) = unat (next_seq db) + length kvs"
    using assms(2) by (simp add: unat_word_ariths unat_of_nat)
  show "le_seq e < next_seq db + of_nat (length kvs) \<or> kvs = []" if "e \<in> set (es @ ?new)" for e
    using that range [of e] assms(1) sum by (auto simp: log_rel_def word_less_nat_alt)
qed

text \<open>
  The outcome of \<^verbatim>\<open>append_batch\<close>: on success the batch is in the log, in order and numbered from the
  counter; on failure the log is as before, while the counter has advanced all the same.
\<close>

lemma ls_append_batch_cases:
  assumes laws: "rocks_laws R view" "codec_laws C" and rel: "log_rel C sha view db es"
    and room: "unat (next_seq db) + length kvs < 2 ^ 64"
    and run: "ls_append_batch R C sha now kvs db = (db', r)"
  obtains (ok) "r = Inr (map (\<lambda>e. (le_seq e, le_timestamp_ns e, le_leaf_hash e))
        (batch_entries sha (word_of_int now) (next_seq db) kvs))"
      and "log_rel C sha view db' (es @ batch_entries sha (word_of_int now) (next_seq db) kvs)"
      and "next_seq db' = next_seq db + of_nat (length kvs)" and "kvs \<noteq> [] \<Longrightarrow> 0 \<le> now"
      and "\<And>c. c \<notin> {CfLog, CfIndex} \<Longrightarrow> view (db_rocks db') c = view (db_rocks db) c"
    | (fail) "log_rel C sha view db' es" and "next_seq db' = next_seq db + of_nat (length kvs)"
      and "now < 0 \<and> r = Inl (Panic UnwrapFailed) \<or> (\<exists>m. r = Inl (Err (RocksDb m)))"
      and "\<And>c. view (db_rocks db') c = view (db_rocks db) c"
proof (cases "kvs = []")
  case True
  with run have "db' = db" "r = Inr []" by (simp_all add: ls_append_batch_def)
  with True rel show ?thesis by (intro ok) simp_all
next
  case ne: False
  let ?new = "batch_entries sha (word_of_int now) (next_seq db) kvs"
  have keep: "log_rel C sha view (db\<lparr>db_rocks := d', next_seq := next_seq db + of_nat (length kvs)\<rparr>) es"
    if "view d' = view (db_rocks db)" for d'
    using rel sorted_batch(2) [OF rel room] ne that by (auto simp: log_rel_def)
  show ?thesis
  proof (cases "now < 0")
    case True
    with run ne have "db' = db\<lparr>next_seq := next_seq db + of_nat (length kvs)\<rparr>" "r = Inl (Panic UnwrapFailed)"
      by (auto simp: ls_append_batch_def Let_def timestamp_of_def)
    moreover from this keep [of "db_rocks db"] have "log_rel C sha view db' es" by simp
    ultimately show ?thesis using True by (intro fail) simp_all
  next
    case False
    obtain d' w where w: "rdb_write R (db_rocks db) (concat (map (put_ops C) ?new)) = (d', w)" by fastforce
    with run ne False have db': "db' = db\<lparr>db_rocks := d', next_seq := next_seq db + of_nat (length kvs)\<rparr>"
      and r: "r = bindR (from_lib RocksDb w) (\<lambda>_. Inr (map (\<lambda>e. (le_seq e, le_timestamp_ns e, le_leaf_hash e)) ?new))"
      by (auto simp: ls_append_batch_def Let_def timestamp_of_def append_batch_loop_eq [OF laws(2)])
    show ?thesis
    proof (cases w)
      case (Inl m)
      with rocks_writeD(2) [OF laws(1)] w have "view d' = view (db_rocks db)" by blast
      with keep [of d'] db' r Inl show ?thesis by (intro fail) simp_all
    next
      case (Inr u)
      then have v: "view d' = fold apply_op (concat (map (put_ops C) ?new)) (view (db_rocks db))"
        using rocks_writeD(1) [OF laws(1)] w by simp
      have "log_fam C sha (view d') (es @ ?new)"
        unfolding v using rel sorted_batch(1) [OF rel room] batch_entries_data(2)
        by (intro log_fam_puts) (auto simp: log_rel_def)
      then have "log_rel C sha view db' (es @ ?new)"
        using sorted_batch(2) [OF rel room] ne db' by (auto simp: log_rel_def)
      with db' r Inr v False show ?thesis by (intro ok) (simp_all add: put_ops_other)
    qed
  qed
qed

text \<open>\<^verbatim>\<open>append\<close> is \<^verbatim>\<open>append_batch\<close> with one entry, less the leaf hash in the result.\<close>

lemma ls_append_batch_single:
  assumes "codec_laws C"
  shows "ls_append R C sha now key data db =
    (case ls_append_batch R C sha now [(key, data)] db of (db', r) \<Rightarrow>
       (db', bindR r (\<lambda>rs. case rs of (seq, ts, lh) # _ \<Rightarrow> Inr (seq, ts) | [] \<Rightarrow> Inl (Panic UnwrapFailed))))"
  by (auto simp: ls_append_def ls_append_batch_def Let_def timestamp_of_def append_batch_loop_eq [OF assms]
      new_entry_proto codec_logD [OF assms] put_ops_def bindR_assoc split: prod.splits)

lemma ls_append_cases:
  assumes laws: "rocks_laws R view" "codec_laws C" and rel: "log_rel C sha view db es"
    and room: "unat (next_seq db) + 1 < 2 ^ 64"
    and run: "ls_append R C sha now key data db = (db', r)"
  obtains (ok) "r = Inr (next_seq db, word_of_int now)"
      and "log_rel C sha view db' (es @ [new_entry sha (word_of_int now) (next_seq db) key data])"
      and "next_seq db' = next_seq db + 1" and "0 \<le> now"
      and "\<And>c. c \<notin> {CfLog, CfIndex} \<Longrightarrow> view (db_rocks db') c = view (db_rocks db) c"
    | (fail) "log_rel C sha view db' es" and "next_seq db' = next_seq db + 1"
      and "now < 0 \<and> r = Inl (Panic UnwrapFailed) \<or> (\<exists>m. r = Inl (Err (RocksDb m)))"
      and "\<And>c. view (db_rocks db') c = view (db_rocks db) c"
proof -
  obtain rb where b: "ls_append_batch R C sha now [(key, data)] db = (db', rb)"
    and r: "r = bindR rb (\<lambda>rs. case rs of (seq, ts, lh) # _ \<Rightarrow> Inr (seq, ts) | [] \<Rightarrow> Inl (Panic UnwrapFailed))"
    using run unfolding ls_append_batch_single [OF laws(2)] by (auto split: prod.splits)
  have room': "unat (next_seq db) + length [(key, data)] < 2 ^ 64" using room by simp
  show ?thesis
  proof (cases rule: ls_append_batch_cases [OF laws rel room' b])
    case 1
    show ?thesis by (rule ok) (use 1 r in simp_all)
  next
    case 2
    have "now < 0 \<and> r = Inl (Panic UnwrapFailed) \<or> (\<exists>m. r = Inl (Err (RocksDb m)))"
      using 2(3) r by (elim disjE conjE exE) simp_all
    then show ?thesis by (intro fail) (use 2 in simp_all)
  qed
qed

lemma dense_next: "dense db es \<Longrightarrow> unat (next_seq db) = length es"
  by (simp add: dense_def unat_of_nat)

lemma dense_extend:
  assumes "dense db es" and "unat (next_seq db) + length kvs < 2 ^ 64"
    and "next_seq db' = next_seq db + of_nat (length kvs)"
  shows "dense db' (es @ batch_entries sha ts (next_seq db) kvs)"
proof -
  have n: "unat (next_seq db) = length es" using assms(1) by (rule dense_next)
  have "map (\<lambda>e. unat (le_seq e)) (es @ batch_entries sha ts (next_seq db) kvs) = [0..<length es + length kvs]"
    using assms(1) batch_entries_seqs [OF assms(2), of sha ts] n
      upt_add_eq_append [of 0 "length es" "length kvs"] by (simp add: dense_def)
  with assms n show ?thesis by (simp add: dense_def)
qed

lemma dense_extend_one:
  assumes "dense db es" and "unat (next_seq db) + 1 < 2 ^ 64" and "next_seq db' = next_seq db + 1"
  shows "dense db' (es @ [new_entry sha ts (next_seq db) key data])"
  using dense_extend [OF assms(1), of "[(key, data)]" db' sha ts] assms(2,3) by simp

lemma dense_nth:
  assumes "dense db es" and "i < length es"
  shows "unat (le_seq (es ! i)) = i"
proof -
  have "map (\<lambda>e. unat (le_seq e)) es ! i = [0..<length es] ! i" using assms(1) by (simp add: dense_def)
  with assms(2) show ?thesis by simp
qed

lemma dense_take:
  assumes "dense db es"
  shows "filter (\<lambda>e. 0 \<le> le_seq e \<and> le_seq e < n) es = take (unat n) es"
proof -
  note seq = dense_nth [OF assms]
  have "filter (\<lambda>e. le_seq e < n) (take (unat n) es) = take (unat n) es"
    using seq by (auto simp: filter_id_conv in_set_conv_nth word_less_nat_alt)
  moreover have "filter (\<lambda>e. le_seq e < n) (drop (unat n) es) = []"
    using seq by (auto simp: filter_empty_conv in_set_conv_nth word_less_nat_alt)
  ultimately show ?thesis by (metis (mono_tags, lifting) append.right_neutral append_take_drop_id filter_append filter_cong word_zero_le)
qed

lemma dense_below_max:
  assumes "dense db es" and "Suc (length es) < 2 ^ 64"
  shows "filter (\<lambda>e. 0 \<le> le_seq e \<and> le_seq e < - 1) es = es"
proof -
  have "le_seq e < - 1" if "e \<in> set es" for e
  proof -
    have "unat (le_seq e) \<in> set (map (\<lambda>e. unat (le_seq e)) es)" using that by auto
    then have "unat (le_seq e) < length es" using assms(1) unfolding dense_def by auto
    then show ?thesis using assms(2) by (simp add: word_less_nat_alt unsigned_minus_1_eq_mask mask_eq_exp_minus_1)
  qed
  then show ?thesis by (simp add: filter_id_conv)
qed

section \<open>The append-only contract\<close>

text \<open>
  A store whose content only grows along a preorder, whatever the outcome of an operation; \<open>used\<close> and
  \<open>cost\<close> bound how often it can be written before a counter would wrap. The contract is closed under
  running any sequence of operations.
\<close>

locale growing_store =
  fixes exec :: "'i \<Rightarrow> 's \<Rightarrow> 's \<times> 'r"
    and holds :: "'s \<Rightarrow> 'a \<Rightarrow> bool" and le :: "'a \<Rightarrow> 'a \<Rightarrow> bool"
    and used :: "'s \<Rightarrow> nat" and cost :: "'i \<Rightarrow> nat" and cap :: nat
  assumes le_refl: "le a a" and le_trans: "le a b \<Longrightarrow> le b c \<Longrightarrow> le a c"
    and grows: "holds s a \<Longrightarrow> used s + cost i < cap \<Longrightarrow> exec i s = (s', r) \<Longrightarrow>
      \<exists>a'. holds s' a' \<and> le a a' \<and> used s' \<le> used s + cost i"
begin

lemma run_grows:
  "holds s a \<Longrightarrow> used s + sum_list (map cost cmds) < cap \<Longrightarrow>
   \<exists>a'. holds (fold (\<lambda>i s. fst (exec i s)) cmds s) a' \<and> le a a'"
proof (induction cmds arbitrary: s a)
  case Nil
  then show ?case using le_refl by auto
next
  case (Cons i cmds)
  obtain s' r where x: "exec i s = (s', r)" by fastforce
  with grows [OF Cons.prems(1) _ x] Cons.prems(2) obtain a' where
    a': "holds s' a'" "le a a'" "used s' \<le> used s + cost i" by auto
  with Cons.IH [of s' a'] Cons.prems(2) obtain a'' where
    "holds (fold (\<lambda>i s. fst (exec i s)) cmds s') a''" "le a' a''" by auto
  with a' x le_trans show ?case by auto
qed

end

text \<open>
  What every writer of the log promises: the entries stored before are still there, in the same order,
  possibly followed by new ones. It is a growing store for the prefix order.
\<close>

locale log_extender =
  fixes exec :: "'i \<Rightarrow> 's \<Rightarrow> 's \<times> 'r"
    and holds :: "'s \<Rightarrow> 'e list \<Rightarrow> bool"
    and used :: "'s \<Rightarrow> nat" and cost :: "'i \<Rightarrow> nat" and cap :: nat
  assumes extends: "holds s es \<Longrightarrow> used s + cost i < cap \<Longrightarrow> exec i s = (s', r) \<Longrightarrow>
    \<exists>added. holds s' (es @ added) \<and> used s' = used s + cost i"

sublocale log_extender \<subseteq> prefix: growing_store exec holds "\<lambda>a b. \<exists>c. b = a @ c" used cost cap
  using extends by unfold_locales (auto, blast)

datatype log_cmd = CmdAppend int bytes bytes | CmdBatch int "(bytes \<times> bytes) list"

definition run_log_cmd :: "'d rocksdb \<Rightarrow> codec \<Rightarrow> sha256 \<Rightarrow> log_cmd \<Rightarrow> 'd db \<Rightarrow> 'd db \<times> bool" where
  "run_log_cmd R C sha cmd db = (case cmd of
     CmdAppend now key data \<Rightarrow> (case ls_append R C sha now key data db of (db', r) \<Rightarrow> (db', isl r))
   | CmdBatch now kvs \<Rightarrow> (case ls_append_batch R C sha now kvs db of (db', r) \<Rightarrow> (db', isl r)))"

definition cmd_cost :: "log_cmd \<Rightarrow> nat" where
  "cmd_cost cmd = (case cmd of CmdAppend _ _ _ \<Rightarrow> 1 | CmdBatch _ kvs \<Rightarrow> length kvs)"

lemma unat_next_seq_add: "unat n + k < 2 ^ 64 \<Longrightarrow> unat (n + of_nat k :: u64) = unat n + k"
  by (simp add: unat_word_ariths unat_of_nat)

interpretation log_writer: log_extender "run_log_cmd R C sha"
  "\<lambda>db es. rocks_laws R view \<and> codec_laws C \<and> log_rel C sha view db es"
  "\<lambda>db. unat (next_seq db)" cmd_cost "2 ^ 64" for R C sha view
proof
  fix s :: "'a db" and es i s' r
  assume rel: "rocks_laws R view \<and> codec_laws C \<and> log_rel C sha view s es"
    and room: "unat (next_seq s) + cmd_cost i < 2 ^ 64" and run: "run_log_cmd R C sha i s = (s', r)"
  show "\<exists>added. (rocks_laws R view \<and> codec_laws C \<and> log_rel C sha view s' (es @ added)) \<and>
      unat (next_seq s') = unat (next_seq s) + cmd_cost i"
  proof (cases i)
    case (CmdAppend now key data)
    with run obtain x where x: "ls_append R C sha now key data s = (s', x)"
      by (auto simp: run_log_cmd_def split: prod.splits)
    have room1: "unat (next_seq s) + 1 < 2 ^ 64" using room CmdAppend by (simp add: cmd_cost_def)
    have cnt: "unat (next_seq s + 1) = unat (next_seq s) + cmd_cost i"
      using unat_next_seq_add [OF room1] CmdAppend by (simp add: cmd_cost_def)
    show ?thesis
      using rel by (cases rule: ls_append_cases [OF _ _ _ room1 x]) (use rel cnt in \<open>auto intro: exI [of _ "[]"]\<close>)
  next
    case (CmdBatch now kvs)
    with run obtain x where x: "ls_append_batch R C sha now kvs s = (s', x)"
      by (auto simp: run_log_cmd_def split: prod.splits)
    have room1: "unat (next_seq s) + length kvs < 2 ^ 64" using room CmdBatch by (simp add: cmd_cost_def)
    have cnt: "unat (next_seq s + of_nat (length kvs)) = unat (next_seq s) + cmd_cost i"
      using unat_next_seq_add [OF room1] CmdBatch by (simp add: cmd_cost_def)
    show ?thesis
      using rel by (cases rule: ls_append_batch_cases [OF _ _ _ room1 x]) (use rel cnt in \<open>auto intro: exI [of _ "[]"]\<close>)
  qed
qed

section \<open>Properties\<close>

definition empty_db :: "families db" where
  "empty_db = \<lparr>db_rocks = (\<lambda>_. fmempty), next_seq = 0\<rparr>"

lemma empty_db_rel: "log_rel C sha (\<lambda>d. d) empty_db []" "dense empty_db []"
  by (simp_all add: log_rel_def log_fam_def empty_db_def last_with_key_def dense_def)

lemma find_sorted_seq:
  assumes "sorted_wrt (\<lambda>a b. le_seq a < le_seq b) es" and "e \<in> set es"
  shows "find (\<lambda>x. le_seq x = le_seq e) es = Some e"
  using assms by (induction es) auto

text \<open>
  C13. The log is append-only: whatever sequence of appends and batch appends runs, and whichever of
  them fail, every entry stored before is still stored, unchanged and in the same order, and reading it
  by its number returns it (unless RocksDB reports an error).
\<close>

theorem log_append_only:
  assumes "rocks_laws R view" and "codec_laws C" and "log_rel C sha view db es"
    and "unat (next_seq db) + sum_list (map cmd_cost cmds) < 2 ^ 64"
    and "db' = fold (\<lambda>c s. fst (run_log_cmd R C sha c s)) cmds db"
  shows "\<exists>added. log_rel C sha view db' (es @ added) \<and>
    (\<forall>e \<in> set es. yields (ls_get_by_seq R C db' (le_seq e)) (Some e))"
proof -
  obtain added where rel: "log_rel C sha view db' (es @ added)"
    using log_writer.prefix.run_grows [of R view C sha db es cmds] assms by auto
  have "yields (ls_get_by_seq R C db' (le_seq e)) (Some e)" if "e \<in> set es" for e
    using ls_get_by_seq_yields [OF assms(1,2) rel, of "le_seq e"]
      find_sorted_seq [OF log_rel_sorted [OF rel], of e] that by simp
  with rel show ?thesis by blast
qed

text \<open>
  Append and read back: a successful append returns the counter as the number of the entry, the entry
  (with the leaf hash of its data) is what reading that number, the key index and the newest-first scan
  return, and no other number changes.
\<close>

theorem append_read_back:
  assumes "rocks_laws R view" and "codec_laws C" and "log_rel C sha view db es"
    and "unat (next_seq db) + 1 < 2 ^ 64"
    and "ls_append R C sha now key data db = (db', Inr (seq, ts))"
    and "e = \<lparr>le_seq = seq, le_timestamp_ns = ts, le_key = key, le_data = data, le_leaf_hash = leaf_hash sha data\<rparr>"
  shows "seq = next_seq db \<and> yields (ls_get_by_seq R C db' seq) (Some e)
    \<and> yields (ls_get_seq_by_key R db' key) (Some seq) \<and> yields (ls_latest R C db' 1) [e]
    \<and> (\<forall>n. n \<noteq> seq \<longrightarrow> yields (ls_get_by_seq R C db' n) (find (\<lambda>x. le_seq x = n) es))"
  using assms(5)
proof (cases rule: ls_append_cases [OF assms(1-4,5)])
  case 1
  with assms(6) have e: "new_entry sha (word_of_int now) (next_seq db) key data = e" and seq: "seq = next_seq db"
    by (simp_all add: new_entry_def)
  note rel = 1(2) [unfolded e]
  have "find (\<lambda>x. le_seq x = seq) es = None"
    using assms(3) seq by (auto simp: find_None_iff log_rel_def)
  then have "find (\<lambda>x. le_seq x = seq) (es @ [e]) = Some e"
    using assms(6) by (simp add: find_append)
  moreover have "find (\<lambda>x. le_seq x = n) (es @ [e]) = find (\<lambda>x. le_seq x = n) es" if "n \<noteq> seq" for n
    using that assms(6) by (simp add: find_append split: option.splits)
  moreover have "last_with_key key (es @ [e]) = Some e" and "le_seq e = seq"
    using assms(6) by (simp_all add: last_with_key_snoc)
  moreover have "take 1 (rev (es @ [e])) = [e]" by simp
  ultimately show ?thesis
    using seq ls_get_by_seq_yields [OF assms(1,2) rel] ls_get_seq_by_key_yields [OF assms(1) rel, of key]
      ls_latest_yields [OF assms(1,2) rel, of 1]
    by (intro conjI allI impI) (simp only: option.map(2) | metis)+
next
  case 2
  then show ?thesis by auto
qed

text \<open>
  Pagination of a range: a page holds the first \<open>limit\<close> entries of the range, and the entries
  it leaves out are exactly those of the range that starts at the returned cursor; a zero cursor means
  that nothing is left. Following the cursors therefore enumerates the range without loss or repetition.
\<close>

theorem seq_range_paged_complete:
  assumes "rocks_laws R view" and "codec_laws C" and "log_rel C sha view db es" and "0 < limit"
    and "ls_seq_range_paged R C db start end limit = Inr (page, next)"
  shows "length page \<le> limit \<and>
    filter (\<lambda>e. start \<le> le_seq e \<and> (end = 0 \<or> le_seq e < end)) es =
      page @ (if next = 0 then [] else filter (\<lambda>e. next \<le> le_seq e \<and> (end = 0 \<or> le_seq e < end)) es)"
proof -
  let ?xs = "filter (\<lambda>e. start \<le> le_seq e \<and> (end = 0 \<or> le_seq e < end)) es"
  from ls_seq_range_paged_yields [OF assms(1-3) refl assms(4), of start "end"] assms(5)
  have p: "page = take limit ?xs" and n: "next = page_cursor end limit ?xs" by (auto simp: yields_Inr)
  show ?thesis
    using page_cursor_complete [OF log_rel_sorted [OF assms(3)], of ?xs start "end" "\<lambda>_. True" limit] assms(4)
      append_take_drop_id [of limit ?xs] unfolding p n
    by (cases "page_cursor end limit ?xs = 0") simp_all
qed


text \<open>A database with one entry, on the in-memory parameters.\<close>

definition sample_db :: "families db" where
  "sample_db = fst (ls_append mem_rocks mem_codec toy_sha 5 [1] [2] empty_db)"

lemma sample_db_append:
  "ls_append mem_rocks mem_codec toy_sha 5 [1] [2] empty_db = (sample_db, Inr (0, 5))"
  unfolding sample_db_def by (intro prod_eqI) (simp, code_simp)

lemma sample_db_rel:
  "log_rel mem_codec toy_sha (\<lambda>d. d) sample_db [new_entry toy_sha 5 0 [1] [2]]"
  "dense sample_db [new_entry toy_sha 5 0 [1] [2]]"
proof -
  have room: "unat (next_seq empty_db) + 1 < 2 ^ 64" and z: "next_seq empty_db = 0" by (simp_all add: empty_db_def)
  note cases = ls_append_cases [OF mem_rocks_laws mem_codec_laws empty_db_rel(1) room sample_db_append]
  show "log_rel mem_codec toy_sha (\<lambda>d. d) sample_db [new_entry toy_sha 5 0 [1] [2]]"
    by (cases rule: cases) (simp_all add: z)
  have "next_seq sample_db = next_seq empty_db + 1"
    by (cases rule: cases) simp_all
  from dense_extend_one [OF empty_db_rel(2) room this, of toy_sha 5 "[1]" "[2]"]
  show "dense sample_db [new_entry toy_sha 5 0 [1] [2]]" by (simp add: z)
qed

theorem log_append_only_witness:
  "\<exists>added. log_rel mem_codec toy_sha (\<lambda>d. d) (fold (\<lambda>c s. fst (run_log_cmd mem_rocks mem_codec toy_sha c s))
      [CmdAppend 1 [1] [2], CmdBatch (-1) [([3], [4])], CmdBatch 2 [([3], [4]), ([1], [5])]] sample_db)
      ([new_entry toy_sha 5 0 [1] [2]] @ added) \<and>
    yields (ls_get_by_seq mem_rocks mem_codec (fold (\<lambda>c s. fst (run_log_cmd mem_rocks mem_codec toy_sha c s))
      [CmdAppend 1 [1] [2], CmdBatch (-1) [([3], [4])], CmdBatch 2 [([3], [4]), ([1], [5])]] sample_db) 0)
      (Some (new_entry toy_sha 5 0 [1] [2]))"
proof -
  have room: "unat (next_seq sample_db) + sum_list (map cmd_cost
      [CmdAppend 1 [1] [2], CmdBatch (-1) [([3], [4])], CmdBatch 2 [([3], [4]), ([1], [5])]]) < 2 ^ 64"
    using sample_db_rel(2) by (simp add: cmd_cost_def dense_def)
  show ?thesis
    using log_append_only [OF mem_rocks_laws mem_codec_laws sample_db_rel(1) room refl]
    by (simp add: new_entry_def)
qed

theorem append_read_back_witness:
  "(0::u64) = next_seq empty_db \<and> yields (ls_get_by_seq mem_rocks mem_codec sample_db 0) (Some (new_entry toy_sha 5 0 [1] [2]))
    \<and> yields (ls_get_seq_by_key mem_rocks sample_db [1]) (Some 0)
    \<and> yields (ls_latest mem_rocks mem_codec sample_db 1) [new_entry toy_sha 5 0 [1] [2]]
    \<and> yields (ls_get_by_seq mem_rocks mem_codec sample_db 4) None"
proof -
  have room: "unat (next_seq empty_db) + 1 < 2 ^ 64" by (simp add: empty_db_def)
  note full = append_read_back [OF mem_rocks_laws mem_codec_laws empty_db_rel(1) room sample_db_append refl]
  then have "(4::u64) \<noteq> 0 \<longrightarrow> yields (ls_get_by_seq mem_rocks mem_codec sample_db 4) (find (\<lambda>x. le_seq x = 4) [])" by blast
  with full show ?thesis by (simp add: new_entry_def)
qed

theorem seq_range_paged_complete_witness:
  "length [new_entry toy_sha 5 0 [1] [2]] \<le> 1 \<and>
    filter (\<lambda>e. 0 \<le> le_seq e \<and> ((0::u64) = 0 \<or> le_seq e < 0)) [new_entry toy_sha 5 0 [1] [2]] =
      [new_entry toy_sha 5 0 [1] [2]] @ (if (1::u64) = 0 then []
        else filter (\<lambda>e. 1 \<le> le_seq e \<and> ((0::u64) = 0 \<or> le_seq e < 0)) [new_entry toy_sha 5 0 [1] [2]])"
proof (rule seq_range_paged_complete [OF mem_rocks_laws mem_codec_laws sample_db_rel(1)])
  show "ls_seq_range_paged mem_rocks mem_codec sample_db 0 0 1 = Inr ([new_entry toy_sha 5 0 [1] [2]], 1)"
    by code_simp
qed simp


text \<open>An in-memory database that rejects its next write when the flag is set.\<close>

definition flaky_rocks :: "(bool \<times> families) rocksdb" where
  "flaky_rocks = \<lparr>rdb_get = (\<lambda>d c k. Inr (fmlookup (snd d c) k)),
     rdb_write = (\<lambda>d ops. if fst d then ((False, snd d), Inl ''disk full'')
        else ((False, fold apply_op ops (snd d)), Inr ())),
     rdb_iter = (\<lambda>d c mode. map Inr (scan (snd d c) mode))\<rparr>"

lemma flaky_rocks_laws: "rocks_laws flaky_rocks snd"
  by (auto simp: rocks_laws_def flaky_rocks_def split: if_splits)

text \<open>
  C36. A failed write leaves a gap: the counter has advanced although nothing was stored, so \<^verbatim>\<open>count()\<close>
  reports one entry more than the database holds, and the next successful append gets the number
  \<open>length es + 1\<close> although it is the entry at position \<open>length es\<close>.
\<close>

theorem failed_append_leaves_gap:
  assumes "rocks_laws R view" and "codec_laws C" and "log_rel C sha view db es" and "dense db es"
    and room: "length es + 2 < 2 ^ 64"
    and first: "ls_append R C sha now1 k1 d1 db = (db1, Inl (Err (RocksDb m)))"
    and second: "ls_append R C sha now2 k2 d2 db1 = (db2, Inr (seq, ts))"
  shows "log_rel C sha view db1 es \<and> unat (ls_count db1) = length es + 1 \<and> unat seq = length es + 1
    \<and> (\<exists>e. log_rel C sha view db2 (es @ [e]) \<and> le_seq e = seq \<and> le_data e = d2)"
proof -
  have n: "unat (next_seq db) = length es" using assms(4) by (rule dense_next)
  then have room1: "unat (next_seq db) + 1 < 2 ^ 64" using room by simp
  have db1: "log_rel C sha view db1 es" "next_seq db1 = next_seq db + 1"
    by (cases rule: ls_append_cases [OF assms(1-3) room1 first]; simp)+
  then have n1: "unat (next_seq db1) = length es + 1"
    using unat_next_seq_add [OF room1] n by simp
  then have room2: "unat (next_seq db1) + 1 < 2 ^ 64" using room by simp
  have "log_rel C sha view db2 (es @ [new_entry sha (word_of_int now2) (next_seq db1) k2 d2])" "seq = next_seq db1"
    by (cases rule: ls_append_cases [OF assms(1,2) db1(1) room2 second]; simp)+
  then show ?thesis using db1(1) n1 by (auto simp: ls_count_def)
qed

definition flaky_db :: "bool \<Rightarrow> u64 \<Rightarrow> (bool \<times> families) db" where
  "flaky_db b n = \<lparr>db_rocks = (b, \<lambda>_. fmempty), next_seq = n\<rparr>"

theorem failed_append_leaves_gap_witness:
  "log_rel mem_codec toy_sha snd (flaky_db False 1) []
    \<and> unat (ls_count (flaky_db False 1)) = length ([] :: log_entry list) + 1
    \<and> unat (1 :: u64) = length ([] :: log_entry list) + 1
    \<and> (\<exists>e. log_rel mem_codec toy_sha snd (fst (ls_append flaky_rocks mem_codec toy_sha 6 [1] [2]
          (flaky_db False 1))) ([] @ [e]) \<and> le_seq e = 1 \<and> le_data e = [2])"
proof (rule failed_append_leaves_gap [OF flaky_rocks_laws mem_codec_laws])
  show "log_rel mem_codec toy_sha snd (flaky_db True 0) []"
    by (simp add: log_rel_def log_fam_def flaky_db_def last_with_key_def)
  show "dense (flaky_db True 0) []" by (simp add: dense_def flaky_db_def)
  show "ls_append flaky_rocks mem_codec toy_sha 5 [1] [2] (flaky_db True 0) =
      (flaky_db False 1, Inl (Err (RocksDb ''disk full'')))"
    by (simp add: ls_append_def Let_def flaky_db_def flaky_rocks_def mem_codec_def timestamp_of_def)
  show "ls_append flaky_rocks mem_codec toy_sha 6 [1] [2] (flaky_db False 1) =
      (fst (ls_append flaky_rocks mem_codec toy_sha 6 [1] [2]
          (flaky_db False 1)), Inr (1, 6))"
    by (simp add: ls_append_def Let_def flaky_db_def flaky_rocks_def mem_codec_def timestamp_of_def)
qed simp

section \<open>Reopening\<close>

lemma db_check_schema_yields:
  assumes "rocks_laws R view"
    and "fmlookup (view d CfDefault) SCHEMA_VERSION_KEY \<in> {None, Some (u32_key CURRENT_SCHEMA_VERSION)}"
  obtains m where "db_check_schema R d = Inl (Err (RocksDb m))"
    | d' where "db_check_schema R d = Inr d'" and "\<And>c. c \<noteq> CfDefault \<Longrightarrow> view d' c = view d c"
proof (cases "rdb_get R d CfDefault SCHEMA_VERSION_KEY")
  case (Inl m)
  then show ?thesis by (intro that(1)) (simp add: db_check_schema_def)
next
  case (Inr got)
  then consider "got = None" | "got = Some (u32_key CURRENT_SCHEMA_VERSION)"
    using rocks_getD [OF assms(1) Inr] assms(2) by auto
  then show ?thesis
  proof cases
    case 1
    let ?ops = "[PutCf CfDefault SCHEMA_VERSION_KEY (u32_key CURRENT_SCHEMA_VERSION)]"
    obtain d' w where w: "rdb_write R d ?ops = (d', w)" by fastforce
    show ?thesis
    proof (cases w)
      case (Inl m)
      with 1 Inr w show ?thesis by (intro that(1)) (simp add: db_check_schema_def)
    next
      case ok: (Inr u)
      with rocks_writeD(1) [OF assms(1)] w have "view d' = fold apply_op ?ops (view d)" by simp
      with 1 Inr w ok show ?thesis by (intro that(2) [of d']) (simp_all add: db_check_schema_def)
    qed
  next
    case 2
    with Inr show ?thesis by (intro that(2) [of d]) (simp_all add: db_check_schema_def Let_def)
  qed
qed

lemma db_next_seq_yields:
  assumes "rocks_laws R view" and "log_fam C sha (view d) es"
  shows "yields (db_next_seq R d) (if es = [] then 0 else le_seq (last es) + 1)"
proof -
  have scan: "scan (view d CfLog) IterEnd = rev (map (log_kv C) es)" using assms(2) by (simp add: log_fam_def)
  show ?thesis
    using assms(1)
  proof (cases rule: rocks_iterD [of R view d CfLog IterEnd])
    case all
    with scan show ?thesis
      by (cases es rule: rev_cases) (simp_all add: db_next_seq_def)
  next
    case (cut n e)
    with scan show ?thesis
      by (cases es rule: rev_cases; cases n) (simp_all add: db_next_seq_def)
  qed
qed

text \<open>The entries are numbered from zero without a gap.\<close>

definition gapfree :: "log_entry list \<Rightarrow> bool" where
  "gapfree es \<longleftrightarrow> map (\<lambda>e. unat (le_seq e)) es = [0..<length es]"

lemma gapfree_dense:
  assumes "gapfree es" and "next_seq db = (if es = [] then 0 else le_seq (last es) + 1)" and "\<forall>e \<in> set es. le_seq e < - 1"
  shows "dense db es"
proof (cases es rule: rev_cases)
  case Nil
  then show ?thesis using assms by (simp add: dense_def)
next
  case (snoc ys y)
  with assms(1) have "unat (le_seq y) = length ys" by (simp add: gapfree_def)
  moreover have "unat (le_seq y) < 2 ^ 64 - 1"
    using assms(3) snoc by (simp add: word_less_nat_alt unsigned_minus_1_eq_mask mask_eq_exp_minus_1)
  moreover from calculation(1) have "le_seq y = of_nat (length ys)" by (metis word_unat_Rep_inverse)
  ultimately show ?thesis using assms(1,2) snoc by (simp add: dense_def gapfree_def)
qed

text \<open>Opening needs no gap-free log, only that the last number is not the largest one.\<close>

lemma db_open_yields:
  assumes laws: "rocks_laws R view" and fam: "log_fam C sha (view d) es"
    and schema: "fmlookup (view d CfDefault) SCHEMA_VERSION_KEY \<in> {None, Some (u32_key CURRENT_SCHEMA_VERSION)}"
    and numbers: "\<forall>e \<in> set es. le_seq e < - 1"
  shows "(\<exists>m. db_open R (Inr d) = Inl (Err (RocksDb m))) \<or>
    (\<exists>db. db_open R (Inr d) = Inr db \<and> log_rel C sha view db es \<and> (gapfree es \<longrightarrow> dense db es))"
proof (cases rule: db_check_schema_yields [OF laws schema])
  case 1
  then show ?thesis by (simp add: db_open_def)
next
  case (2 d')
  have fam': "log_fam C sha (view d') es" using fam 2(2) by (simp add: log_fam_def)
  let ?n = "if es = [] then 0 else le_seq (last es) + 1"
  let ?db = "\<lparr>db_rocks = d', next_seq = ?n\<rparr>"
  have "le_seq e < ?n" if e: "e \<in> set es" for e
  proof -
    have "fm_list (view d CfLog) = map (log_kv C) es" using fam by (simp add: log_fam_def)
    then have "sorted_wrt (\<lambda>a b. le_seq a < le_seq b) es" by (rule log_rows.rows_sorted)
    then have "le_seq e \<le> le_seq (last es)" using e by (rule sorted_last_max)
    moreover have "le_seq (last es) < - 1" using numbers e by (cases es rule: rev_cases) auto
    then have "le_seq (last es) + 1 \<noteq> 0" using u64_Suc_eq_0 [of "le_seq (last es)" "- 1"] by auto
    then have "le_seq (last es) < le_seq (last es) + 1" using u64_Suc_le_iff by blast
    ultimately show ?thesis using e by auto
  qed
  then have rel: "log_rel C sha view ?db es" using fam' by (simp add: log_rel_def)
  from db_next_seq_yields [OF laws fam'] 2(1) rel gapfree_dense [of es ?db] numbers show ?thesis
    by (auto simp: yields_def db_open_def)
qed

text \<open>
  Crash recovery of the log: opening a database whose log column family holds the entries \<open>es\<close>
  (with no schema version yet or the current one) gives, unless RocksDB reports an error, a store that
  holds exactly \<open>es\<close>; if their numbers are gap-free the counter is their count, so numbering goes on
  where it stopped.
\<close>

theorem db_open_restores:
  assumes "rocks_laws R view" and "log_fam C sha (view d) es"
    and "fmlookup (view d CfDefault) SCHEMA_VERSION_KEY \<in> {None, Some (u32_key CURRENT_SCHEMA_VERSION)}"
    and "\<forall>e \<in> set es. le_seq e < - 1"
  shows "(\<exists>m. db_open R (Inr d) = Inl (Err (RocksDb m))) \<or>
    (\<exists>db. db_open R (Inr d) = Inr db \<and> log_rel C sha view db es \<and> (gapfree es \<longrightarrow> dense db es))"
  by (rule db_open_yields [OF assms])

theorem db_open_restores_witness:
  "(\<exists>m. db_open mem_rocks (Inr (db_rocks sample_db)) = Inl (Err (RocksDb m))) \<or>
    (\<exists>db. db_open mem_rocks (Inr (db_rocks sample_db)) = Inr db
      \<and> log_rel mem_codec toy_sha (\<lambda>d. d) db [new_entry toy_sha 5 0 [1] [2]]
      \<and> dense db [new_entry toy_sha 5 0 [1] [2]])"
proof -
  have fam: "log_fam mem_codec toy_sha (db_rocks sample_db) [new_entry toy_sha 5 0 [1] [2]]"
    using sample_db_rel(1) by (simp add: log_rel_def)
  have schema: "fmlookup (db_rocks sample_db CfDefault) SCHEMA_VERSION_KEY \<in> {None, Some (u32_key CURRENT_SCHEMA_VERSION)}"
    by code_simp
  show ?thesis using db_open_restores [where view = "\<lambda>d. d", OF mem_rocks_laws fam schema] by (simp add: gapfree_def word_gt_0)
qed

end
