(* ===== verification/Storage_Heads.thy ===== *)
theory Storage_Heads
  imports Storage_Log
begin

text \<open>
  \<^verbatim>\<open>settled-storage\<close>: the store of signed tree heads (\<^verbatim>\<open>head_store.rs\<close>), the key chain
  (\<^verbatim>\<open>key_store.rs\<close>) and the check of a stored tree head (\<^verbatim>\<open>verify.rs\<close>). Both stores keep one record
  per number (tree size, key version) in a column family; \<open>heads_fam\<close> and \<open>keys_fam\<close> relate the
  column family to the list of records in ascending order.
\<close>

section \<open>Tree heads\<close>

definition hs_write :: "'d rocksdb \<Rightarrow> codec \<Rightarrow> signed_tree_head \<Rightarrow> 'd db \<Rightarrow> 'd db \<times> (storage_error, unit) result" where
  "hs_write R C sth db =
     (case from_lib Encode (enc_sth C (sth_to_store_proto sth)) of Inl e \<Rightarrow> (db, Inl e)
      | Inr buf \<Rightarrow>
        (let (d', r) = rdb_write R (db_rocks db) [PutCf CfHeads (u64_key (sth_tree_size sth)) buf]
         in (db\<lparr>db_rocks := d'\<rparr>, from_lib RocksDb r)))"

definition decode_sth :: "codec \<Rightarrow> bytes \<Rightarrow> (storage_error, signed_tree_head) result" where
  "decode_sth C v = bindR (from_lib Decode (dec_sth C v)) sth_try_from"

definition hs_latest :: "'d rocksdb \<Rightarrow> codec \<Rightarrow> 'd db \<Rightarrow> (storage_error, signed_tree_head option) result" where
  "hs_latest R C db = (case rdb_iter R (db_rocks db) CfHeads IterEnd of
       Inr (_, v) # _ \<Rightarrow> bindR (decode_sth C v) (\<lambda>s. Inr (Some s))
     | Inl e # _ \<Rightarrow> Inl (Err (RocksDb e))
     | [] \<Rightarrow> Inr None)"

definition hs_at_size :: "'d rocksdb \<Rightarrow> codec \<Rightarrow> 'd db \<Rightarrow> u64 \<Rightarrow> (storage_error, signed_tree_head option) result" where
  "hs_at_size R C db tree_size =
     bindR (from_lib RocksDb (rdb_get R (db_rocks db) CfHeads (u64_key tree_size))) (\<lambda>got. case got of
       Some v \<Rightarrow> bindR (decode_sth C v) (\<lambda>s. Inr (Some s))
     | None \<Rightarrow> Inr None)"

definition hs_range :: "'d rocksdb \<Rightarrow> codec \<Rightarrow> 'd db \<Rightarrow> u64 \<Rightarrow> u64 \<Rightarrow> (storage_error, signed_tree_head list) result" where
  "hs_range R C db from_size to_size =
     for_items (\<lambda>result (k, v).
         bindR (corrupt ''bad tree_size key length'' (try_into k)) (\<lambda>b.
           let size = u64_from_be b in
           if to_size < size then Inr (Break result)
           else bindR (decode_sth C v) (\<lambda>s. Inr (Continue (result @ [s])))))
       [] (rdb_iter R (db_rocks db) CfHeads (IterFrom (u64_key from_size)))"

definition verify_sth :: "ed25519 \<Rightarrow> signed_tree_head \<Rightarrow> bool" where
  "verify_sth ed sth =
     (if \<not> ed_key_ok ed (sth_public_key sth) then False
      else case ed_sig_from_slice ed (to_vec (sth_signature sth)) of None \<Rightarrow> False
        | Some sig \<Rightarrow> ed_verify_strict ed (sth_public_key sth)
            (to_vec (signing_payload (sth_tree_size sth) (sth_root_hash sth) (sth_timestamp_ns sth))) sig)"

definition sth_value :: "codec \<Rightarrow> signed_tree_head \<Rightarrow> bytes" where
  "sth_value C s = (case enc_sth C (sth_to_store_proto s) of Inr b \<Rightarrow> b | Inl _ \<Rightarrow> [])"

abbreviation sth_kv :: "codec \<Rightarrow> signed_tree_head \<Rightarrow> bytes \<times> bytes" where
  "sth_kv C s \<equiv> (u64_key (sth_tree_size s), sth_value C s)"

definition heads_fam :: "codec \<Rightarrow> families \<Rightarrow> signed_tree_head list \<Rightarrow> bool" where
  "heads_fam C f hs \<longleftrightarrow> fm_list (f CfHeads) = map (sth_kv C) hs"

interpretation head_rows: record_store u64_key sth_tree_size "sth_value C" for C
  by unfold_locales

lemma codec_sthD:
  assumes "codec_laws C"
  shows "enc_sth C (sth_to_store_proto s) = Inr (sth_value C s)" and "decode_sth C (sth_value C s) = Inr s"
proof -
  obtain b where b: "enc_sth C (sth_to_store_proto s) = Inr b" "dec_sth C b = Inr (sth_to_store_proto s)"
    using assms unfolding codec_laws_def by blast
  then show "enc_sth C (sth_to_store_proto s) = Inr (sth_value C s)" by (simp add: sth_value_def)
  with b show "decode_sth C (sth_value C s) = Inr s" by (simp add: decode_sth_def)
qed

lemma heads_sorted: "heads_fam C f hs \<Longrightarrow> sorted_wrt (\<lambda>a b. sth_tree_size a < sth_tree_size b) hs"
  unfolding heads_fam_def by (rule head_rows.rows_sorted)

lemma hs_write_cases:
  assumes laws: "rocks_laws R view" "codec_laws C" and rel: "heads_fam C (view (db_rocks db)) hs"
    and run: "hs_write R C s db = (db', r)"
  obtains (ok) "r = Inr ()" and "heads_fam C (view (db_rocks db')) (upd_by sth_tree_size s hs)"
      and "next_seq db' = next_seq db" and "\<And>c. c \<noteq> CfHeads \<Longrightarrow> view (db_rocks db') c = view (db_rocks db) c"
    | (fail) m where "r = Inl (Err (RocksDb m))" and "view (db_rocks db') = view (db_rocks db)"
      and "next_seq db' = next_seq db"
proof -
  let ?ops = "[PutCf CfHeads (u64_key (sth_tree_size s)) (sth_value C s)]"
  obtain d' w where w: "rdb_write R (db_rocks db) ?ops = (d', w)" by fastforce
  with run have db': "db' = db\<lparr>db_rocks := d'\<rparr>" and r: "r = from_lib RocksDb w"
    by (auto simp: hs_write_def codec_sthD [OF laws(2)])
  show ?thesis
  proof (cases w)
    case (Inl m)
    with rocks_writeD(2) [OF laws(1)] w db' r show ?thesis by (intro fail [of m]) auto
  next
    case (Inr u)
    with rocks_writeD(1) [OF laws(1)] w have v: "view d' = fold apply_op ?ops (view (db_rocks db))" by simp
    have "heads_fam C (view d') (upd_by sth_tree_size s hs)"
      using head_rows.rows_put [of _ C hs s] rel unfolding heads_fam_def v by simp
    with db' r Inr v show ?thesis by (intro ok) simp_all
  qed
qed

lemma hs_latest_yields:
  assumes "rocks_laws R view" and "codec_laws C" and "heads_fam C (view (db_rocks db)) hs"
  shows "yields (hs_latest R C db) (if hs = [] then None else Some (last hs))"
proof -
  have scan: "scan (view (db_rocks db) CfHeads) IterEnd = rev (map (sth_kv C) hs)"
    using assms(3) by (simp add: heads_fam_def)
  show ?thesis
    using assms(1)
  proof (cases rule: rocks_iterD [of R view "db_rocks db" CfHeads IterEnd])
    case all
    with scan show ?thesis
      by (cases hs rule: rev_cases) (simp_all add: hs_latest_def codec_sthD [OF assms(2)])
  next
    case (cut n e)
    with scan show ?thesis
      by (cases hs rule: rev_cases; cases n) (simp_all add: hs_latest_def codec_sthD [OF assms(2)])
  qed
qed

lemma hs_at_size_yields:
  assumes "rocks_laws R view" and "codec_laws C" and "heads_fam C (view (db_rocks db)) hs"
  shows "yields (hs_at_size R C db n) (find (\<lambda>s. sth_tree_size s = n) hs)"
proof (cases "rdb_get R (db_rocks db) CfHeads (u64_key n)")
  case (Inl e)
  then show ?thesis by (simp add: hs_at_size_def)
next
  case (Inr got)
  from rocks_getD [OF assms(1) Inr] head_rows.rows_lookup assms(3)
  have "got = map_option (sth_value C) (find (\<lambda>s. sth_tree_size s = n) hs)" unfolding heads_fam_def by blast
  with Inr show ?thesis
    by (cases "find (\<lambda>s. sth_tree_size s = n) hs") (simp_all add: hs_at_size_def codec_sthD [OF assms(2)])
qed

lemma hs_range_yields:
  assumes "rocks_laws R view" and "codec_laws C" and "heads_fam C (view (db_rocks db)) hs"
  shows "yields (hs_range R C db lo hi) (filter (\<lambda>s. lo \<le> sth_tree_size s \<and> sth_tree_size s \<le> hi) hs)"
proof -
  let ?f = "\<lambda>result (k, v). bindR (corrupt ''bad tree_size key length'' (try_into k)) (\<lambda>b.
           let size = u64_from_be b in
           if hi < size then Inr (Break result)
           else bindR (decode_sth C v) (\<lambda>s. Inr (Continue (result @ [s]))))"
  have "for_items ?f acc (map Inr (map (sth_kv C) xs)) = Inr (acc @ filter (\<lambda>s. sth_tree_size s \<le> hi) xs)"
    if "sorted_wrt (\<lambda>a b. sth_tree_size a < sth_tree_size b) xs" for acc xs
    using that
  proof (induction xs arbitrary: acc)
    case (Cons x xs)
    show ?case
    proof (cases "hi < sth_tree_size x")
      case True
      with Cons.prems have "filter (\<lambda>s. sth_tree_size s \<le> hi) (x # xs) = []"
        by (auto simp: filter_empty_conv not_le intro: order.strict_trans)
      with True show ?thesis by (simp add: Let_def)
    next
      case False
      with Cons show ?thesis by (simp add: codec_sthD [OF assms(2)] Let_def not_less)
    qed
  qed simp
  from this [of "filter (\<lambda>s. lo \<le> sth_tree_size s) hs" "[]"]
  have "for_items ?f [] (map Inr (scan (view (db_rocks db) CfHeads) (IterFrom (u64_key lo)))) =
      Inr (filter (\<lambda>s. lo \<le> sth_tree_size s \<and> sth_tree_size s \<le> hi) hs)"
    unfolding head_rows.rows_from [OF assms(3) [unfolded heads_fam_def]]
    using heads_sorted [OF assms(3)] by (simp add: sorted_wrt_filter conj_commute)
  from for_items_yields [OF assms(1) this] show ?thesis by (simp add: hs_range_def)
qed

lemma verify_sth_signed:
  assumes "ed_laws ed"
  shows "verify_sth ed \<lparr>sth_tree_size = n, sth_root_hash = root, sth_timestamp_ns = ts,
    sth_signature = ed_sign ed sk (to_vec (signing_payload n root ts)), sth_public_key = ed_public ed sk,
    sth_key_version = v\<rparr>"
  by (simp add: verify_sth_def ed_lawsD [OF assms])

text \<open>
  The head store: after a successful write of a tree head, reading its size returns it, the reads of
  all other sizes are as before, and \<^verbatim>\<open>latest\<close> returns the head with the largest size. A failed write
  changes nothing.
\<close>

theorem head_store_write_read:
  assumes "rocks_laws R view" and "codec_laws C" and "heads_fam C (view (db_rocks db)) hs"
    and "hs_write R C s db = (db', r)"
  shows "(r = Inr () \<and> yields (hs_at_size R C db' (sth_tree_size s)) (Some s)
      \<and> (\<forall>n. n \<noteq> sth_tree_size s \<longrightarrow> yields (hs_at_size R C db' n) (find (\<lambda>x. sth_tree_size x = n) hs))
      \<and> (\<exists>top. yields (hs_latest R C db') (Some top) \<and> top \<in> insert s (set hs)
           \<and> (\<forall>x \<in> insert s (set hs). sth_tree_size x \<le> sth_tree_size top)))
    \<or> ((\<exists>m. r = Inl (Err (RocksDb m))) \<and> view (db_rocks db') = view (db_rocks db))"
proof (cases rule: hs_write_cases [OF assms])
  case 1
  let ?hs = "upd_by sth_tree_size s hs"
  have ne: "?hs \<noteq> []" by (simp add: upd_by_def)
  have top: "sth_tree_size x \<le> sth_tree_size (last ?hs)" if "x \<in> set ?hs" for x
    by (rule sorted_last_max [OF heads_sorted [OF 1(2)] that])
  have mem: "last ?hs \<in> insert s (set hs)" using last_in_set [OF ne] unfolding set_upd_by by blast
  have "sth_tree_size x \<le> sth_tree_size (last ?hs)" if "x \<in> insert s (set hs)" for x
  proof (cases "sth_tree_size x = sth_tree_size s")
    case True
    with top [of s] show ?thesis by (simp add: set_upd_by)
  next
    case False
    with that top [of x] show ?thesis by (auto simp: set_upd_by)
  qed
  with mem have "\<exists>top. yields (hs_latest R C db') (Some top) \<and> top \<in> insert s (set hs)
      \<and> (\<forall>x \<in> insert s (set hs). sth_tree_size x \<le> sth_tree_size top)"
    using hs_latest_yields [OF assms(1,2) 1(2)] ne by auto
  moreover have at: "yields (hs_at_size R C db' n) (if n = sth_tree_size s then Some s
      else find (\<lambda>x. sth_tree_size x = n) hs)" for n
    using hs_at_size_yields [OF assms(1,2) 1(2), of n] unfolding find_upd_by .
  have "yields (hs_at_size R C db' n) (find (\<lambda>x. sth_tree_size x = n) hs)" if "n \<noteq> sth_tree_size s" for n
    using at [of n] that by simp
  moreover have "yields (hs_at_size R C db' (sth_tree_size s)) (Some s)" using at [of "sth_tree_size s"] by simp
  ultimately show ?thesis using 1(1) by blast
next
  case (2 m)
  then show ?thesis by blast
qed

definition sample_sth :: signed_tree_head where
  "sample_sth = \<lparr>sth_tree_size = 1, sth_root_hash = arr_of [2], sth_timestamp_ns = 9, sth_signature = arr_of [3],
     sth_public_key = arr_of [4], sth_key_version = 1\<rparr>"

lemma empty_heads: "heads_fam C (db_rocks empty_db) []"
  by (simp add: heads_fam_def empty_db_def)

theorem head_store_write_read_witness:
  "yields (hs_at_size mem_rocks mem_codec (fst (hs_write mem_rocks mem_codec sample_sth empty_db)) (sth_tree_size sample_sth))
      (Some sample_sth)
    \<and> yields (hs_at_size mem_rocks mem_codec (fst (hs_write mem_rocks mem_codec sample_sth empty_db)) (sth_tree_size sample_sth + 1)) None
    \<and> yields (hs_latest mem_rocks mem_codec (fst (hs_write mem_rocks mem_codec sample_sth empty_db))) (Some sample_sth)"
proof -
  have run: "hs_write mem_rocks mem_codec sample_sth empty_db = (fst (hs_write mem_rocks mem_codec sample_sth empty_db), Inr ())"
    by (simp add: hs_write_def mem_rocks_def mem_codec_def)
  note full = head_store_write_read [where view = "\<lambda>d. d", OF mem_rocks_laws mem_codec_laws empty_heads run]
  then have "\<forall>n. n \<noteq> sth_tree_size sample_sth \<longrightarrow> yields (hs_at_size mem_rocks mem_codec
      (fst (hs_write mem_rocks mem_codec sample_sth empty_db)) n) (find (\<lambda>x. sth_tree_size x = n) [])" by auto
  then have "yields (hs_at_size mem_rocks mem_codec (fst (hs_write mem_rocks mem_codec sample_sth empty_db))
      (sth_tree_size sample_sth + 1)) None" by simp
  with full show ?thesis by auto
qed

section \<open>The key chain\<close>

record key_record =
  kr_version :: u32
  kr_public_key :: public_key
  kr_activated_at_tree_size :: u64

definition key_to_proto :: "key_record \<Rightarrow> key_record_proto" where
  "key_to_proto r = \<lparr>kp_version = kr_version r, kp_public_key = to_vec (kr_public_key r),
     kp_activated_at_tree_size = kr_activated_at_tree_size r\<rparr>"

definition ks_put :: "'d rocksdb \<Rightarrow> codec \<Rightarrow> key_record \<Rightarrow> 'd db \<Rightarrow> 'd db \<times> (storage_error, unit) result" where
  "ks_put R C record db =
     (case from_lib Encode (enc_key C (key_to_proto record)) of Inl e \<Rightarrow> (db, Inl e)
      | Inr buf \<Rightarrow>
        (let (d', r) = rdb_write R (db_rocks db) [PutCf CfKeys (u32_key (kr_version record)) buf]
         in (db\<lparr>db_rocks := d'\<rparr>, from_lib RocksDb r)))"

definition decode_key :: "codec \<Rightarrow> bytes \<Rightarrow> (storage_error, key_record) result" where
  "decode_key C v = bindR (from_lib Decode (dec_key C v)) (\<lambda>p.
     bindR (corrupt ''KeyRecord public_key must be 32 bytes'' (try_into (kp_public_key p))) (\<lambda>pk.
       Inr \<lparr>kr_version = kp_version p, kr_public_key = pk, kr_activated_at_tree_size = kp_activated_at_tree_size p\<rparr>))"

definition ks_get :: "'d rocksdb \<Rightarrow> codec \<Rightarrow> 'd db \<Rightarrow> u32 \<Rightarrow> (storage_error, key_record option) result" where
  "ks_get R C db version =
     bindR (from_lib RocksDb (rdb_get R (db_rocks db) CfKeys (u32_key version))) (\<lambda>got. case got of
       Some v \<Rightarrow> bindR (decode_key C v) (\<lambda>r. Inr (Some r))
     | None \<Rightarrow> Inr None)"

definition ks_latest :: "'d rocksdb \<Rightarrow> codec \<Rightarrow> 'd db \<Rightarrow> (storage_error, key_record option) result" where
  "ks_latest R C db = (case rdb_iter R (db_rocks db) CfKeys IterEnd of
       Inr (_, v) # _ \<Rightarrow> bindR (decode_key C v) (\<lambda>r. Inr (Some r))
     | Inl e # _ \<Rightarrow> Inl (Err (RocksDb e))
     | [] \<Rightarrow> Inr None)"

definition ks_all :: "'d rocksdb \<Rightarrow> codec \<Rightarrow> 'd db \<Rightarrow> (storage_error, key_record list) result" where
  "ks_all R C db =
     for_items (\<lambda>records (k, v). bindR (decode_key C v) (\<lambda>r. Inr (Continue (records @ [r]))))
       [] (rdb_iter R (db_rocks db) CfKeys IterStart)"

definition key_value :: "codec \<Rightarrow> key_record \<Rightarrow> bytes" where
  "key_value C r = (case enc_key C (key_to_proto r) of Inr b \<Rightarrow> b | Inl _ \<Rightarrow> [])"

abbreviation key_kv :: "codec \<Rightarrow> key_record \<Rightarrow> bytes \<times> bytes" where
  "key_kv C r \<equiv> (u32_key (kr_version r), key_value C r)"

definition keys_fam :: "codec \<Rightarrow> families \<Rightarrow> key_record list \<Rightarrow> bool" where
  "keys_fam C f ks \<longleftrightarrow> fm_list (f CfKeys) = map (key_kv C) ks"

interpretation key_rows: record_store u32_key kr_version "key_value C" for C
  by unfold_locales

lemma codec_keyD:
  assumes "codec_laws C"
  shows "enc_key C (key_to_proto r) = Inr (key_value C r)" and "decode_key C (key_value C r) = Inr r"
proof -
  obtain b where b: "enc_key C (key_to_proto r) = Inr b" "dec_key C b = Inr (key_to_proto r)"
    using assms unfolding codec_laws_def by blast
  then show "enc_key C (key_to_proto r) = Inr (key_value C r)" by (simp add: key_value_def)
  with b show "decode_key C (key_value C r) = Inr r" by (simp add: decode_key_def key_to_proto_def)
qed

lemma keys_sorted: "keys_fam C f ks \<Longrightarrow> sorted_wrt (\<lambda>a b. kr_version a < kr_version b) ks"
  unfolding keys_fam_def by (rule key_rows.rows_sorted)

lemma ks_put_cases:
  assumes laws: "rocks_laws R view" "codec_laws C" and rel: "keys_fam C (view (db_rocks db)) ks"
    and run: "ks_put R C k db = (db', r)"
  obtains (ok) "r = Inr ()" and "keys_fam C (view (db_rocks db')) (upd_by kr_version k ks)"
      and "next_seq db' = next_seq db" and "\<And>c. c \<noteq> CfKeys \<Longrightarrow> view (db_rocks db') c = view (db_rocks db) c"
    | (fail) m where "r = Inl (Err (RocksDb m))" and "view (db_rocks db') = view (db_rocks db)"
      and "next_seq db' = next_seq db"
proof -
  let ?ops = "[PutCf CfKeys (u32_key (kr_version k)) (key_value C k)]"
  obtain d' w where w: "rdb_write R (db_rocks db) ?ops = (d', w)" by fastforce
  with run have db': "db' = db\<lparr>db_rocks := d'\<rparr>" and r: "r = from_lib RocksDb w"
    by (auto simp: ks_put_def codec_keyD [OF laws(2)])
  show ?thesis
  proof (cases w)
    case (Inl m)
    with rocks_writeD(2) [OF laws(1)] w db' r show ?thesis by (intro fail [of m]) auto
  next
    case (Inr u)
    with rocks_writeD(1) [OF laws(1)] w have v: "view d' = fold apply_op ?ops (view (db_rocks db))" by simp
    have "keys_fam C (view d') (upd_by kr_version k ks)"
      using key_rows.rows_put [of _ C ks k] rel unfolding keys_fam_def v by simp
    with db' r Inr v show ?thesis by (intro ok) simp_all
  qed
qed

lemma ks_latest_yields:
  assumes "rocks_laws R view" and "codec_laws C" and "keys_fam C (view (db_rocks db)) ks"
  shows "yields (ks_latest R C db) (if ks = [] then None else Some (last ks))"
proof -
  have scan: "scan (view (db_rocks db) CfKeys) IterEnd = rev (map (key_kv C) ks)"
    using assms(3) by (simp add: keys_fam_def)
  show ?thesis
    using assms(1)
  proof (cases rule: rocks_iterD [of R view "db_rocks db" CfKeys IterEnd])
    case all
    with scan show ?thesis
      by (cases ks rule: rev_cases) (simp_all add: ks_latest_def codec_keyD [OF assms(2)])
  next
    case (cut n e)
    with scan show ?thesis
      by (cases ks rule: rev_cases; cases n) (simp_all add: ks_latest_def codec_keyD [OF assms(2)])
  qed
qed

lemma ks_get_yields:
  assumes "rocks_laws R view" and "codec_laws C" and "keys_fam C (view (db_rocks db)) ks"
  shows "yields (ks_get R C db v) (find (\<lambda>k. kr_version k = v) ks)"
proof (cases "rdb_get R (db_rocks db) CfKeys (u32_key v)")
  case (Inl e)
  then show ?thesis by (simp add: ks_get_def)
next
  case (Inr got)
  from rocks_getD [OF assms(1) Inr] key_rows.rows_lookup assms(3)
  have "got = map_option (key_value C) (find (\<lambda>k. kr_version k = v) ks)" unfolding keys_fam_def by blast
  with Inr show ?thesis
    by (cases "find (\<lambda>k. kr_version k = v) ks") (simp_all add: ks_get_def codec_keyD [OF assms(2)])
qed

lemma ks_all_yields:
  assumes "rocks_laws R view" and "codec_laws C" and "keys_fam C (view (db_rocks db)) ks"
  shows "yields (ks_all R C db) ks"
proof -
  let ?f = "\<lambda>records (k, v). bindR (decode_key C v) (\<lambda>r. Inr (Continue (records @ [r])))"
  have "for_items ?f acc (map Inr (map (key_kv C) xs)) = Inr (acc @ xs)" for acc xs
    by (induction xs arbitrary: acc) (simp_all add: codec_keyD [OF assms(2)])
  from this [of "[]" ks] assms(3)
  have "for_items ?f [] (map Inr (scan (view (db_rocks db) CfKeys) IterStart)) = Inr ks"
    by (simp add: keys_fam_def)
  from for_items_yields [OF assms(1) this] show ?thesis by (simp add: ks_all_def)
qed

text \<open>
  The key chain: after a successful put of a record, reading its version returns it, \<^verbatim>\<open>all\<close> lists
  exactly the stored records with it in strictly ascending version order, and \<^verbatim>\<open>latest\<close> returns the
  last of that list.
\<close>

theorem key_store_put_read:
  assumes "rocks_laws R view" and "codec_laws C" and "keys_fam C (view (db_rocks db)) ks"
    and "ks_put R C k db = (db', Inr ())"
  shows "\<exists>ks'. yields (ks_all R C db') ks' \<and> set ks' = insert k {x \<in> set ks. kr_version x \<noteq> kr_version k}
    \<and> sorted_wrt (\<lambda>a b. kr_version a < kr_version b) ks'
    \<and> yields (ks_latest R C db') (Some (last ks')) \<and> yields (ks_get R C db' (kr_version k)) (Some k)"
proof (cases rule: ks_put_cases [OF assms])
  case 1
  have "upd_by kr_version k ks \<noteq> []" by (simp add: upd_by_def)
  with ks_all_yields [OF assms(1,2) 1(2)] ks_latest_yields [OF assms(1,2) 1(2)] keys_sorted [OF 1(2)]
    ks_get_yields [OF assms(1,2) 1(2), of "kr_version k"] show ?thesis
    by (intro exI [of _ "upd_by kr_version k ks"]) (simp add: set_upd_by find_upd_by)
next
  case (2 m)
  then show ?thesis by simp
qed

lemma empty_keys: "keys_fam C (db_rocks empty_db) []"
  by (simp add: keys_fam_def empty_db_def)

theorem key_store_put_read_witness:
  "\<exists>ks'. yields (ks_all mem_rocks mem_codec (fst (ks_put mem_rocks mem_codec
        \<lparr>kr_version = 1, kr_public_key = arr_of [4], kr_activated_at_tree_size = 0\<rparr> empty_db))) ks'
    \<and> set ks' = insert \<lparr>kr_version = 1, kr_public_key = arr_of [4], kr_activated_at_tree_size = 0\<rparr>
        {x \<in> set []. kr_version x \<noteq> kr_version \<lparr>kr_version = 1, kr_public_key = arr_of [4], kr_activated_at_tree_size = 0\<rparr>}
    \<and> sorted_wrt (\<lambda>a b. kr_version a < kr_version b) ks'
    \<and> yields (ks_latest mem_rocks mem_codec (fst (ks_put mem_rocks mem_codec
        \<lparr>kr_version = 1, kr_public_key = arr_of [4], kr_activated_at_tree_size = 0\<rparr> empty_db))) (Some (last ks'))
    \<and> yields (ks_get mem_rocks mem_codec (fst (ks_put mem_rocks mem_codec
        \<lparr>kr_version = 1, kr_public_key = arr_of [4], kr_activated_at_tree_size = 0\<rparr> empty_db))
        (kr_version \<lparr>kr_version = 1, kr_public_key = arr_of [4], kr_activated_at_tree_size = 0\<rparr>))
      (Some \<lparr>kr_version = 1, kr_public_key = arr_of [4], kr_activated_at_tree_size = 0\<rparr>)"
  by (rule key_store_put_read [where view = "\<lambda>d. d", OF mem_rocks_laws mem_codec_laws empty_keys])
    (simp add: ks_put_def mem_rocks_def mem_codec_def)

end
