(* ===== verification/Core_Merkle.thy ===== *)
theory Core_Merkle
  imports Core_Hash
begin

text \<open>
  \<^verbatim>\<open>settled-core/src/merkle.rs\<close>: the split point \<open>merkle_k\<close> (Rust \<^verbatim>\<open>k\<close>), the recursive Merkle
  root \<open>mth\<close> over a slice of leaf hashes, and the incremental \<^verbatim>\<open>MerkleTree\<close>, which keeps one
  hash per level (the frontier) and the number of leaves. Both roots are shown equal to the abstract
  \<open>MTH\<close>: \<open>mth\<close> directly, the incremental tree through the invariant \<open>mt_inv\<close>, which says for
  which leaves a frontier stands. The locale \<open>split_fn\<close> is the contract of a split-point routine (the
  code has three of them), \<open>leaf_accumulator\<close> the contract the server relies on when it appends
  leaf hashes and reads the root.
\<close>

section \<open>Split points\<close>

locale split_fn =
  fixes split :: "u64 \<Rightarrow> u64 option" and lim :: nat
  assumes split_law: "1 < unat n \<Longrightarrow> unat n \<le> lim \<Longrightarrow>
    \<exists>s d. split n = Some s \<and> unat s = 2 ^ d \<and> unat s < unat n \<and> unat n \<le> 2 * unat s"
begin

lemma split_value:
  assumes "1 < unat n" and "unat n \<le> lim"
  obtains s where "split n = Some s" and "unat s = kpow (unat n)" and "0 < unat s" and "unat s < unat n"
proof -
  obtain s d where s: "split n = Some s" "unat s = 2 ^ d" "unat s < unat n" "unat n \<le> 2 * unat s"
    using split_law [OF assms] by blast
  moreover from s have "kpow (unat n) = unat s"
    using kpow_unique [of d "unat n"] by simp
  ultimately show ?thesis using that [of s] by simp
qed

lemma split_kpow:
  assumes "1 < unat n" and "unat n \<le> lim"
  shows "split n = Some (of_nat (kpow (unat n)))"
  by (rule split_value [OF assms]) (metis word_unat_Rep_inverse)

end

definition merkle_k :: "u64 \<Rightarrow> ('e, u64) result" where
  "merkle_k n = (if 1 < n then Inr (shl64 1 (63 - leading_zeros (n - 1)))
                 else Inl (Panic AssertFailed))"

text \<open>The shift by the position of the highest bit of \<open>n - 1\<close> meets the contract.\<close>

lemma top_bit_split:
  assumes "1 < n"
  shows "unat (shl64 1 (63 - leading_zeros (n - 1))) = 2 ^ (63 - leading_zeros (n - 1))"
    and "2 ^ (63 - leading_zeros (n - 1)) < unat n"
    and "unat n \<le> 2 * 2 ^ (63 - leading_zeros (n - 1))"
proof -
  let ?i = "63 - leading_zeros (n - 1)"
  have nz: "n - 1 \<noteq> 0" using assms by auto
  have un: "unat (n - 1) = unat n - 1"
    using assms by (metis order.strict_trans unat_minus_one word_not_simps(1) word_gt_0)
  have "unat n > 0" using assms by (simp add: word_less_nat_alt)
  then show "2 ^ ?i < unat n" and "unat n \<le> 2 * 2 ^ ?i"
    using leading_zeros_bounds [OF nz] un by (simp_all del: One_nat_def)
  show "unat (shl64 1 ?i) = 2 ^ ?i"
    by (simp add: shl64_def push_bit_of_1 unat_u64_2p)
qed

lemma merkle_k_kpow:
  assumes "1 < n" and "n < 2 ^ 64"
  shows "merkle_k (of_nat n) = Inr (of_nat (kpow n))"
proof -
  have un: "unat (of_nat n :: u64) = n" using assms(2) by (rule unat_of_nat_u64)
  then have gt: "1 < (of_nat n :: u64)" using assms(1) by (simp add: word_less_nat_alt)
  let ?s = "shl64 1 (63 - leading_zeros ((of_nat n :: u64) - 1))"
  have "unat ?s = kpow n"
    using top_bit_split [OF gt] un by (metis kpow_unique power_Suc)
  then have "?s = of_nat (kpow n)" by (metis word_unat_Rep_inverse)
  with gt show ?thesis by (simp add: merkle_k_def)
qed

section \<open>The recursive root\<close>

text \<open>
  \<^verbatim>\<open>mth\<close>. The recursive calls slice at \<open>split\<close>; the guard before them is the range condition of
  the slices together with the non-emptiness that the two \<^verbatim>\<open>unwrap\<close>s need, and it holds for every
  slice (\<open>mth_eq\<close>), whose length is below \<open>2 ^ 64\<close>.
\<close>

function mth :: "sha256 \<Rightarrow> hash list \<Rightarrow> ('e, hash option) result" where
  "mth sha leaf_hashes = (let n = length leaf_hashes in
     if n = 0 then Inr None
     else if n = 1 then Inr (Some (leaf_hashes ! 0))
     else bindR (merkle_k (of_nat n)) (\<lambda>s. let split = unat s in
       if 0 < split \<and> split < n then
         bindR (mth sha (take split leaf_hashes)) (\<lambda>l. bindR (unwrap l) (\<lambda>left.
         bindR (mth sha (drop split leaf_hashes)) (\<lambda>r. bindR (unwrap r) (\<lambda>right.
           Inr (Some (node_hash sha left right))))))
       else Inl (Panic IndexOutOfBounds)))"
  by pat_completeness auto
termination
  by (relation "measure (\<lambda>(sha, xs). length xs)") auto

declare mth.simps [simp del]

theorem mth_eq:
  "length xs < 2 ^ 64 \<Longrightarrow>
   (mth sha xs :: ('e, hash option) result) = Inr (if xs = [] then None else Some (MTH (node_hash sha) xs))"
proof (induction xs rule: length_induct)
  case (1 xs)
  let ?k = "kpow (length xs)"
  consider "xs = []" | "length xs = 1" | "1 < length xs"
    by (cases xs; cases "length xs = 1") auto
  then show ?case
  proof cases
    case 1
    then show ?thesis by (simp add: mth.simps)
  next
    case 2
    then obtain x where "xs = [x]" by (auto simp: length_Suc_conv)
    then show ?thesis by (simp add: mth.simps)
  next
    case 3
    have k: "?k < 2 ^ 64" using "1.prems" kpow_less [OF 3] by simp
    have sub: "(mth sha ys :: ('e, hash option) result) = Inr (Some (MTH (node_hash sha) ys))"
      if "ys = take ?k xs \<or> ys = drop ?k xs" for ys
      using that "1.IH" "1.prems" 3 kpow_less [OF 3] diff_kpow_less [OF 3] by (auto simp: not_le)
    have mk: "(merkle_k (of_nat (length xs)) :: ('e, u64) result) = Inr (of_nat ?k)"
      using 3 "1.prems" by (rule merkle_k_kpow)
    show ?thesis
      using 3 k mk sub unat_of_nat_u64 [OF k]
      by (subst mth.simps) (auto simp: Let_def MTH_split)
  qed
qed

section \<open>The split contract holds for \<open>merkle_k\<close>\<close>

interpretation merkle_split: split_fn
  "\<lambda>n. case (merkle_k n :: (unit, u64) result) of Inl e \<Rightarrow> None | Inr s \<Rightarrow> Some s" "2 ^ 64"
proof
  fix n :: u64
  assume "1 < unat n"
  then have "1 < n" by (simp add: word_less_nat_alt)
  then show "\<exists>s d. (case (merkle_k n :: (unit, u64) result) of Inl e \<Rightarrow> None | Inr s \<Rightarrow> Some s) = Some s
      \<and> unat s = 2 ^ d \<and> unat s < unat n \<and> unat n \<le> 2 * unat s"
    using top_bit_split [of n] by (auto simp: merkle_k_def)
qed

section \<open>The incremental tree\<close>

record merkle_tree =
  frontier :: "hash list"
  mt_size :: u64

definition mt_new :: merkle_tree where
  "mt_new = \<lparr>frontier = [], mt_size = 0\<rparr>"

text \<open>The \<^verbatim>\<open>while\<close> loop of \<^verbatim>\<open>append\<close>: combine with the frontier while the bit at \<open>level\<close> is set.\<close>

function append_loop :: "sha256 \<Rightarrow> hash list \<Rightarrow> u64 \<Rightarrow> nat \<Rightarrow> hash \<Rightarrow> ('e, nat \<times> hash) result" where
  "append_loop sha fr sz level h =
     (if sz AND shl64 1 level \<noteq> 0 then
        bindR (index fr level) (\<lambda>f. append_loop sha fr sz (level + 1) (node_hash sha f h))
      else Inr (level, h))"
  by pat_completeness auto
termination
  by (relation "measure (\<lambda>(sha, fr, sz, level, h). length fr - level)")
    (auto simp: index_def split: if_splits)

declare append_loop.simps [simp del]

definition mt_append :: "sha256 \<Rightarrow> merkle_tree \<Rightarrow> hash \<Rightarrow> ('e, merkle_tree \<times> u64) result" where
  "mt_append sha t lh =
     (let idx = mt_size t in
      bindR (append_loop sha (frontier t) (mt_size t) 0 lh) (\<lambda>(level, h).
        let f = (if level < length (frontier t) then (frontier t)[level := h] else frontier t @ [h]);
            f' = fold (\<lambda>l f. f[l := arr_of []]) [0..<level] f
        in Inr (t\<lparr>frontier := f', mt_size := mt_size t + 1\<rparr>, idx)))"

fun root_loop :: "sha256 \<Rightarrow> u64 \<Rightarrow> nat \<Rightarrow> hash list \<Rightarrow> hash option \<Rightarrow> hash option" where
  "root_loop sha sz level [] h = h"
| "root_loop sha sz level (node # fr) h =
     (if sz AND shl64 1 level = 0 then root_loop sha sz (level + 1) fr h
      else root_loop sha sz (level + 1) fr
        (Some (case h of None \<Rightarrow> node | Some x \<Rightarrow> node_hash sha node x)))"

definition mt_root :: "sha256 \<Rightarrow> merkle_tree \<Rightarrow> hash option" where
  "mt_root sha t = (if mt_size t = 0 then None else root_loop sha (mt_size t) 0 (frontier t) None)"

subsection \<open>The invariant\<close>

text \<open>
  The complete subtree that level \<open>l\<close> of the frontier stands for: the \<open>2 ^ l\<close> leaves before the
  part of the tree that the lower bits of the size count.
\<close>

definition chunk :: "nat \<Rightarrow> 'a list \<Rightarrow> 'a list" where
  "chunk l xs = take (2 ^ l) (drop (2 ^ Suc l * (length xs div 2 ^ Suc l)) xs)"

definition mt_inv :: "sha256 \<Rightarrow> merkle_tree \<Rightarrow> hash list \<Rightarrow> bool" where
  "mt_inv sha t xs \<longleftrightarrow> length xs < 2 ^ 64 \<and> mt_size t = of_nat (length xs) \<and>
     length xs < 2 ^ length (frontier t) \<and>
     (\<forall>l < length (frontier t). 2 ^ l \<le> length xs) \<and>
     (\<forall>l < length (frontier t). bit (length xs) l \<longrightarrow>
        frontier t ! l = MTH (node_hash sha) (chunk l xs))"

lemma mt_inv_new: "mt_inv sha mt_new []"
  by (simp add: mt_inv_def mt_new_def)

text \<open>Levels stay below 64, so the masked shift reads the bit it names.\<close>

lemma mt_inv_levels:
  assumes "mt_inv sha t xs"
  shows "length (frontier t) \<le> 64"
proof (rule ccontr)
  assume "\<not> length (frontier t) \<le> 64"
  then have "64 < length (frontier t)" by simp
  with assms have "2 ^ 64 \<le> length xs" unfolding mt_inv_def by blast
  with assms show False by (simp add: mt_inv_def)
qed

lemma mt_size_bit:
  assumes "length xs < 2 ^ 64" and "l < 64"
  shows "(of_nat (length xs) :: u64) AND shl64 1 l = 0 \<longleftrightarrow> \<not> bit (length xs) l"
  using assms by (simp add: word_and_shl_one bit_u64_of_nat)

subsection \<open>Splitting a list at a level\<close>

lemma div_pow_Suc: "n div 2 ^ Suc l = n div 2 ^ l div (2::nat)"
  unfolding power_Suc2 by (rule div_mult2_eq)

lemma chunk_start_clear:
  assumes "\<not> bit n l"
  shows "2 ^ Suc l * (n div 2 ^ Suc l) = 2 ^ l * (n div (2::nat) ^ l)"
proof -
  have "2 * (n div 2 ^ l div 2) = n div 2 ^ l"
    using assms by (simp add: bit_nat_odd_div)
  then show ?thesis
    unfolding power_Suc2 div_mult2_eq by (simp only: mult.assoc)
qed

lemma chunk_start_set:
  assumes "bit n l"
  shows "2 ^ Suc l * (n div 2 ^ Suc l) + 2 ^ l = 2 ^ l * (n div (2::nat) ^ l)"
proof -
  have q: "2 * (n div 2 ^ l div 2) + 1 = n div 2 ^ l"
    using assms by (simp add: bit_nat_odd_div)
  have "2 ^ Suc l * (n div 2 ^ Suc l) + 2 ^ l = 2 ^ l * (2 * (n div 2 ^ l div 2) + 1)"
    unfolding power_Suc2 div_mult2_eq by (simp only: mult.assoc distrib_left mult_1_right)
  then show ?thesis by (simp only: q)
qed

lemma length_chunk: "bit (length xs) l \<Longrightarrow> length (chunk l xs) = 2 ^ l"
proof -
  assume b: "bit (length xs) l"
  let ?s = "2 ^ Suc l * (length xs div 2 ^ Suc l)"
  have "?s + 2 ^ l \<le> length xs"
    unfolding chunk_start_set [OF b] by simp
  then have "2 ^ l \<le> length xs - ?s" by linarith
  then show ?thesis unfolding chunk_def length_take length_drop by (rule min.absorb2)
qed

lemma drop_chunk:
  assumes "bit (length xs) l"
  shows "drop (2 ^ Suc l * (length xs div 2 ^ Suc l)) xs =
    chunk l xs @ drop (2 ^ l * (length xs div 2 ^ l)) xs"
  unfolding chunk_def chunk_start_set [OF assms, symmetric]
  by (metis add.commute append_take_drop_id drop_drop)

subsection \<open>The root of the incremental tree\<close>

text \<open>What the loop of \<^verbatim>\<open>root\<close> has accumulated when it reaches \<open>level\<close>.\<close>

definition root_upto :: "sha256 \<Rightarrow> nat \<Rightarrow> hash list \<Rightarrow> hash option" where
  "root_upto sha level xs = (let r = drop (2 ^ level * (length xs div 2 ^ level)) xs in
     if r = [] then None else Some (MTH (node_hash sha) r))"

lemma root_upto_step_clear:
  "\<not> bit (length xs) l \<Longrightarrow> root_upto sha (Suc l) xs = root_upto sha l xs"
  by (simp add: root_upto_def chunk_start_clear del: power_Suc)

lemma root_upto_step_set:
  assumes "bit (length xs) l"
  shows "root_upto sha (Suc l) xs = Some (case root_upto sha l xs of
      None \<Rightarrow> MTH (node_hash sha) (chunk l xs)
    | Some x \<Rightarrow> node_hash sha (MTH (node_hash sha) (chunk l xs)) x)"
proof -
  let ?r = "drop (2 ^ l * (length xs div 2 ^ l)) xs"
  have c: "length (chunk l xs) = 2 ^ l" by (rule length_chunk [OF assms])
  then have "chunk l xs \<noteq> []" by force
  moreover have "length ?r \<le> 2 ^ l"
    by (simp add: minus_mult_div_eq_mod order.strict_implies_order)
  then have "MTH (node_hash sha) (chunk l xs @ ?r) =
      node_hash sha (MTH (node_hash sha) (chunk l xs)) (MTH (node_hash sha) ?r)" if "?r \<noteq> []"
    using that c by (intro MTH_append) auto
  ultimately show ?thesis
    unfolding root_upto_def by (simp only: drop_chunk [OF assms] Let_def) auto
qed

lemma root_loop_upto:
  assumes "mt_inv sha t xs" and "level + length fr = length (frontier t)" and "fr = drop level (frontier t)"
  shows "root_loop sha (mt_size t) level fr (root_upto sha level xs) =
    root_upto sha (length (frontier t)) xs"
  using assms(2,3)
proof (induction fr arbitrary: level)
  case Nil
  then show ?case by simp
next
  case (Cons node fr)
  have lv: "level < length (frontier t)" and lv64: "level < 64"
    using Cons.prems(1) mt_inv_levels [OF assms(1)] by simp_all
  have node: "node = frontier t ! level" and fr: "fr = drop (Suc level) (frontier t)"
    using Cons.prems(2) lv by (metis Cons_nth_drop_Suc list.inject)+
  have size: "mt_size t AND shl64 1 level = 0 \<longleftrightarrow> \<not> bit (length xs) level"
    using assms(1) lv64 by (simp add: mt_inv_def mt_size_bit)
  have IH: "root_loop sha (mt_size t) (Suc level) fr (root_upto sha (Suc level) xs) =
      root_upto sha (length (frontier t)) xs"
    using Cons.IH [of "Suc level"] Cons.prems(1) fr by simp
  show ?case
  proof (cases "bit (length xs) level")
    case True
    with assms(1) lv node have "node = MTH (node_hash sha) (chunk level xs)"
      by (simp add: mt_inv_def)
    with True size IH show ?thesis by (simp add: root_upto_step_set)
  next
    case False
    with size IH show ?thesis by (simp add: root_upto_step_clear)
  qed
qed

theorem mt_root_MTH:
  assumes "mt_inv sha t xs"
  shows "mt_root sha t = (if xs = [] then None else Some (MTH (node_hash sha) xs))"
proof (cases "xs = []")
  case True
  with assms show ?thesis by (simp add: mt_root_def mt_inv_def)
next
  case False
  have len: "length xs < 2 ^ 64" and "length xs < 2 ^ length (frontier t)"
    and size: "mt_size t = of_nat (length xs)"
    using assms by (simp_all add: mt_inv_def)
  then have "root_upto sha (length (frontier t)) xs = Some (MTH (node_hash sha) xs)"
    using False by (simp add: root_upto_def)
  moreover have "mt_size t \<noteq> 0"
    using False len size by (metis length_0_conv unat_0 unat_of_nat_u64)
  ultimately show ?thesis
    using False root_loop_upto [OF assms, of 0 "frontier t"] by (simp add: mt_root_def root_upto_def)
qed

subsection \<open>Appending a leaf\<close>

text \<open>
  While the low \<open>l\<close> bits of the size are all set, \<open>2 ^ l\<close> divides the size plus one; this is the
  loop invariant of \<^verbatim>\<open>append\<close>.
\<close>

lemma dvd_Suc_div: "k dvd Suc n \<Longrightarrow> k * Suc (n div k) = Suc n"
  by (metis div_Suc dvd_mult_div_cancel mod_eq_0_iff_dvd)

lemma bit_carry: "2 ^ l dvd Suc n \<Longrightarrow> bit n l \<longleftrightarrow> 2 ^ Suc l dvd Suc n"
proof -
  assume "2 ^ l dvd Suc n"
  then have n: "Suc n = 2 ^ l * Suc (n div 2 ^ l)" by (rule dvd_Suc_div [symmetric])
  have "2 ^ Suc l dvd 2 ^ l * Suc (n div 2 ^ l) \<longleftrightarrow> 2 dvd Suc (n div 2 ^ l)"
    unfolding power_Suc2 by (subst nat_mult_dvd_cancel1) simp_all
  then have "2 ^ Suc l dvd Suc n \<longleftrightarrow> odd (n div 2 ^ l)" unfolding n [symmetric] by simp
  then show ?thesis by (simp only: bit_nat_odd_div)
qed

lemma bit_imp_pow_le: "bit n l \<Longrightarrow> 2 ^ l \<le> (n::nat)"
  by (metis bit_nat_odd_div div_less even_zero not_le)

lemma bit_Suc_above:
  assumes "\<not> 2 ^ l dvd Suc n"
  shows "Suc n div 2 ^ l = n div 2 ^ l" and "bit (Suc n) l = bit n l"
  using assms by (simp_all add: bit_nat_odd_div div_Suc dvd_eq_mod_eq_0)

lemma last_block_split:
  assumes "2 ^ Suc l dvd Suc (length xs)"
  shows "drop (Suc (length xs) - 2 ^ Suc l) (xs @ [x]) =
    chunk l xs @ drop (Suc (length xs) - 2 ^ l) (xs @ [x])"
proof -
  let ?n = "length xs" and ?s = "2 ^ Suc l * (length xs div 2 ^ Suc l)"
  have s: "?s + 2 ^ Suc l = Suc ?n"
    using dvd_Suc_div [OF assms] by (simp only: mult_Suc_right add.commute)
  moreover have "(2::nat) ^ Suc l = 2 ^ l + 2 ^ l" and "(1::nat) \<le> 2 ^ l" by simp_all
  ultimately have le: "?s + 2 ^ l \<le> ?n" and e1: "Suc ?n - 2 ^ Suc l = ?s" and e2: "Suc ?n - 2 ^ l = ?s + 2 ^ l"
    by linarith+
  have "chunk l xs = take (2 ^ l) (drop ?s (xs @ [x]))"
    using le by (simp add: chunk_def del: power_Suc)
  then show ?thesis
    unfolding e1 e2 by (metis add.commute append_take_drop_id drop_drop)
qed

lemma append_loop_MTH:
  assumes inv: "mt_inv sha t xs" and lim: "Suc (length xs) < 2 ^ 64"
    and "2 ^ level dvd Suc (length xs)"
    and "h = MTH (node_hash sha) (drop (Suc (length xs) - 2 ^ level) (xs @ [x]))"
  shows "\<exists>lv. (append_loop sha (frontier t) (mt_size t) level h :: ('e, nat \<times> hash) result) =
      Inr (lv, MTH (node_hash sha) (drop (Suc (length xs) - 2 ^ lv) (xs @ [x])))
    \<and> 2 ^ lv dvd Suc (length xs) \<and> \<not> 2 ^ Suc lv dvd Suc (length xs)"
  using assms(3,4)
proof (induction "length (frontier t) - level" arbitrary: level h rule: less_induct)
  case less
  let ?n = "length xs"
  have "(2::nat) ^ level < 2 ^ 64"
    using less.prems(1) lim dvd_imp_le [of "2 ^ level" "Suc ?n"] by linarith
  then have "level < 64" by (rule power_less_imp_less_exp [rotated]) simp
  then have sz: "mt_size t AND shl64 1 level = 0 \<longleftrightarrow> \<not> bit ?n level"
    using inv by (simp add: mt_inv_def mt_size_bit)
  show ?case
  proof (cases "bit ?n level")
    case False
    with sz less.prems show ?thesis
      by (subst append_loop.simps) (auto simp: bit_carry)
  next
    case True
    then have dvd: "2 ^ Suc level dvd Suc ?n" using bit_carry less.prems(1) by blast
    have "(2::nat) ^ level < 2 ^ length (frontier t)"
      using bit_imp_pow_le [OF True] inv unfolding mt_inv_def by linarith
    then have lv: "level < length (frontier t)" by (rule power_less_imp_less_exp [rotated]) simp
    then have "frontier t ! level = MTH (node_hash sha) (chunk level xs)"
      using inv True by (simp add: mt_inv_def)
    moreover have "2 ^ level \<le> Suc ?n" using less.prems(1) by (simp add: dvd_imp_le)
    ultimately have "node_hash sha (frontier t ! level) h =
        MTH (node_hash sha) (drop (Suc ?n - 2 ^ Suc level) (xs @ [x]))"
      unfolding last_block_split [OF dvd] less.prems(2)
      by (subst MTH_append [of _ level]) (simp_all add: length_chunk [OF True])
    with less.hyps [of "Suc level"] lv dvd show ?thesis
      using True sz by (subst append_loop.simps) (simp add: diff_less_mono2 del: power_Suc)
  qed
qed

lemma nth_zero_low:
  "i < length f \<Longrightarrow> fold (\<lambda>l f. f[l := z]) [0..<lv] f ! i = (if i < lv then z else f ! i)"
  "length (fold (\<lambda>l f. f[l := z]) [0..<lv] f) = length f"
proof -
  have len: "length (fold (\<lambda>l f. f[l := z]) [0..<lv] f) = length f" for lv
    by (induction lv) simp_all
  then show "length (fold (\<lambda>l f. f[l := z]) [0..<lv] f) = length f" .
  show "i < length f \<Longrightarrow> fold (\<lambda>l f. f[l := z]) [0..<lv] f ! i = (if i < lv then z else f ! i)"
    by (induction lv) (auto simp: len nth_list_update less_Suc_eq)
qed

lemma chunk_snoc:
  assumes "\<not> 2 ^ l dvd Suc (length xs)" and "bit (length xs) l"
  shows "chunk l (xs @ [x]) = chunk l xs"
proof -
  have "\<not> 2 ^ Suc l dvd Suc (length xs)"
    using assms(1) by (metis dvd_trans le_imp_power_dvd lessI less_imp_le)
  from bit_Suc_above(1) [OF this]
  have s: "length (xs @ [x]) div 2 ^ Suc l = length xs div 2 ^ Suc l" by simp
  have "2 ^ Suc l * (length xs div 2 ^ Suc l) + 2 ^ l \<le> length xs"
    unfolding chunk_start_set [OF assms(2)] by simp
  then show ?thesis unfolding chunk_def s by simp
qed

lemma chunk_snoc_last:
  assumes "2 ^ l dvd Suc (length xs)" and "\<not> 2 ^ Suc l dvd Suc (length xs)"
  shows "chunk l (xs @ [x]) = drop (Suc (length xs) - 2 ^ l) (xs @ [x])" and "bit (Suc (length xs)) l"
proof -
  let ?n = "Suc (length xs)"
  obtain c where c: "?n = 2 ^ l * c" using assms(1) by blast
  then have "odd c" using assms(2) by (auto simp: mult.assoc)
  with c show b: "bit ?n l" by (simp add: bit_nat_odd_div)
  have "2 ^ Suc l * (?n div 2 ^ Suc l) + 2 ^ l = ?n"
    unfolding chunk_start_set [OF b] using assms(1) by simp
  then have "2 ^ Suc l * (?n div 2 ^ Suc l) = ?n - 2 ^ l" by linarith
  moreover have "2 ^ l \<le> ?n" using assms(1) by (simp add: dvd_imp_le)
  ultimately show "chunk l (xs @ [x]) = drop (?n - 2 ^ l) (xs @ [x])"
    by (simp add: chunk_def del: power_Suc)
qed

lemma pow2_dvd_mono: "2 ^ a dvd n \<Longrightarrow> b \<le> a \<Longrightarrow> 2 ^ b dvd (n::nat)"
  by (meson dvd_trans le_imp_power_dvd)

lemma bit_below_dvd: "2 ^ lv dvd n \<Longrightarrow> l < lv \<Longrightarrow> \<not> bit (n::nat) l"
proof -
  assume "2 ^ lv dvd n" and "l < lv"
  then have "2 ^ Suc l dvd n" by (meson Suc_leI pow2_dvd_mono)
  then obtain c where "n = 2 ^ l * (2 * c)" by (auto simp: mult.assoc mult.left_commute)
  then show ?thesis by (simp add: bit_nat_odd_div)
qed

text \<open>The frontier after an append, level by level.\<close>

definition frontier_after :: "hash list \<Rightarrow> nat \<Rightarrow> hash \<Rightarrow> hash list" where
  "frontier_after fr lv h = fold (\<lambda>l f. f[l := arr_of []]) [0..<lv]
     (if lv < length fr then fr[lv := h] else fr @ [h])"

lemma length_frontier_after: "lv \<le> length fr \<Longrightarrow> length (frontier_after fr lv h) = max (length fr) (Suc lv)"
  by (auto simp: frontier_after_def nth_zero_low)

lemma nth_frontier_after:
  "lv \<le> length fr \<Longrightarrow> lv < l \<Longrightarrow> l < length fr \<Longrightarrow> frontier_after fr lv h ! l = fr ! l"
  "lv \<le> length fr \<Longrightarrow> frontier_after fr lv h ! lv = h"
  by (auto simp: frontier_after_def nth_zero_low nth_append)

lemma mt_inv_after:
  assumes inv: "mt_inv sha t xs" and lim: "Suc (length xs) < 2 ^ 64"
    and dvd: "2 ^ lv dvd Suc (length xs)" and ndvd: "\<not> 2 ^ Suc lv dvd Suc (length xs)"
    and h: "h = MTH (node_hash sha) (drop (Suc (length xs) - 2 ^ lv) (xs @ [x]))"
  shows "mt_inv sha (t\<lparr>frontier := frontier_after (frontier t) lv h, mt_size := mt_size t + 1\<rparr>) (xs @ [x])"
proof -
  let ?n = "length xs" and ?L = "length (frontier t)" and ?f = "frontier_after (frontier t) lv h"
  have n: "?n < 2 ^ ?L" and low: "\<And>l. l < ?L \<Longrightarrow> 2 ^ l \<le> ?n" and size: "mt_size t = of_nat ?n"
    and fr: "\<And>l. l < ?L \<Longrightarrow> bit ?n l \<Longrightarrow> frontier t ! l = MTH (node_hash sha) (chunk l xs)"
    using inv by (auto simp: mt_inv_def)
  have lv_le: "2 ^ lv \<le> Suc ?n" using dvd by (simp add: dvd_imp_le)
  with n have "(2::nat) ^ lv \<le> 2 ^ ?L" by linarith
  then have lv: "lv \<le> ?L" by simp
  note len = length_frontier_after [OF lv, of h]
  have "Suc ?n < 2 ^ length ?f"
  proof (cases "lv = ?L")
    case True
    have "Suc ?n = 2 ^ ?L" using lv_le n unfolding True by linarith
    with True len show ?thesis by simp
  next
    case False
    with lv have "Suc lv \<le> ?L" by simp
    then have "Suc ?n \<noteq> 2 ^ ?L" using ndvd pow2_dvd_mono by (metis dvd_refl)
    moreover have "length ?f = ?L" using len \<open>Suc lv \<le> ?L\<close> by simp
    ultimately show ?thesis using n by simp
  qed
  moreover have "2 ^ l \<le> Suc ?n" if "l < length ?f" for l
    using that len low [of l] lv_le lv by (cases "l = lv") (auto simp: max_def split: if_splits)
  moreover have "?f ! l = MTH (node_hash sha) (chunk l (xs @ [x]))"
    if l: "l < length ?f" and b: "bit (Suc ?n) l" for l
  proof -
    consider "l < lv" | "l = lv" | "lv < l" by linarith
    then show ?thesis
    proof cases
      case 1
      with b bit_below_dvd [OF dvd] show ?thesis by blast
    next
      case 2
      with h chunk_snoc_last(1) [OF dvd ndvd] lv show ?thesis by (simp add: nth_frontier_after)
    next
      case 3
      then have nd: "\<not> 2 ^ l dvd Suc ?n" using ndvd by (meson Suc_leI pow2_dvd_mono)
      have bn: "bit ?n l" using b bit_Suc_above(2) [OF nd] by simp
      have lL: "l < ?L" using l 3 len by (auto simp: max_def split: if_splits)
      show ?thesis using 3 lv lL fr [OF lL bn] chunk_snoc [OF nd bn] by (simp add: nth_frontier_after)
    qed
  qed
  ultimately show ?thesis using lim size by (simp add: mt_inv_def)
qed

theorem mt_append_inv:
  assumes inv: "mt_inv sha t xs" and lim: "Suc (length xs) < 2 ^ 64"
  shows "\<exists>t'. (mt_append sha t x :: ('e, merkle_tree \<times> u64) result) = Inr (t', of_nat (length xs))
    \<and> mt_inv sha t' (xs @ [x])"
proof -
  obtain lv where loop: "(append_loop sha (frontier t) (mt_size t) 0 x :: ('e, nat \<times> hash) result) =
      Inr (lv, MTH (node_hash sha) (drop (Suc (length xs) - 2 ^ lv) (xs @ [x])))"
    and dvd: "2 ^ lv dvd Suc (length xs)" "\<not> 2 ^ Suc lv dvd Suc (length xs)"
    using append_loop_MTH [OF inv lim, of 0 x x] by auto
  from mt_inv_after [OF inv lim dvd refl, of x] inv loop show ?thesis
    by (simp add: mt_append_def frontier_after_def mt_inv_def Let_def)
qed

section \<open>The accumulator contract\<close>

text \<open>
  What the server relies on: appending leaf hashes one by one never panics below the capacity, the
  returned index is the number of leaves before, and the root is a fixed function of the leaves.
\<close>

locale leaf_accumulator =
  fixes acc_new :: 's
    and acc_append :: "'s \<Rightarrow> 'a \<Rightarrow> ('e, 's \<times> u64) result"
    and acc_root :: "'s \<Rightarrow> 'r option"
    and acc_size :: "'s \<Rightarrow> u64"
    and rel :: "'s \<Rightarrow> 'a list \<Rightarrow> bool"
    and spec_root :: "'a list \<Rightarrow> 'r"
    and cap :: nat
  assumes rel_new: "rel acc_new []"
    and rel_append: "rel s xs \<Longrightarrow> Suc (length xs) < cap \<Longrightarrow>
      \<exists>s'. acc_append s x = Inr (s', of_nat (length xs)) \<and> rel s' (xs @ [x])"
    and rel_root: "rel s xs \<Longrightarrow> acc_root s = (if xs = [] then None else Some (spec_root xs))"
    and rel_size: "rel s xs \<Longrightarrow> acc_size s = of_nat (length xs)"
begin

lemma append_all_rel:
  "rel s xs \<Longrightarrow> length xs + length ys < cap \<Longrightarrow>
   \<exists>s'. foldR (\<lambda>s x. bindR (acc_append s x) (\<lambda>(s', i). Inr s')) s ys = Inr s' \<and> rel s' (xs @ ys)"
proof (induction ys arbitrary: s xs)
  case Nil
  then show ?case by simp
next
  case (Cons y ys)
  then obtain s' where "acc_append s y = Inr (s', of_nat (length xs))" and "rel s' (xs @ [y])"
    using rel_append [of s xs y] by auto
  with Cons.IH [of s' "xs @ [y]"] Cons.prems show ?case by simp
qed

lemma build_rel:
  "length ys < cap \<Longrightarrow>
   \<exists>s'. foldR (\<lambda>s x. bindR (acc_append s x) (\<lambda>(s', i). Inr s')) acc_new ys = Inr s' \<and> rel s' ys"
  using append_all_rel [OF rel_new, of ys] by simp

text \<open>Two states that stand for the same leaves have the same root and size.\<close>

lemma root_determined: "rel s xs \<Longrightarrow> rel t xs \<Longrightarrow> acc_root s = acc_root t \<and> acc_size s = acc_size t"
  by (simp add: rel_root rel_size)

end

interpretation mt: leaf_accumulator mt_new "mt_append sha" "mt_root sha" mt_size "mt_inv sha"
  "MTH (node_hash sha)" "2 ^ 64" for sha
  by unfold_locales (auto intro: mt_inv_new mt_append_inv simp: mt_root_MTH, simp add: mt_inv_def)

section \<open>Properties\<close>

text \<open>
  C12. The incremental tree is equivalent to the recursive definition: appending any leaf hashes
  (fewer than \<open>2 ^ 64\<close>) to the empty tree never panics, and \<^verbatim>\<open>root()\<close> is what \<^verbatim>\<open>mth\<close> computes from
  the whole slice, \<^verbatim>\<open>size()\<close> the number of leaves.
\<close>

theorem incremental_root_eq_mth:
  fixes sha :: sha256 and xs :: "hash list"
  assumes "length xs < 2 ^ 64"
  shows "\<exists>t. (foldR (\<lambda>s x. bindR (mt_append sha s x) (\<lambda>(s', i). Inr s')) mt_new xs :: ('e, merkle_tree) result) = Inr t
    \<and> (mth sha xs :: ('e, hash option) result) = Inr (mt_root sha t) \<and> mt_size t = of_nat (length xs)"
proof -
  obtain t where "(foldR (\<lambda>s x. bindR (mt_append sha s x) (\<lambda>(s', i). Inr s')) mt_new xs :: ('e, merkle_tree) result) = Inr t"
    and "mt_inv sha t xs"
    using mt.build_rel [of xs] assms by auto
  moreover from \<open>mt_inv sha t xs\<close>
  have "mt_root sha t = (if xs = [] then None else Some (MTH (node_hash sha) xs))"
    and "mt_size t = of_nat (length xs)"
    by (simp_all add: mt.rel_root mt.rel_size)
  ultimately show ?thesis by (simp add: mth_eq [OF assms])
qed

theorem incremental_root_eq_mth_witness:
  "\<exists>t. (foldR (\<lambda>s x. bindR (mt_append toy_sha s x) (\<lambda>(s', i). Inr s')) mt_new
      [arr_of [1], arr_of [2], arr_of [3]] :: (unit, merkle_tree) result) = Inr t
    \<and> (mth toy_sha [arr_of [1], arr_of [2], arr_of [3]] :: (unit, hash option) result) = Inr (mt_root toy_sha t)
    \<and> mt_size t = 3"
  using incremental_root_eq_mth [of "[arr_of [1], arr_of [2], arr_of [3]]" toy_sha] by simp

text \<open>
  C11. \<^verbatim>\<open>append\<close> on a tree that stands for the leaves \<open>xs\<close> returns the index \<open>length xs\<close> without
  panicking, and the new tree stands for \<open>xs\<close> followed by the new leaf: its root is the abstract
  Merkle root of the longer list. The frontier stays within 64 levels.
\<close>

theorem mt_append_refines:
  assumes "mt_inv sha t xs" and "Suc (length xs) < 2 ^ 64"
  shows "\<exists>t'. (mt_append sha t x :: ('e, merkle_tree \<times> u64) result) = Inr (t', of_nat (length xs))
    \<and> mt_inv sha t' (xs @ [x]) \<and> mt_root sha t' = Some (MTH (node_hash sha) (xs @ [x]))
    \<and> length (frontier t') \<le> 64"
  using mt.rel_append [OF assms, of x] mt_root_MTH mt_inv_levels by fastforce

theorem mt_append_refines_witness:
  "\<exists>t'. (mt_append toy_sha mt_new (arr_of [7]) :: (unit, merkle_tree \<times> u64) result) = Inr (t', 0)
    \<and> mt_inv toy_sha t' [arr_of [7]] \<and> mt_root toy_sha t' = Some (arr_of [7])
    \<and> length (frontier t') \<le> 64"
  using mt_append_refines [OF mt_inv_new, of toy_sha "arr_of [7]"] by simp

end
