(* ===== verification/Merkle_Loop.thy ===== *)
theory Merkle_Loop
  imports Merkle_Spec
begin

text \<open>
  The bottom-up verification loop of an inclusion proof over natural numbers (\<open>strip\<close> is its
  inner loop) and its equivalence with the reference verifier \<open>recon\<close>: the loop accepts exactly the
  proofs from which \<open>recon\<close> reconstructs the root, so it rejects every proof of the wrong length.
  The word-level loops of the crates are instances of it.
\<close>

function strip :: "nat \<Rightarrow> nat \<Rightarrow> nat \<times> nat" where
  "strip f s = (if f \<noteq> 0 \<and> even f then strip (f div 2) (s div 2) else (f, s))"
  by pat_completeness auto
termination
  by (relation "measure fst") auto

declare strip.simps [simp del]

fun nloop :: "('h \<Rightarrow> 'h \<Rightarrow> 'h) \<Rightarrow> nat \<Rightarrow> nat \<Rightarrow> 'h \<Rightarrow> 'h list \<Rightarrow> (nat \<times> nat \<times> 'h) option" where
  "nloop nd f s r [] = Some (f, s, r)"
| "nloop nd f s r (step # p) =
     (if s = 0 then None
      else if odd f \<or> f = s then
        (let (f', s') = strip f s in nloop nd (f' div 2) (s' div 2) (nd step r) p)
      else nloop nd (f div 2) (s div 2) (nd r step) p)"

lemma nloop_append:
  "nloop nd f s r (p @ q) =
     (case nloop nd f s r p of None \<Rightarrow> None | Some (f', s', r') \<Rightarrow> nloop nd f' s' r' q)"
  by (induction nd f s r p rule: nloop.induct) (auto split: prod.splits)

lemma strip_odd: "odd f \<Longrightarrow> strip f s = (f, s)"
  by (subst strip.simps) simp

lemma strip_pow: "odd a \<Longrightarrow> strip (a * 2 ^ e) (a * 2 ^ e) = (a, a)"
proof (induction e)
  case 0
  then show ?case by (simp add: strip_odd)
next
  case (Suc e)
  then have "a * 2 ^ Suc e \<noteq> 0" "even (a * 2 ^ Suc e)" "a * 2 ^ Suc e div 2 = a * 2 ^ e"
    by (auto elim: oddE)
  with Suc show ?case by (subst strip.simps) simp
qed

section \<open>Perfect subtrees\<close>

text \<open>
  Inside a perfect subtree off the right edge, the loop follows the bits of the index: after the
  \<open>d\<close> steps of the path, both counters are shifted by \<open>d\<close>.
\<close>

lemma nloop_perfect:
  assumes "m < 2 ^ d" and "recon nd (2 ^ d) m p r = Some h" and "B < s div 2 ^ d"
  shows "nloop nd (B * 2 ^ d + m) s r p = Some (B, s div 2 ^ d, h)"
  using assms
proof (induction d arbitrary: m p h B)
  case 0
  then show ?case by (simp add: recon_single split: if_splits)
next
  case (Suc d)
  have k: "kpow (2 ^ Suc d) = 2 ^ d" by (rule kpow_pow)
  have gt: "1 < (2::nat) ^ Suc d" by (rule one_less_power) simp_all
  obtain q st where p: "p = q @ [st]"
    using Suc.prems(2) recon_Nil [OF gt, of nd m r] by (cases p rule: rev_cases) auto
  have s2: "s div 2 ^ Suc d = s div 2 ^ d div 2"
    unfolding power_Suc2 by (rule div_mult2_eq)
  show ?case
  proof (cases "m < 2 ^ d")
    case True
    then obtain h' where h': "recon nd (2 ^ d) m q r = Some h'" "h = nd h' st"
      using Suc.prems(2) recon_left [OF gt, of m nd q st r] unfolding p k
      by (cases "recon nd (2 ^ d) m q r") auto
    have "2 * B < s div 2 ^ d" using Suc.prems(3) unfolding s2 by linarith
    then have "nloop nd (2 * B * 2 ^ d + m) s r q = Some (2 * B, s div 2 ^ d, h')"
      using Suc.IH True h'(1) by blast
    moreover have e: "B * 2 ^ Suc d = 2 * B * 2 ^ d" by simp
    ultimately show ?thesis
      using \<open>2 * B < s div 2 ^ d\<close> h'(2) unfolding p s2 e by (simp add: nloop_append)
  next
    case False
    then obtain h' where h': "recon nd (2 ^ d) (m - 2 ^ d) q r = Some h'" "h = nd st h'"
      using Suc.prems(2) recon_right [OF gt, of m nd q st r] unfolding p k
      by (cases "recon nd (2 ^ d) (m - 2 ^ d) q r") auto
    have lt: "2 * B + 1 < s div 2 ^ d" using Suc.prems(3) unfolding s2 by linarith
    have e: "B * 2 ^ Suc d + m = (2 * B + 1) * 2 ^ d + (m - 2 ^ d)"
      using False by (simp add: algebra_simps)
    have "nloop nd ((2 * B + 1) * 2 ^ d + (m - 2 ^ d)) s r q = Some (2 * B + 1, s div 2 ^ d, h')"
      using Suc.IH [OF _ h'(1) lt] Suc.prems(1) False by simp
    then show ?thesis
      using lt h'(2) unfolding p s2 e by (simp add: nloop_append strip_odd del: mult_Suc)
  qed
qed

section \<open>Subtrees on the right edge\<close>

lemma nloop_edge:
  assumes "m < n" and "n \<le> 2 ^ D" and "recon nd n m p r = Some h"
  shows "\<exists>e. nloop nd (A * 2 ^ D + m) (A * 2 ^ D + (n - 1)) r p = Some (A * 2 ^ e, A * 2 ^ e, h)"
  using assms
proof (induction n arbitrary: m p h A D rule: less_induct)
  case (less n)
  show ?case
  proof (cases "n = 1")
    case True
    with less.prems show ?thesis by (intro exI [of _ D]) (simp add: recon_single split: if_splits)
  next
    case False
    then have gt: "1 < n" using less.prems(1) by linarith
    obtain d where k: "kpow n = 2 ^ d" using kpow_pow2 by blast
    have lo: "2 ^ d < n" and hi: "n \<le> 2 * 2 ^ d"
      using kpow_bounds [OF gt] k by simp_all
    then have "(2::nat) ^ d < 2 ^ D" using less.prems(2) by linarith
    then have "d < D" by (rule power_less_imp_less_exp [rotated]) simp
    then obtain j where D: "D = d + Suc j" using less_imp_Suc_add by auto
    let ?B = "A * 2 ^ Suc j"
    have AD: "A * 2 ^ D = ?B * 2 ^ d" by (simp add: D power_add)
    obtain q st where p: "p = q @ [st]"
      using less.prems(3) recon_Nil [OF gt, of nd m r] by (cases p rule: rev_cases) auto
    show ?thesis
    proof (cases "m < 2 ^ d")
      case True
      then obtain h' where h': "recon nd (2 ^ d) m q r = Some h'" "h = nd h' st"
        using less.prems(3) recon_left [OF gt, of m nd q st r] unfolding p k by auto
      have "(n - 1) div 2 ^ d = 1"
        using lo hi by (intro div_nat_eqI) auto
      then have sd: "(?B * 2 ^ d + (n - 1)) div 2 ^ d = ?B + 1" by simp
      have "nloop nd (?B * 2 ^ d + m) (?B * 2 ^ d + (n - 1)) r q = Some (?B, ?B + 1, h')"
        using nloop_perfect [OF True h'(1), of ?B "?B * 2 ^ d + (n - 1)"] unfolding sd by simp
      then show ?thesis
        unfolding p AD using h'(2) by (intro exI [of _ j]) (simp add: nloop_append)
    next
      case False
      then obtain h' where h': "recon nd (n - 2 ^ d) (m - 2 ^ d) q r = Some h'" "h = nd st h'"
        using less.prems(3) recon_right [OF gt, of m nd q st r] unfolding p k by auto
      have f: "?B * 2 ^ d + m = (?B + 1) * 2 ^ d + (m - 2 ^ d)"
        and s: "?B * 2 ^ d + (n - 1) = (?B + 1) * 2 ^ d + (n - 2 ^ d - 1)"
        using False lo by (simp_all add: algebra_simps)
      have lt: "n - 2 ^ d < n" "m - 2 ^ d < n - 2 ^ d" "n - 2 ^ d \<le> 2 ^ d"
        using lo hi False less.prems(1) by (simp_all add: diff_less_mono)
      obtain e where "nloop nd ((?B + 1) * 2 ^ d + (m - 2 ^ d)) ((?B + 1) * 2 ^ d + (n - 2 ^ d - 1)) r q
          = Some ((?B + 1) * 2 ^ e, (?B + 1) * 2 ^ e, h')"
        using less.IH [of "n - 2 ^ d" "m - 2 ^ d" d q h' "?B + 1", OF _ _ _ h'(1)] lt by blast
      moreover have "odd (?B + 1)" by simp
      ultimately show ?thesis
        unfolding p AD f s using h'(2) strip_pow [of "?B + 1" e]
        by (intro exI [of _ j]) (simp add: nloop_append del: add_mult_distrib)
    qed
  qed
qed

corollary nloop_recon:
  assumes "m < n" and "recon nd n m p r = Some h"
  shows "nloop nd m (n - 1) r p = Some (0, 0, h)"
  using nloop_edge [OF assms(1) _ assms(2), of n 0] less_exp [of n] by auto

section \<open>The loop decides reconstruction\<close>

lemma recon_exists: "m < n \<Longrightarrow> length p = path_len n m \<Longrightarrow> \<exists>h. recon nd n m p r = Some h"
  by (simp add: recon_Some_iff_length)

lemma nloop_short:
  assumes "m < n" and "length p < path_len n m" and "nloop nd m (n - 1) r p = Some (f, s, r')"
  shows "s \<noteq> 0"
proof
  assume "s = 0"
  let ?q = "replicate (path_len n m - length p) r"
  obtain h where "recon nd n m (p @ ?q) r = Some h"
    using recon_exists [OF assms(1), of "p @ ?q"] assms(2) by auto
  then have "nloop nd m (n - 1) r (p @ ?q) = Some (0, 0, h)"
    by (rule nloop_recon [OF assms(1)])
  moreover have "?q = r # replicate (path_len n m - length p - 1) r"
    using assms(2) by (metis Suc_diff_Suc diff_Suc_1 replicate_Suc)
  ultimately show False
    using assms(3) \<open>s = 0\<close> by (simp add: nloop_append)
qed

lemma nloop_long:
  assumes "m < n" and "path_len n m < length p"
  shows "nloop nd m (n - 1) r p = None"
proof -
  let ?p = "take (path_len n m) p" and ?q = "drop (path_len n m) p"
  obtain h where "recon nd n m ?p r = Some h"
    using recon_exists [OF assms(1), of ?p] assms(2) by auto
  then have "nloop nd m (n - 1) r ?p = Some (0, 0, h)"
    by (rule nloop_recon [OF assms(1)])
  moreover have "?q \<noteq> []" using assms(2) by simp
  ultimately have "nloop nd m (n - 1) r (?p @ ?q) = None"
    unfolding nloop_append by (cases ?q) auto
  then show ?thesis by simp
qed

theorem nloop_iff_recon:
  assumes "m < n"
  shows "(\<exists>f. nloop nd m (n - 1) r p = Some (f, 0, h)) \<longleftrightarrow> recon nd n m p r = Some h"
proof (cases "length p" "path_len n m" rule: linorder_cases)
  case less
  then have "recon nd n m p r \<noteq> Some h"
    using recon_Some_iff_length [OF assms, of nd p r] by auto
  with nloop_short [OF assms less] show ?thesis by blast
next
  case equal
  then obtain h' where h': "recon nd n m p r = Some h'" using recon_exists [OF assms, of p] by auto
  with nloop_recon [OF assms h'] show ?thesis by auto
next
  case greater
  then have "recon nd n m p r \<noteq> Some h"
    using recon_Some_iff_length [OF assms, of nd p r] by auto
  with nloop_long [OF assms greater] show ?thesis by auto
qed

end
