(* ===== verification/Verifier_Spec.thy ===== *)
theory Verifier_Spec
  imports Merkle_Loop
begin

text \<open>
  The contracts of a proof verifier, as locales: an \<open>inclusion_verifier\<close> accepts exactly what the
  reference verifier \<open>recon\<close> reconstructs, a \<open>consistency_verifier\<close> exactly what \<open>recon2\<close>
  reconstructs, for new sizes up to a limit \<open>lim\<close>. Completeness, soundness and the append-only
  guarantee are proved here once, from the contract, and hold for every verifier that meets it.
\<close>

locale inclusion_verifier =
  fixes nd :: "'h \<Rightarrow> 'h \<Rightarrow> 'h"
    and verify :: "'h \<Rightarrow> u64 \<Rightarrow> u64 \<Rightarrow> 'h list \<Rightarrow> 'h \<Rightarrow> bool"
  assumes verify_law:
    "verify l i n p root \<longleftrightarrow> i < n \<and> recon nd (unat n) (unat i) p l = Some root"
begin

lemma incl_complete:
  assumes "i < length xs" and "length xs < 2 ^ 64"
  shows "verify (xs ! i) (of_nat i) (of_nat (length xs)) (PATH nd xs i) (MTH nd xs)"
proof -
  have "unat (of_nat i :: u64) = i" and "unat (of_nat (length xs) :: u64) = length xs"
    using assms by (simp_all add: unat_of_nat_u64)
  with assms show ?thesis by (simp add: verify_law word_less_nat_alt recon_PATH)
qed

lemma incl_sound:
  assumes "verify l i n p (MTH nd xs)" and "length xs = unat n"
    and "inj_on (case_prod nd) (set (MTH_pairs nd xs) \<union> set (recon_pairs nd (unat n) (unat i) p l))"
  shows "l = xs ! unat i \<and> p = PATH nd xs (unat i)"
  using assms recon_sound [of "unat i" xs nd p l] by (simp add: verify_law word_less_nat_alt)

lemma incl_length: "verify l i n p root \<Longrightarrow> length p = path_len (unat n) (unat i)"
  using recon_Some_iff_length [of "unat i" "unat n" nd p l] by (auto simp: verify_law word_less_nat_alt)

lemma incl_root_unique: "verify l i n p root \<Longrightarrow> verify l i n p root' \<Longrightarrow> root = root'"
  by (simp add: verify_law)

end

locale consistency_verifier =
  fixes nd :: "'h \<Rightarrow> 'h \<Rightarrow> 'h"
    and verify :: "u64 \<Rightarrow> u64 \<Rightarrow> 'h list \<Rightarrow> 'h \<Rightarrow> 'h \<Rightarrow> bool"
    and lim :: nat
  assumes verify_law: "unat n \<le> lim \<Longrightarrow> verify m n p old new \<longleftrightarrow>
    (if m = n then p = [] \<and> old = new
     else 0 < m \<and> m < n \<and> recon2 nd (unat m) (unat n) old p True = Some ((old, new), []))"
begin

lemma cons_complete:
  assumes "0 < m" and "m \<le> length xs" and "length xs < 2 ^ 64" and "length xs \<le> lim"
  shows "verify (of_nat m) (of_nat (length xs)) (SUBPROOF nd xs m True)
    (MTH nd (take m xs)) (MTH nd xs)"
proof -
  have m: "unat (of_nat m :: u64) = m" and n: "unat (of_nat (length xs) :: u64) = length xs"
    using assms by (simp_all add: unat_of_nat_u64)
  then have eq: "(of_nat m :: u64) = of_nat (length xs) \<longleftrightarrow> m = length xs"
    by metis
  show ?thesis
    using assms m n eq recon2_SUBPROOF [of m xs True "MTH nd (take m xs)" nd "[]"]
    by (simp add: verify_law word_less_nat_alt SUBPROOF_base)
qed

lemma cons_sound:
  assumes "verify m n p old (MTH nd xs)" and "length xs = unat n" and "unat n \<le> lim"
    and "inj_on (case_prod nd) (set (MTH_pairs nd xs) \<union> set (recon2_pairs nd (unat m) (unat n) old p True))"
  shows "old = MTH nd (take (unat m) xs) \<and> m \<le> n"
proof (cases "m = n")
  case True
  with assms show ?thesis by (simp add: verify_law)
next
  case False
  with assms have "m < n" "0 < m"
    and r: "recon2 nd (unat m) (length xs) old p True = Some ((old, MTH nd xs), [])"
    by (simp_all add: verify_law)
  then have "0 < unat m" "unat m \<le> length xs"
    using assms(2) by (simp_all add: word_less_nat_alt)
  with recon2_sound [OF this r] assms(2,4) \<open>m < n\<close> show ?thesis by simp
qed

text \<open>The append-only guarantee: the old tree is a prefix of the new one.\<close>

lemma cons_append_only:
  assumes v: "verify m n p (MTH nd ys) (MTH nd xs)"
    and len: "length xs = unat n" "length ys = unat m" "0 < unat m" "unat n \<le> lim"
    and inj: "inj_on (case_prod nd) (set (MTH_pairs nd xs) \<union> set (MTH_pairs nd ys) \<union>
      set (MTH_pairs nd (take (unat m) xs)) \<union>
      set (recon2_pairs nd (unat m) (unat n) (MTH nd ys) p True))"
  shows "ys = take (length ys) xs"
proof -
  have "inj_on (case_prod nd)
      (set (MTH_pairs nd xs) \<union> set (recon2_pairs nd (unat m) (unat n) (MTH nd ys) p True))"
    by (rule inj_on_subset [OF inj]) auto
  then have old: "MTH nd ys = MTH nd (take (unat m) xs)" and "m \<le> n"
    using cons_sound [OF v len(1,4)] by simp_all
  then have "length (take (unat m) xs) = length ys"
    using len by (simp add: word_le_nat_alt)
  moreover have "inj_on (case_prod nd) (set (MTH_pairs nd (take (unat m) xs)) \<union> set (MTH_pairs nd ys))"
    by (rule inj_on_subset [OF inj]) auto
  ultimately have "take (unat m) xs = ys"
    using MTH_inject [of "take (unat m) xs" ys nd] old len(2,3) by simp
  with len(2) show ?thesis by simp
qed

end

end
