(* ===== verification/Core_Proof.thy ===== *)
theory Core_Proof
  imports Core_Merkle Verifier_Spec
begin

text \<open>
  \<^verbatim>\<open>settled-core/src/proof.rs\<close>: generation and verification of inclusion and consistency proofs.
  Generation (\<open>inclusion_proof\<close>, \<open>path\<close>, \<open>consistency_proof\<close>, \<open>subproof\<close>) works on slices and
  returns \<^verbatim>\<open>Result\<close>s; it is shown to return exactly the abstract \<open>PATH\<close> and \<open>SUBPROOF\<close> and never to
  panic on the sizes its callers pass. Verification (\<open>verify_inclusion\<close>, \<open>verify_consistency\<close>)
  works on \<open>u64\<close>; it is shown equivalent to the reference verifiers. The locales
  \<open>inclusion_verifier\<close> and \<open>consistency_verifier\<close> are the contract of a verifier; completeness and
  soundness are proved once inside them and hold for this crate's verifiers and the SDK's.
\<close>

datatype proof_error =
    LeafIndexOutOfRange u64 u64
  | InvalidSizes u64 u64
  | TooShort
  | TooLong

text \<open>The split point of this module; the subtraction is on \<^verbatim>\<open>u32\<close>.\<close>

definition proof_k :: "u64 \<Rightarrow> u64" where
  "proof_k n = shl64 1 (unat ((64 - 1 - of_nat (leading_zeros (n - 1))) :: u32))"

lemma proof_k_top:
  assumes "1 < n"
  shows "proof_k n = shl64 1 (63 - leading_zeros (n - 1))"
proof -
  have lz: "leading_zeros (n - 1) < 64"
    using assms by (intro leading_zeros_top(1)) auto
  then have "(of_nat (leading_zeros (n - 1)) :: u32) \<le> 63"
    by (simp add: word_le_nat_alt unat_of_nat)
  then have "unat ((64 - 1 - of_nat (leading_zeros (n - 1))) :: u32) = 63 - leading_zeros (n - 1)"
    using lz by (simp add: unat_sub unat_of_nat)
  then show ?thesis by (simp only: proof_k_def)
qed

interpretation proof_split: split_fn "\<lambda>n. Some (proof_k n)" "2 ^ 64"
proof
  fix n :: u64
  assume "1 < unat n"
  then have "1 < n" by (simp add: word_less_nat_alt)
  then show "\<exists>s d. Some (proof_k n) = Some s \<and> unat s = 2 ^ d \<and> unat s < unat n \<and> unat n \<le> 2 * unat s"
    using top_bit_split [of n] proof_k_top [of n] by auto
qed

lemma proof_k_kpow: "1 < unat n \<Longrightarrow> unat (proof_k n) = kpow (unat n)"
  by (rule proof_split.split_value [of n]) (use unat_lt2p [of n] in auto)

lemma proof_k_of_nat: "1 < n \<Longrightarrow> n < 2 ^ 64 \<Longrightarrow> unat (proof_k (of_nat n)) = kpow n"
  using proof_k_kpow [of "of_nat n"] unat_of_nat_u64 [of n] by simp

section \<open>Inclusion proofs\<close>

text \<open>
  \<^verbatim>\<open>path\<close>. As in \<open>mth\<close>, the guard is the range condition of the slices; for the empty slice the
  code's \<^verbatim>\<open>leaf_hashes[..split]\<close> panics there.
\<close>

function path :: "sha256 \<Rightarrow> hash list \<Rightarrow> nat \<Rightarrow> ('e, hash list) result" where
  "path sha leaf_hashes m = (let n = length leaf_hashes in
     if n = 1 then Inr []
     else let split = unat (proof_k (of_nat n)) in
       if \<not> (0 < split \<and> split < n) then Inl (Panic IndexOutOfBounds)
       else if m < split then
         bindR (path sha (take split leaf_hashes) m) (\<lambda>p.
         bindR (mth sha (drop split leaf_hashes)) (\<lambda>r. bindR (unwrap r) (\<lambda>h. Inr (p @ [h]))))
       else
         bindR (path sha (drop split leaf_hashes) (m - split)) (\<lambda>p.
         bindR (mth sha (take split leaf_hashes)) (\<lambda>r. bindR (unwrap r) (\<lambda>h. Inr (p @ [h])))))"
  by pat_completeness auto
termination
  by (relation "measure (\<lambda>(sha, xs, m). length xs)") auto

declare path.simps [simp del]

definition inclusion_proof :: "sha256 \<Rightarrow> hash list \<Rightarrow> u64 \<Rightarrow> (proof_error, hash list) result" where
  "inclusion_proof sha leaf_hashes leaf_index = (let n = length leaf_hashes in
     if n \<le> unat leaf_index then Inl (Err (LeafIndexOutOfRange leaf_index (of_nat n)))
     else path sha leaf_hashes (unat leaf_index))"

text \<open>\<^verbatim>\<open>verify_inclusion\<close>: the inner \<^verbatim>\<open>while\<close>, the loop over the proof, the function.\<close>

function skip_zeros :: "u64 \<Rightarrow> u64 \<Rightarrow> u64 \<times> u64" where
  "skip_zeros fn sn = (if fn \<noteq> 0 \<and> fn AND 1 = 0 then skip_zeros (shr64 fn 1) (shr64 sn 1) else (fn, sn))"
  by pat_completeness auto
termination
  by (relation "measure (\<lambda>(fn, sn). unat fn)")
    (auto simp: unat_gt_0)

declare skip_zeros.simps [simp del]

fun verify_inclusion_loop :: "sha256 \<Rightarrow> u64 \<Rightarrow> u64 \<Rightarrow> hash \<Rightarrow> hash list \<Rightarrow> (u64 \<times> hash) option" where
  "verify_inclusion_loop sha fn sn r [] = Some (sn, r)"
| "verify_inclusion_loop sha fn sn r (step # proof) =
     (if sn = 0 then None
      else if fn AND 1 \<noteq> 0 \<or> fn = sn then
        (let r' = node_hash sha step r; (fn', sn') = skip_zeros fn sn
         in verify_inclusion_loop sha (shr64 fn' 1) (shr64 sn' 1) r' proof)
      else verify_inclusion_loop sha (shr64 fn 1) (shr64 sn 1) (node_hash sha r step) proof)"

definition verify_inclusion :: "sha256 \<Rightarrow> hash \<Rightarrow> u64 \<Rightarrow> u64 \<Rightarrow> hash list \<Rightarrow> hash \<Rightarrow> bool" where
  "verify_inclusion sha leaf leaf_index tree_size proof root =
     (if tree_size = 0 \<or> tree_size \<le> leaf_index then False
      else case verify_inclusion_loop sha leaf_index (tree_size - 1) leaf proof of
        None \<Rightarrow> False
      | Some (sn, r) \<Rightarrow> sn = 0 \<and> r = root)"

section \<open>Consistency proofs\<close>

function subproof :: "sha256 \<Rightarrow> hash list \<Rightarrow> nat \<Rightarrow> bool \<Rightarrow> ('e, hash list) result" where
  "subproof sha leaf_hashes m b = (let n = length leaf_hashes in
     if m = n then
       (if b then Inr [] else bindR (mth sha leaf_hashes) (\<lambda>r. bindR (unwrap r) (\<lambda>h. Inr [h])))
     else let split = unat (proof_k (of_nat n)) in
       if \<not> (0 < split \<and> split < n) then Inl (Panic IndexOutOfBounds)
       else if m \<le> split then
         bindR (subproof sha (take split leaf_hashes) m b) (\<lambda>p.
         bindR (mth sha (drop split leaf_hashes)) (\<lambda>r. bindR (unwrap r) (\<lambda>h. Inr (p @ [h]))))
       else
         bindR (subproof sha (drop split leaf_hashes) (m - split) False) (\<lambda>p.
         bindR (mth sha (take split leaf_hashes)) (\<lambda>r. bindR (unwrap r) (\<lambda>h. Inr (p @ [h])))))"
  by pat_completeness auto
termination
  by (relation "measure (\<lambda>(sha, xs, m, b). length xs)") auto

declare subproof.simps [simp del]

definition consistency_proof :: "sha256 \<Rightarrow> hash list \<Rightarrow> u64 \<Rightarrow> (proof_error, hash list) result" where
  "consistency_proof sha leaf_hashes old_size = (let new_size = length leaf_hashes in
     if old_size = 0 \<or> new_size < unat old_size
     then Inl (Err (InvalidSizes old_size (of_nat new_size)))
     else if unat old_size = new_size then Inr []
     else subproof sha leaf_hashes (unat old_size) True)"

text \<open>
  \<^verbatim>\<open>verify_subproof\<close>: the iterator over the proof is the list of unread hashes, returned with the
  pair of roots. The recursion is entered with \<open>0 < m \<le> n\<close> only, so a size \<open>n \<le> 1\<close> other than
  \<open>m\<close> does not arise; the equation returns \<open>None\<close> there.
\<close>

function verify_subproof ::
  "sha256 \<Rightarrow> u64 \<Rightarrow> u64 \<Rightarrow> hash \<Rightarrow> hash list \<Rightarrow> bool \<Rightarrow> ((hash \<times> hash) \<times> hash list) option" where
  "verify_subproof sha m n old_root it b =
     (if m = n then
        (if b then Some ((old_root, old_root), it)
         else (case it of [] \<Rightarrow> None | h # it' \<Rightarrow> Some ((h, h), it')))
      else if n \<le> 1 then None
      else let split = proof_k n in
        if m \<le> split then
          (case verify_subproof sha m split old_root it b of None \<Rightarrow> None
           | Some ((lo, ln), it1) \<Rightarrow>
               (case it1 of [] \<Rightarrow> None | rh # it2 \<Rightarrow> Some ((lo, node_hash sha ln rh), it2)))
        else
          (case verify_subproof sha (m - split) (n - split) old_root it False of None \<Rightarrow> None
           | Some ((ro, rn), it1) \<Rightarrow>
               (case it1 of [] \<Rightarrow> None
                | lh # it2 \<Rightarrow> Some ((node_hash sha lh ro, node_hash sha lh rn), it2))))"
  by pat_completeness auto

lemma proof_k_less:
  assumes "\<not> n \<le> 1"
  shows "unat (proof_k n) < unat n" and "unat (n - proof_k n) < unat n"
    and "unat (n - proof_k n) = unat n - kpow (unat n)"
proof -
  have gt: "1 < unat n" using assms by (simp add: word_le_nat_alt)
  note k = proof_k_kpow [OF gt]
  then show lt: "unat (proof_k n) < unat n" using gt by simp
  then have "proof_k n \<le> n" by (simp add: word_le_nat_alt)
  then show eq: "unat (n - proof_k n) = unat n - kpow (unat n)" using k by (simp add: unat_sub)
  then show "unat (n - proof_k n) < unat n" using gt by simp
qed

termination verify_subproof
  by (relation "measure (\<lambda>(sha, m, n, old, it, b). unat n)") (auto simp: proof_k_less(1) intro: proof_k_less(2))

declare verify_subproof.simps [simp del]

definition verify_consistency :: "sha256 \<Rightarrow> u64 \<Rightarrow> u64 \<Rightarrow> hash list \<Rightarrow> hash \<Rightarrow> hash \<Rightarrow> bool" where
  "verify_consistency sha old_size new_size proof old_root new_root =
     (if old_size = new_size then proof = [] \<and> old_root = new_root
      else if old_size = 0 \<or> new_size < old_size then False
      else case verify_subproof sha old_size new_size old_root proof True of
        Some ((computed_old, computed_new), it) \<Rightarrow>
          it = [] \<and> computed_old = old_root \<and> computed_new = new_root
      | None \<Rightarrow> False)"

section \<open>Generation refines the specification\<close>

lemma mth_nonempty:
  "xs \<noteq> [] \<Longrightarrow> length xs < 2 ^ 64 \<Longrightarrow> mth sha xs = Inr (Some (MTH (node_hash sha) xs))"
  by (simp add: mth_eq)

text \<open>The two slices at the split point are non-empty and shorter.\<close>

lemma slices:
  assumes "1 < length xs"
  shows "take (kpow (length xs)) xs \<noteq> []" "drop (kpow (length xs)) xs \<noteq> []"
    "length (take (kpow (length xs)) xs) = kpow (length xs)"
    "length (drop (kpow (length xs)) xs) < length xs"
  using assms kpow_less [OF assms] diff_kpow_less [OF assms] by (auto simp: not_le)

theorem path_eq:
  "m < length xs \<Longrightarrow> length xs < 2 ^ 64 \<Longrightarrow>
   (path sha xs m :: ('e, hash list) result) = Inr (PATH (node_hash sha) xs m)"
proof (induction xs arbitrary: m rule: length_induct)
  case (1 xs)
  let ?k = "kpow (length xs)"
  show ?case
  proof (cases "length xs = 1")
    case True
    then show ?thesis by (simp add: path.simps PATH_single)
  next
    case False
    then have gt: "1 < length xs" using "1.prems"(1) by linarith
    note k = proof_k_of_nat [OF gt "1.prems"(2)] and sl = slices [OF gt]
    have roots: "(mth sha ys :: ('e, hash option) result) = Inr (Some (MTH (node_hash sha) ys))"
      if "ys = take ?k xs \<or> ys = drop ?k xs" for ys
      using that sl "1.prems"(2) by (intro mth_nonempty) auto
    show ?thesis
    proof (cases "m < ?k")
      case True
      then have "(path sha (take ?k xs) m :: ('e, hash list) result) = Inr (PATH (node_hash sha) (take ?k xs) m)"
        using "1.IH" "1.prems"(2) sl(3) kpow_less [OF gt] by simp
      with True gt k roots show ?thesis
        by (subst path.simps) (auto simp: Let_def PATH_left)
    next
      case False
      then have "(path sha (drop ?k xs) (m - ?k) :: ('e, hash list) result) = Inr (PATH (node_hash sha) (drop ?k xs) (m - ?k))"
        using "1.IH" "1.prems" sl(4) by (simp add: diff_less_mono)
      with False gt k roots show ?thesis
        by (subst path.simps) (auto simp: Let_def PATH_right)
    qed
  qed
qed

theorem subproof_eq:
  "0 < m \<Longrightarrow> m \<le> length xs \<Longrightarrow> length xs < 2 ^ 64 \<Longrightarrow>
   (subproof sha xs m b :: ('e, hash list) result) = Inr (SUBPROOF (node_hash sha) xs m b)"
proof (induction xs arbitrary: m b rule: length_induct)
  case (1 xs)
  let ?k = "kpow (length xs)"
  show ?case
  proof (cases "m = length xs")
    case True
    with "1.prems" show ?thesis
      by (subst subproof.simps) (auto simp: SUBPROOF_base mth_nonempty)
  next
    case False
    then have lt: "m < length xs" and gt: "1 < length xs" using "1.prems" by linarith+
    note k = proof_k_of_nat [OF gt "1.prems"(3)] and sl = slices [OF gt]
    have roots: "(mth sha ys :: ('e, hash option) result) = Inr (Some (MTH (node_hash sha) ys))"
      if "ys = take ?k xs \<or> ys = drop ?k xs" for ys
      using that sl "1.prems"(3) by (intro mth_nonempty) auto
    show ?thesis
    proof (cases "m \<le> ?k")
      case True
      then have "(subproof sha (take ?k xs) m b :: ('e, hash list) result) = Inr (SUBPROOF (node_hash sha) (take ?k xs) m b)"
        using "1.IH" "1.prems" sl(3) kpow_less [OF gt] by simp
      with True gt k roots lt show ?thesis
        by (subst subproof.simps) (auto simp: Let_def SUBPROOF_left)
    next
      case False
      then have "(subproof sha (drop ?k xs) (m - ?k) False :: ('e, hash list) result) =
          Inr (SUBPROOF (node_hash sha) (drop ?k xs) (m - ?k) False)"
        using "1.IH" "1.prems" sl(4) by simp
      with False gt k roots lt show ?thesis
        by (subst subproof.simps) (auto simp: Let_def SUBPROOF_right)
    qed
  qed
qed

section \<open>Verification refines the specification\<close>

lemma skip_zeros_strip:
  "skip_zeros fn sn = (fn', sn') \<Longrightarrow> strip (unat fn) (unat sn) = (unat fn', unat sn')"
proof (induction fn sn arbitrary: fn' sn' rule: skip_zeros.induct)
  case (1 fn sn)
  show ?case
  proof (cases "fn \<noteq> 0 \<and> fn AND 1 = 0")
    case True
    with "1.prems" have "skip_zeros (shr64 fn 1) (shr64 sn 1) = (fn', sn')"
      by (subst (asm) skip_zeros.simps) simp
    with "1.IH" [OF True] have "strip (unat fn div 2) (unat sn div 2) = (unat fn', unat sn')" by simp
    moreover from True have "unat fn \<noteq> 0" "even (unat fn)" by (simp_all add: u64_and_1 unat_eq_0)
    ultimately show ?thesis by (subst strip.simps) simp
  next
    case False
    with "1.prems" have "fn' = fn" "sn' = sn" by (subst (asm) skip_zeros.simps, force)+
    moreover from False have "unat fn = 0 \<or> odd (unat fn)" by (auto simp: u64_and_1)
    ultimately show ?thesis by (subst strip.simps) auto
  qed
qed

lemma verify_inclusion_loop_nloop:
  "map_option (\<lambda>(sn, h). (unat sn, h)) (verify_inclusion_loop sha fn sn r p) =
   map_option snd (nloop (node_hash sha) (unat fn) (unat sn) r p)"
proof (induction p arbitrary: fn sn r)
  case Nil
  then show ?case by simp
next
  case (Cons step p)
  obtain fn' sn' where sk: "skip_zeros fn sn = (fn', sn')" by fastforce
  have eq: "unat fn = unat sn \<longleftrightarrow> fn = sn" by (simp add: word_unat_eq_iff)
  show ?case
    using Cons.IH [of "shr64 fn 1" "shr64 sn 1" "node_hash sha r step"]
      Cons.IH [of "shr64 fn' 1" "shr64 sn' 1" "node_hash sha step r"]
    by (simp add: sk skip_zeros_strip [OF sk] u64_and_1 unat_eq_0 eq Let_def)
qed

lemma verify_inclusion_recon:
  "verify_inclusion sha l i n p root \<longleftrightarrow>
   i < n \<and> recon (node_hash sha) (unat n) (unat i) p l = Some root"
proof (cases "i < n")
  case True
  then have n: "n \<noteq> 0" by auto
  then have un: "unat (n - 1) = unat n - 1" by (simp add: unat_minus_one)
  have "verify_inclusion sha l i n p root \<longleftrightarrow>
      map_option (\<lambda>(sn, h). (unat sn, h)) (verify_inclusion_loop sha i (n - 1) l p) = Some (0, root)"
    using True n
    by (auto simp: verify_inclusion_def not_le unat_eq_0 simp flip: not_less split: option.splits)
  also have "\<dots> \<longleftrightarrow> (\<exists>f. nloop (node_hash sha) (unat i) (unat n - 1) l p = Some (f, 0, root))"
    unfolding verify_inclusion_loop_nloop un by auto
  also have "\<dots> \<longleftrightarrow> recon (node_hash sha) (unat n) (unat i) p l = Some root"
    using True by (intro nloop_iff_recon) (simp add: word_less_nat_alt)
  finally show ?thesis using True by simp
next
  case False
  then show ?thesis by (simp add: verify_inclusion_def not_less)
qed

interpretation core_incl: inclusion_verifier "node_hash sha" "verify_inclusion sha" for sha
  by unfold_locales (rule verify_inclusion_recon)

lemma verify_subproof_recon2:
  "0 < unat m \<Longrightarrow> m \<le> n \<Longrightarrow>
   verify_subproof sha m n old it b = recon2 (node_hash sha) (unat m) (unat n) old it b"
proof (induction sha m n old it b rule: verify_subproof.induct)
  case (1 sha m n old it b)
  show ?case
  proof (cases "m = n")
    case True
    then show ?thesis by (subst verify_subproof.simps) (simp add: recon2_base)
  next
    case False
    then have lt: "unat m < unat n" using "1.prems"(2) by (metis nat_less_le word_le_nat_alt word_unat_eq_iff)
    then have gt: "1 < unat n" and n1: "\<not> n \<le> 1" using "1.prems"(1) by (simp_all add: word_le_nat_alt)
    note k = proof_k_kpow [OF gt] and nk = proof_k_less(3) [OF n1]
    show ?thesis
    proof (cases "m \<le> proof_k n")
      case True
      then have "verify_subproof sha m (proof_k n) old it b =
          recon2 (node_hash sha) (unat m) (kpow (unat n)) old it b"
        using "1.IH"(1) [OF False n1 refl True] "1.prems"(1) k by simp
      moreover have "unat m \<le> kpow (unat n)" using True k by (simp add: word_le_nat_alt)
      ultimately show ?thesis
        using False n1 True lt gt by (subst verify_subproof.simps) (simp add: recon2_left)
    next
      case mk: False
      have lk: "kpow (unat n) < unat m" using mk k by (simp add: word_le_nat_alt)
      then have mk': "unat (m - proof_k n) = unat m - kpow (unat n)"
        using k by (simp add: unat_sub word_le_nat_alt)
      have "verify_subproof sha (m - proof_k n) (n - proof_k n) old it False =
          recon2 (node_hash sha) (unat m - kpow (unat n)) (unat n - kpow (unat n)) old it False"
        using "1.IH"(2) [OF False n1 refl mk] mk' nk lk lt by (simp add: word_le_nat_alt)
      with False n1 mk lk lt gt show ?thesis
        by (subst verify_subproof.simps) (simp add: recon2_right)
    qed
  qed
qed

lemma verify_consistency_recon2:
  "verify_consistency sha m n p old new \<longleftrightarrow>
    (if m = n then p = [] \<and> old = new
     else 0 < m \<and> m < n \<and>
       recon2 (node_hash sha) (unat m) (unat n) old p True = Some ((old, new), []))"
proof (cases "m \<noteq> n \<and> 0 < m \<and> m < n")
  case True
  then have "verify_subproof sha m n old p True = recon2 (node_hash sha) (unat m) (unat n) old p True"
    by (intro verify_subproof_recon2) (auto simp: word_gt_0 unat_gt_0)
  with True show ?thesis
    by (auto simp: verify_consistency_def not_less order.strict_iff_order split: option.splits)
next
  case False
  then show ?thesis by (auto simp: verify_consistency_def word_gt_0 not_less order.strict_iff_order)
qed

interpretation core_cons: consistency_verifier "node_hash sha" "verify_consistency sha" "2 ^ 64" for sha
  by unfold_locales (rule verify_consistency_recon2)

section \<open>Properties of the proof functions\<close>

lemma inclusion_proof_PATH:
  "unat i < length xs \<Longrightarrow> length xs < 2 ^ 64 \<Longrightarrow> inclusion_proof sha xs i = Inr (PATH (node_hash sha) xs (unat i))"
  by (simp add: inclusion_proof_def path_eq)

lemma consistency_proof_SUBPROOF:
  "0 < m \<Longrightarrow> unat m \<le> length xs \<Longrightarrow> length xs < 2 ^ 64 \<Longrightarrow>
   consistency_proof sha xs m = Inr (SUBPROOF (node_hash sha) xs (unat m) True)"
  by (auto simp: consistency_proof_def Let_def subproof_eq SUBPROOF_base word_gt_0 unat_gt_0)

lemma mth_Some_iff:
  "length xs < 2 ^ 64 \<Longrightarrow>
   (mth sha xs :: ('e, hash option) result) = Inr (Some r) \<longleftrightarrow> xs \<noteq> [] \<and> r = MTH (node_hash sha) xs"
  by (auto simp: mth_eq)

text \<open>
  C10. Completeness of inclusion proofs: for every leaf of a log (below \<open>2 ^ 64\<close> leaves) the generator
  returns a proof, and the verifier accepts it against the root of the log.
\<close>

theorem inclusion_complete:
  fixes xs :: "hash list"
  assumes "unat i < length xs" and "length xs < 2 ^ 64"
  shows "\<exists>p root. inclusion_proof sha xs i = Inr p
    \<and> (mth sha xs :: (proof_error, hash option) result) = Inr (Some root)
    \<and> verify_inclusion sha (xs ! unat i) i (of_nat (length xs)) p root"
proof (intro exI conjI)
  show "inclusion_proof sha xs i = Inr (PATH (node_hash sha) xs (unat i))"
    using assms by (rule inclusion_proof_PATH)
  show "(mth sha xs :: (proof_error, hash option) result) = Inr (Some (MTH (node_hash sha) xs))"
    using assms by (intro mth_nonempty) auto
  show "verify_inclusion sha (xs ! unat i) i (of_nat (length xs)) (PATH (node_hash sha) xs (unat i))
      (MTH (node_hash sha) xs)"
    using core_incl.incl_complete [OF assms] by simp
qed

theorem inclusion_complete_witness:
  "\<exists>p root. inclusion_proof toy_sha [arr_of [1], arr_of [2], arr_of [3]] 2 = Inr p
    \<and> (mth toy_sha [arr_of [1], arr_of [2], arr_of [3]] :: (proof_error, hash option) result) = Inr (Some root)
    \<and> verify_inclusion toy_sha (arr_of [3]) 2 3 p root"
  using inclusion_complete [of 2 "[arr_of [1], arr_of [2], arr_of [3]]" toy_sha] by simp

text \<open>
  C2. Soundness of inclusion proofs: if the verifier accepts the entry \<open>d\<close> at index \<open>i\<close> against the
  root of the log \<open>ds\<close>, then \<open>d\<close> is the \<open>i\<close>-th entry of the log and the proof is the one the generator
  returns, unless two of the byte strings hashed on the way collide.
\<close>

theorem inclusion_sound:
  assumes acc: "verify_inclusion sha (leaf_hash sha d) i (of_nat (length ds)) p root"
    and root: "(mth sha (map (leaf_hash sha) ds) :: (proof_error, hash option) result) = Inr (Some root)"
    and len: "length ds < 2 ^ 64"
    and coll: "inj_on sha (tree_inputs sha ds \<union> {leaf_input d} \<union>
      node_input ` set (recon_pairs (node_hash sha) (length ds) (unat i) p (leaf_hash sha d)))"
  shows "unat i < length ds \<and> d = ds ! unat i \<and> inclusion_proof sha (map (leaf_hash sha) ds) i = Inr p"
proof -
  let ?xs = "map (leaf_hash sha) ds"
  have un: "unat (of_nat (length ds) :: u64) = length ds" using len by (rule unat_of_nat_u64)
  from root len have r: "root = MTH (node_hash sha) ?xs" by (simp add: mth_Some_iff)
  have i: "unat i < length ds"
    using acc un by (simp add: core_incl.verify_law word_less_nat_alt)
  have "inj_on sha (node_input ` (set (MTH_pairs (node_hash sha) ?xs) \<union>
      set (recon_pairs (node_hash sha) (length ds) (unat i) p (leaf_hash sha d))))"
    by (rule inj_on_subset [OF coll]) (auto simp: tree_inputs_def)
  then have "leaf_hash sha d = ?xs ! unat i" and p: "p = PATH (node_hash sha) ?xs (unat i)"
    using core_incl.incl_sound [OF acc [unfolded r]] un by (simp_all add: inj_on_node_hash)
  then have "sha (leaf_input d) = sha (leaf_input (ds ! unat i))" using i by (simp add: leaf_hash_input)
  then have "d = ds ! unat i"
    using inj_onD [OF coll, of "leaf_input d" "leaf_input (ds ! unat i)"] i by (simp add: tree_inputs_def)
  with i p len show ?thesis by (simp add: inclusion_proof_def path_eq)
qed

text \<open>
  C9. Completeness of consistency proofs: for every non-empty prefix of a log the generator returns a
  proof, and the verifier accepts it against the roots of the prefix and of the log.
\<close>

theorem consistency_complete:
  fixes xs :: "hash list"
  assumes "0 < m" and "unat m \<le> length xs" and "length xs < 2 ^ 64"
  shows "\<exists>p old new. consistency_proof sha xs m = Inr p
    \<and> (mth sha (take (unat m) xs) :: (proof_error, hash option) result) = Inr (Some old)
    \<and> (mth sha xs :: (proof_error, hash option) result) = Inr (Some new)
    \<and> verify_consistency sha m (of_nat (length xs)) p old new"
proof (intro exI conjI)
  have m: "0 < unat m" using assms(1) by (simp add: word_gt_0 unat_gt_0)
  then show "consistency_proof sha xs m = Inr (SUBPROOF (node_hash sha) xs (unat m) True)"
    using assms by (intro consistency_proof_SUBPROOF)
  show "(mth sha (take (unat m) xs) :: (proof_error, hash option) result) = Inr (Some (MTH (node_hash sha) (take (unat m) xs)))"
    and "(mth sha xs :: (proof_error, hash option) result) = Inr (Some (MTH (node_hash sha) xs))"
    using assms m by (auto intro!: mth_nonempty)
  show "verify_consistency sha m (of_nat (length xs)) (SUBPROOF (node_hash sha) xs (unat m) True)
      (MTH (node_hash sha) (take (unat m) xs)) (MTH (node_hash sha) xs)"
    using core_cons.cons_complete [OF m assms(2,3)] assms(3) by simp
qed

theorem consistency_complete_witness:
  "\<exists>p old new. consistency_proof toy_sha [arr_of [1], arr_of [2], arr_of [3]] 2 = Inr p
    \<and> (mth toy_sha [arr_of [1], arr_of [2]] :: (proof_error, hash option) result) = Inr (Some old)
    \<and> (mth toy_sha [arr_of [1], arr_of [2], arr_of [3]] :: (proof_error, hash option) result) = Inr (Some new)
    \<and> verify_consistency toy_sha 2 3 p old new"
  using consistency_complete [of 2 "[arr_of [1], arr_of [2], arr_of [3]]" toy_sha]
  by (simp add: take_Cons')

text \<open>
  C1. Tamper evidence: if the verifier accepts a consistency proof between the roots of the logs \<open>olds\<close>
  and \<open>news\<close>, then \<open>olds\<close> is a prefix of \<open>news\<close>, entry by entry: nothing was changed, removed or
  reordered, unless two of the byte strings hashed on the way collide.
\<close>

theorem consistency_append_only:
  assumes acc: "verify_consistency sha (of_nat (length olds)) (of_nat (length news)) p r_old r_new"
    and old: "(mth sha (map (leaf_hash sha) olds) :: (proof_error, hash option) result) = Inr (Some r_old)"
    and new: "(mth sha (map (leaf_hash sha) news) :: (proof_error, hash option) result) = Inr (Some r_new)"
    and len: "length olds < 2 ^ 64" "length news < 2 ^ 64"
    and coll: "inj_on sha (tree_inputs sha olds \<union> tree_inputs sha news \<union>
      tree_inputs sha (take (length olds) news) \<union>
      node_input ` set (recon2_pairs (node_hash sha) (length olds) (length news) r_old p True))"
  shows "\<exists>added. news = olds @ added"
proof -
  let ?nd = "node_hash sha" and ?xs = "map (leaf_hash sha) news" and ?ys = "map (leaf_hash sha) olds"
  have un: "unat (of_nat (length olds) :: u64) = length olds" "unat (of_nat (length news) :: u64) = length news"
    using len by (simp_all add: unat_of_nat_u64)
  from old new len have r: "r_old = MTH ?nd ?ys" "r_new = MTH ?nd ?xs" and "olds \<noteq> []"
    by (simp_all add: mth_Some_iff)
  have "inj_on sha (node_input ` (set (MTH_pairs ?nd ?xs) \<union> set (MTH_pairs ?nd ?ys) \<union>
      set (MTH_pairs ?nd (take (length olds) ?xs)) \<union>
      set (recon2_pairs ?nd (length olds) (length news) (MTH ?nd ?ys) p True)))"
    by (rule inj_on_subset [OF coll]) (auto simp: tree_inputs_def take_map r)
  then have "inj_on (case_prod ?nd) (set (MTH_pairs ?nd ?xs) \<union> set (MTH_pairs ?nd ?ys) \<union>
      set (MTH_pairs ?nd (take (length olds) ?xs)) \<union>
      set (recon2_pairs ?nd (length olds) (length news) (MTH ?nd ?ys) p True))"
    by (rule inj_on_node_hash)
  with core_cons.cons_append_only [OF acc [unfolded r]] un len \<open>olds \<noteq> []\<close>
  have "map (leaf_hash sha) olds = map (leaf_hash sha) (take (length olds) news)"
    by (simp add: take_map)
  then have "olds = take (length olds) news"
    by (rule inj_on_map_leaf_hash) (rule inj_on_subset [OF coll], auto simp: tree_inputs_def)
  then show ?thesis by (metis append_take_drop_id)
qed

text \<open>
  Every accepted inclusion proof is short: for a tree of at most \<open>2 ^ d\<close> leaves it has at most \<open>d\<close>
  hashes, so never more than 64.
\<close>

theorem verify_inclusion_length:
  assumes "verify_inclusion sha l i n p root" and "unat n \<le> 2 ^ d"
  shows "length p \<le> d"
  using core_incl.incl_length [OF assms(1)] assms path_len_bound [of "unat i" "unat n" d]
  by (simp add: core_incl.verify_law word_less_nat_alt)

theorem verify_inclusion_length_witness:
  "length [arr_of [2] :: hash] \<le> 1"
proof (rule verify_inclusion_length)
  show "verify_inclusion toy_sha (arr_of [1]) 0 2 [arr_of [2]] (arr_of [1, 1, 2])" by code_simp
qed simp

theorem inclusion_sound_witness:
  "unat (1 :: u64) < length [[1], [2 :: u8]] \<and> [2] = [[1], [2 :: u8]] ! unat (1 :: u64) \<and>
   inclusion_proof toy_sha (map (leaf_hash toy_sha) [[1], [2]]) 1 = Inr [arr_of [1]]"
proof (rule inclusion_sound)
  show "verify_inclusion toy_sha (leaf_hash toy_sha [2]) 1 (of_nat (length [[1], [2 :: u8]]))
      [arr_of [1]] (arr_of [1, 1, 2])"
    by code_simp
  show "(mth toy_sha (map (leaf_hash toy_sha) [[1], [2]]) :: (proof_error, hash option) result) =
      Inr (Some (arr_of [1, 1, 2]))"
    by code_simp
  show "inj_on toy_sha (tree_inputs toy_sha [[1], [2]] \<union> {leaf_input [2]} \<union>
      node_input ` set (recon_pairs (node_hash toy_sha) (length [[1], [2 :: u8]]) (unat (1 :: u64))
        [arr_of [1]] (leaf_hash toy_sha [2])))"
    unfolding inj_on_def by code_simp
qed simp

theorem consistency_append_only_witness:
  "\<exists>added. [[1], [2 :: u8]] = [[1]] @ added"
proof (rule consistency_append_only)
  show "verify_consistency toy_sha (of_nat (length [[1 :: u8]])) (of_nat (length [[1], [2 :: u8]]))
      [arr_of [2]] (arr_of [1]) (arr_of [1, 1, 2])"
    by code_simp
  show "(mth toy_sha (map (leaf_hash toy_sha) [[1]]) :: (proof_error, hash option) result) =
      Inr (Some (arr_of [1]))"
    by code_simp
  show "(mth toy_sha (map (leaf_hash toy_sha) [[1], [2]]) :: (proof_error, hash option) result) =
      Inr (Some (arr_of [1, 1, 2]))"
    by code_simp
  show "inj_on toy_sha (tree_inputs toy_sha [[1]] \<union> tree_inputs toy_sha [[1], [2]] \<union>
      tree_inputs toy_sha (take (length [[1 :: u8]]) [[1], [2]]) \<union>
      node_input ` set (recon2_pairs (node_hash toy_sha) (length [[1 :: u8]]) (length [[1], [2 :: u8]])
        (arr_of [1]) [arr_of [2]] True))"
    unfolding inj_on_def by code_simp
qed simp_all

text \<open>
  The error branches of the generators are exactly the documented ones, and below \<open>2 ^ 64\<close> leaves
  neither generator panics: an index outside the log is \<^verbatim>\<open>LeafIndexOutOfRange\<close>, a zero or too large
  old size is \<^verbatim>\<open>InvalidSizes\<close>, and every other call returns a proof.
\<close>

theorem proof_generation_errors:
  fixes xs :: "hash list"
  assumes "length xs < 2 ^ 64"
  shows "(inclusion_proof sha xs i = Inl e \<longleftrightarrow>
       length xs \<le> unat i \<and> e = Err (LeafIndexOutOfRange i (of_nat (length xs))))
    \<and> (consistency_proof sha xs m = Inl e \<longleftrightarrow>
       (m = 0 \<or> length xs < unat m) \<and> e = Err (InvalidSizes m (of_nat (length xs))))"
proof
  show "inclusion_proof sha xs i = Inl e \<longleftrightarrow>
      length xs \<le> unat i \<and> e = Err (LeafIndexOutOfRange i (of_nat (length xs)))"
    using assms by (auto simp: inclusion_proof_def Let_def path_eq not_le)
  show "consistency_proof sha xs m = Inl e \<longleftrightarrow>
      (m = 0 \<or> length xs < unat m) \<and> e = Err (InvalidSizes m (of_nat (length xs)))"
    using assms by (auto simp: consistency_proof_def Let_def subproof_eq not_less unat_gt_0)
qed

theorem proof_generation_errors_witness:
  "(inclusion_proof toy_sha [arr_of [1]] 1 = Inl (Err (LeafIndexOutOfRange 1 1)) \<longleftrightarrow>
       length [arr_of [1] :: hash] \<le> unat (1 :: u64) \<and>
       Err (LeafIndexOutOfRange 1 1) = Err (LeafIndexOutOfRange 1 (of_nat (length [arr_of [1] :: hash]))))
   \<and> (consistency_proof toy_sha [arr_of [1]] 0 = Inl (Err (LeafIndexOutOfRange 1 1)) \<longleftrightarrow>
       ((0 :: u64) = 0 \<or> length [arr_of [1] :: hash] < unat (0 :: u64)) \<and>
       Err (LeafIndexOutOfRange 1 1) = Err (InvalidSizes 0 (of_nat (length [arr_of [1] :: hash]))))"
  by (rule proof_generation_errors) simp

end
