(* ===== verification/Server_Limits.thy ===== *)
theory Server_Limits
  imports Complex_Main Prelude
begin

text \<open>
  \<^verbatim>\<open>settled-server/src/rate_limit.rs\<close>: the token bucket. Its numbers are \<^verbatim>\<open>f64\<close>: a double is modelled
  as the real number it stands for, and every arithmetic operation is the exact one followed by a
  rounding function \<open>rnd\<close>, a parameter. The lemmas use three facts of IEEE rounding, \<open>rnd_laws\<close>: it is
  monotone, it leaves representable numbers alone, and the integers up to \<open>2 ^ 53\<close> are representable.
  No overflow to infinity and no NaN arises: the operands are bounded by the clock and by \<^verbatim>\<open>u32\<close> rates.
  \<^verbatim>\<open>Instant\<close> is a monotonic clock in nanoseconds.
\<close>

definition rnd_laws :: "(real \<Rightarrow> real) \<Rightarrow> bool" where
  "rnd_laws rnd \<longleftrightarrow> mono rnd \<and> (\<forall>x. rnd (rnd x) = rnd x) \<and> (\<forall>n \<le> 2 ^ 53. rnd (real n) = real n)"

record bucket =
  tokens :: real
  capacity :: real
  rate :: real
  last_ns :: nat

definition bucket_new :: "u32 \<Rightarrow> nat \<Rightarrow> bucket" where
  "bucket_new rate_per_sec now =
     (let cap = real (unat rate_per_sec) in \<lparr>tokens = cap, capacity = cap, rate = cap, last_ns = now\<rparr>)"

text \<open>\<^verbatim>\<open>duration_since(..).as_secs_f64()\<close>: whole seconds plus nanoseconds over a billion; saturating.\<close>

definition elapsed_secs :: "(real \<Rightarrow> real) \<Rightarrow> nat \<Rightarrow> nat \<Rightarrow> real" where
  "elapsed_secs rnd now since =
     (let ns = now - since in rnd (rnd (real (ns div 10 ^ 9)) + rnd (real (ns mod 10 ^ 9) / 10 ^ 9)))"

definition refill :: "(real \<Rightarrow> real) \<Rightarrow> nat \<Rightarrow> bucket \<Rightarrow> bucket" where
  "refill rnd now b =
     b\<lparr>tokens := min (rnd (tokens b + rnd (elapsed_secs rnd now (last_ns b) * rate b))) (capacity b), last_ns := now\<rparr>"

definition try_consume :: "(real \<Rightarrow> real) \<Rightarrow> nat \<Rightarrow> bucket \<Rightarrow> bucket \<times> bool" where
  "try_consume rnd now b = (let b = refill rnd now b in
     if 1 \<le> tokens b then (b\<lparr>tokens := rnd (tokens b - 1)\<rparr>, True) else (b, False))"

definition try_consume_n :: "(real \<Rightarrow> real) \<Rightarrow> nat \<Rightarrow> u32 \<Rightarrow> bucket \<Rightarrow> bucket \<times> bool" where
  "try_consume_n rnd now n b = (let n = real (unat n); b = refill rnd now b in
     if n \<le> tokens b then (b\<lparr>tokens := rnd (tokens b - n)\<rparr>, True) else (b, False))"

text \<open>The level of a bucket stays between zero and its capacity, a \<^verbatim>\<open>u32\<close>, and is a double.\<close>

definition bucket_inv :: "(real \<Rightarrow> real) \<Rightarrow> bucket \<Rightarrow> bool" where
  "bucket_inv rnd b \<longleftrightarrow> 0 \<le> tokens b \<and> tokens b \<le> capacity b \<and> rnd (tokens b) = tokens b \<and>
     rnd (capacity b) = capacity b \<and> 0 \<le> rate b"

declare of_nat_unat [simp del]

lemma rnd_lawsD:
  assumes "rnd_laws rnd"
  shows "x \<le> y \<Longrightarrow> rnd x \<le> rnd y" and "rnd (rnd x) = rnd x" and "n \<le> 2 ^ 53 \<Longrightarrow> rnd (real n) = real n"
    and "rnd 0 = 0" and "0 \<le> x \<Longrightarrow> 0 \<le> rnd x"
proof -
  show m: "x \<le> y \<Longrightarrow> rnd x \<le> rnd y" for x y using assms by (simp add: rnd_laws_def mono_def)
  show "rnd (rnd x) = rnd x" using assms by (simp add: rnd_laws_def)
  show i: "n \<le> 2 ^ 53 \<Longrightarrow> rnd (real n) = real n" for n using assms by (simp add: rnd_laws_def)
  from i [of 0] show z: "rnd 0 = 0" by simp
  with m [of 0 x] show "0 \<le> x \<Longrightarrow> 0 \<le> rnd x" by simp
qed

lemma u32_le_2p53: "unat (n :: u32) \<le> 2 ^ 53"
  using unat_lt2p [of n] by simp

lemma bucket_new_inv:
  assumes "rnd_laws rnd"
  shows "bucket_inv rnd (bucket_new n now)"
  by (simp add: bucket_inv_def bucket_new_def Let_def rnd_lawsD(3) [OF assms u32_le_2p53])

lemma elapsed_nonneg:
  assumes "rnd_laws rnd"
  shows "0 \<le> elapsed_secs rnd now since"
  unfolding elapsed_secs_def Let_def by (intro rnd_lawsD(5) [OF assms] add_nonneg_nonneg) simp_all

lemma refill_inv:
  assumes "rnd_laws rnd" and "bucket_inv rnd b"
  shows "bucket_inv rnd (refill rnd now b)"
proof -
  let ?x = "rnd (tokens b + rnd (elapsed_secs rnd now (last_ns b) * rate b))"
  have "0 \<le> rnd (elapsed_secs rnd now (last_ns b) * rate b)"
    using assms(2) by (intro rnd_lawsD(5) [OF assms(1)] mult_nonneg_nonneg elapsed_nonneg [OF assms(1)])
      (simp add: bucket_inv_def)
  then have "0 \<le> ?x"
    using assms(2) by (intro rnd_lawsD(5) [OF assms(1), of "tokens b + _"]) (simp add: bucket_inv_def)
  moreover have "rnd (min ?x (capacity b)) = min ?x (capacity b)"
    using assms(2) rnd_lawsD(2) [OF assms(1)] by (auto simp: min_def bucket_inv_def)
  moreover have "0 \<le> capacity b" using assms(2) by (simp add: bucket_inv_def)
  ultimately show ?thesis using assms(2) by (simp add: bucket_inv_def refill_def)
qed

lemma consume_inv:
  assumes "rnd_laws rnd" and "bucket_inv rnd b" and "0 \<le> n" and "n \<le> tokens b"
  shows "bucket_inv rnd (b\<lparr>tokens := rnd (tokens b - n)\<rparr>)"
proof -
  have "rnd (tokens b - n) \<le> rnd (tokens b)" using assms(3) by (intro rnd_lawsD(1) [OF assms(1)]) simp
  then have "rnd (tokens b - n) \<le> capacity b" using assms(2) by (simp add: bucket_inv_def)
  with assms(2,4) rnd_lawsD(2,5) [OF assms(1), of "tokens b - n"] show ?thesis by (simp add: bucket_inv_def)
qed

text \<open>
  The token bucket never leaves its range: every call of \<^verbatim>\<open>try_consume\<close> and \<^verbatim>\<open>try_consume_n\<close> keeps
  the level between zero and the capacity, whatever the clock does; a refused call only refills.
\<close>

theorem rate_limiter_bounds:
  assumes "rnd_laws rnd" and "bucket_inv rnd b"
  shows "bucket_inv rnd (fst (try_consume rnd now b)) \<and> bucket_inv rnd (fst (try_consume_n rnd now n b))
    \<and> (\<not> snd (try_consume_n rnd now n b) \<longrightarrow>
         fst (try_consume_n rnd now n b) = refill rnd now b \<and> tokens (refill rnd now b) < real (unat n))"
  using refill_inv [OF assms, of now] consume_inv [OF assms(1) refill_inv [OF assms, of now]]
  by (auto simp: try_consume_def try_consume_n_def Let_def)

theorem rate_limiter_bounds_witness:
  "bucket_inv (\<lambda>x. x) (fst (try_consume (\<lambda>x. x) 7 (bucket_new 2 3)))
    \<and> bucket_inv (\<lambda>x. x) (fst (try_consume_n (\<lambda>x. x) 7 5 (bucket_new 2 3)))
    \<and> fst (try_consume_n (\<lambda>x. x) 7 5 (bucket_new 2 3)) = refill (\<lambda>x. x) 7 (bucket_new 2 3)"
proof -
  have "\<not> snd (try_consume_n (\<lambda>x. x) 7 5 (bucket_new 2 3))"
    by (simp add: try_consume_n_def Let_def refill_def bucket_new_def min_def)
  moreover have "rnd_laws (\<lambda>x. x)" and "bucket_inv (\<lambda>x. x) (bucket_new 2 3)"
    by (simp_all add: rnd_laws_def mono_def bucket_new_inv)
  note rate_limiter_bounds [OF this, of 7 5]
  ultimately show ?thesis by blast
qed

text \<open>
  A history of calls, each with its instant and its size (\<^verbatim>\<open>try_consume\<close> is the call of size one): the bucket
  after it, and the number of entries that were let through.
\<close>

fun limiter_run :: "(real \<Rightarrow> real) \<Rightarrow> (nat \<times> u32) list \<Rightarrow> bucket \<Rightarrow> bucket \<times> nat" where
  "limiter_run rnd [] b = (b, 0)"
| "limiter_run rnd ((now, n) # calls) b =
     (let (b', ok) = try_consume_n rnd now n b; (b'', k) = limiter_run rnd calls b'
      in (b'', if ok then unat n + k else k))"

lemma try_consume_one: "try_consume rnd now b = try_consume_n rnd now 1 b"
  by (simp add: try_consume_def try_consume_n_def)

lemma try_consume_n_cases:
  obtains (admitted)
      "try_consume_n rnd now n b = ((refill rnd now b)\<lparr>tokens := rnd (tokens (refill rnd now b) - real (unat n))\<rparr>, True)"
      "real (unat n) \<le> tokens (refill rnd now b)"
    | (refused) "try_consume_n rnd now n b = (refill rnd now b, False)"
  by (cases "real (unat n) \<le> tokens (refill rnd now b)") (simp_all add: try_consume_n_def Let_def)

lemma refill_frame [simp]:
  "capacity (refill rnd now b) = capacity b" "rate (refill rnd now b) = rate b" "last_ns (refill rnd now b) = now"
  by (simp_all add: refill_def)

lemma try_consume_n_frame [simp]:
  "capacity (fst (try_consume_n rnd now n b)) = capacity b" "rate (fst (try_consume_n rnd now n b)) = rate b"
  "last_ns (fst (try_consume_n rnd now n b)) = now"
  by (cases rule: try_consume_n_cases [of rnd now n b]; simp)+

lemma try_consume_n_inv:
  assumes "rnd_laws rnd" and "bucket_inv rnd b"
  shows "bucket_inv rnd (fst (try_consume_n rnd now n b))"
  using refill_inv [OF assms, of now] consume_inv [OF assms(1) refill_inv [OF assms, of now], of "real (unat n)"]
  by (cases rule: try_consume_n_cases [of rnd now n b]) simp_all

lemma limiter_run_inv:
  assumes "rnd_laws rnd"
  shows "bucket_inv rnd b \<Longrightarrow> bucket_inv rnd (fst (limiter_run rnd calls b))
    \<and> capacity (fst (limiter_run rnd calls b)) = capacity b \<and> rate (fst (limiter_run rnd calls b)) = rate b"
proof (induction calls arbitrary: b)
  case (Cons c calls)
  obtain now n where c: "c = (now, n)" by fastforce
  from Cons.IH [OF try_consume_n_inv [OF assms Cons.prems, of now n]] show ?case
    by (simp add: c split_beta)
qed simp

text \<open>At one instant a bucket is refilled once; after that a burst can only drain it.\<close>

lemma refill_same_instant:
  assumes "rnd_laws rnd" and "bucket_inv rnd b" and "last_ns b = now"
  shows "refill rnd now b = b"
  using assms(2,3) rnd_lawsD(4) [OF assms(1)] by (simp add: refill_def elapsed_secs_def bucket_inv_def)

lemma burst_drains:
  assumes "rnd_laws rnd"
  shows "bucket_inv rnd b \<Longrightarrow> last_ns b = now \<Longrightarrow> tokens b \<le> real t \<Longrightarrow> t \<le> 2 ^ 53 \<Longrightarrow>
    snd (limiter_run rnd (map (Pair now) ns) b) \<le> t"
proof (induction ns arbitrary: b t)
  case (Cons n ns)
  note same = refill_same_instant [OF assms Cons.prems(1,2)]
  let ?b = "fst (try_consume_n rnd now n b)"
  have b: "bucket_inv rnd ?b" "last_ns ?b = now" by (simp_all add: try_consume_n_inv [OF assms Cons.prems(1)])
  show ?case
  proof (cases rule: try_consume_n_cases [of rnd now n b])
    case admitted
    with Cons.prems(3) same have n: "unat n \<le> t" by simp
    have "rnd (tokens b - real (unat n)) \<le> rnd (real (t - unat n))"
      using Cons.prems(3) n by (intro rnd_lawsD(1) [OF assms]) (simp add: of_nat_diff)
    also have "\<dots> = real (t - unat n)" using Cons.prems(4) by (intro rnd_lawsD(3) [OF assms]) simp
    finally have "tokens ?b \<le> real (t - unat n)" using admitted same by simp
    from Cons.IH [OF b this] Cons.prems(4) have "snd (limiter_run rnd (map (Pair now) ns) ?b) \<le> t - unat n" by linarith
    with admitted(1) n show ?thesis by (simp add: split_beta)
  next
    case refused
    from Cons.IH [OF b _ Cons.prems(4)] Cons.prems(3) refused same show ?thesis by (simp add: split_beta)
  qed
qed simp

lemma burst_le_capacity:
  assumes "rnd_laws rnd" and "bucket_inv rnd b" and "capacity b = real c" and "c \<le> 2 ^ 53"
  shows "snd (limiter_run rnd (map (Pair now) ns) b) \<le> c"
proof (cases ns)
  case (Cons n ns')
  let ?b = "refill rnd now b"
  note inv = refill_inv [OF assms(1,2), of now]
  have "try_consume_n rnd now n b = try_consume_n rnd now n ?b"
    by (simp add: try_consume_n_def refill_same_instant [OF assms(1) inv])
  then have "limiter_run rnd (map (Pair now) ns) b = limiter_run rnd (map (Pair now) ns) ?b" by (simp add: Cons)
  then show ?thesis using burst_drains [OF assms(1) inv _ _ assms(4), of now ns] inv assms(3)
    by (simp add: bucket_inv_def)
qed simp

text \<open>A second without calls fills the bucket, whatever the rounding.\<close>

lemma elapsed_ge_one:
  assumes "rnd_laws rnd" and "since + 10 ^ 9 \<le> now"
  shows "1 \<le> elapsed_secs rnd now since"
proof -
  let ?ns = "now - since"
  have one: "rnd 1 = 1" using rnd_lawsD(3) [OF assms(1), of 1] by simp
  have "1 \<le> ?ns div 10 ^ 9" using assms(2) by (simp add: less_eq_div_iff_mult_less_eq)
  then have "1 \<le> real (?ns div 10 ^ 9)" by (metis of_nat_1 of_nat_le_iff)
  from rnd_lawsD(1) [OF assms(1) this] one have "1 \<le> rnd (real (?ns div 10 ^ 9))" by simp
  moreover have "0 \<le> rnd (real (?ns mod 10 ^ 9) / 10 ^ 9)" by (intro rnd_lawsD(5) [OF assms(1)]) simp
  ultimately have "1 \<le> rnd (real (?ns div 10 ^ 9)) + rnd (real (?ns mod 10 ^ 9) / 10 ^ 9)" by simp
  from rnd_lawsD(1) [OF assms(1) this] one show ?thesis by (simp add: elapsed_secs_def Let_def)
qed

lemma refill_full:
  assumes "rnd_laws rnd" and "bucket_inv rnd b" and "rate b = capacity b" and "last_ns b + 10 ^ 9 \<le> now"
  shows "tokens (refill rnd now b) = capacity b"
proof -
  let ?add = "rnd (elapsed_secs rnd now (last_ns b) * rate b)"
  have "1 * rate b \<le> elapsed_secs rnd now (last_ns b) * rate b"
    using assms(2) by (intro mult_right_mono elapsed_ge_one [OF assms(1,4)]) (simp add: bucket_inv_def)
  from rnd_lawsD(1) [OF assms(1) this] assms(2,3) have "capacity b \<le> tokens b + ?add" by (simp add: bucket_inv_def)
  from rnd_lawsD(1) [OF assms(1) this] assms(2) show ?thesis by (simp add: refill_def bucket_inv_def)
qed

text \<open>
  With exact arithmetic the elapsed time is the number of nanoseconds over a billion, and the entries let
  through plus the tokens left are at most the initial tokens plus what time has added.
\<close>

lemma elapsed_exact: "elapsed_secs (\<lambda>x. x) now since = real (now - since) / 10 ^ 9"
proof -
  have split: "real ns = real (ns div K) * real K + real (ns mod K)" for ns K :: nat
    by (simp flip: of_nat_mult of_nat_add)
  show ?thesis using split [of "now - since" "10 ^ 9"]
    by (simp add: elapsed_secs_def Let_def add_divide_distrib del: of_nat_diff)
qed

lemma limiter_run_rate:
  assumes "sorted (last_ns b # map fst calls)"
  shows "real (snd (limiter_run (\<lambda>x. x) calls b)) + tokens (fst (limiter_run (\<lambda>x. x) calls b))
    \<le> tokens b + rate b * (real (last_ns (fst (limiter_run (\<lambda>x. x) calls b)) - last_ns b) / 10 ^ 9)
   \<and> last_ns b \<le> last_ns (fst (limiter_run (\<lambda>x. x) calls b))"
  using assms
proof (induction calls arbitrary: b)
  case (Cons c calls)
  obtain now n where c: "c = (now, n)" by fastforce
  let ?b = "fst (try_consume_n (\<lambda>x. x) now n b)" and ?ok = "snd (try_consume_n (\<lambda>x. x) now n b)"
  let ?e = "limiter_run (\<lambda>x. x) calls ?b"
  have le: "last_ns b \<le> now" using Cons.prems c by simp
  have "tokens (refill (\<lambda>x. x) now b) \<le> tokens b + rate b * (real (now - last_ns b) / 10 ^ 9)"
    by (simp add: refill_def elapsed_exact mult.commute)
  then have now: "(if ?ok then real (unat n) else 0) + tokens ?b \<le> tokens b + rate b * (real (now - last_ns b) / 10 ^ 9)"
    by (cases rule: try_consume_n_cases [of "\<lambda>x. x" now n b]) simp_all
  have "sorted (last_ns ?b # map fst calls)" using Cons.prems c by simp
  from Cons.IH [OF this] have IH: "now \<le> last_ns (fst ?e)"
    "real (snd ?e) + tokens (fst ?e) \<le> tokens ?b + rate b * (real (last_ns (fst ?e) - now) / 10 ^ 9)"
    by (simp_all del: of_nat_diff)
  have "rate b * (real (last_ns (fst ?e) - last_ns b) / 10 ^ 9)
      = rate b * (real (now - last_ns b) / 10 ^ 9) + rate b * (real (last_ns (fst ?e) - now) / 10 ^ 9)"
    using le IH(1) by (simp add: of_nat_diff field_simps)
  with now IH have "(if ?ok then real (unat n) else 0) + real (snd ?e) + tokens (fst ?e)
      \<le> tokens b + rate b * (real (last_ns (fst ?e) - last_ns b) / 10 ^ 9)" by linarith
  with le IH(1) show ?case by (cases ?ok) (simp_all add: c split_beta del: of_nat_diff)
qed simp

lemma limiter_run_new:
  assumes "rnd_laws rnd" and "limiter_run rnd calls (bucket_new r t0) = (b, k)"
  shows "bucket_inv rnd b" "capacity b = real (unat r)" "rate b = real (unat r)"
  using limiter_run_inv [OF assms(1) bucket_new_inv [OF assms(1)], of calls r t0] assms(2)
  by (simp_all add: bucket_new_def Let_def)

text \<open>
  C30. The limits of the rate limiter, after any history of calls since it was created. Whatever the rounding,
  the entries that calls arriving at one instant get through never exceed the configured rate, and after a
  second without calls every request up to the rate is let through. With exact arithmetic and a clock that
  does not go back, all entries let through since creation are at most one burst plus the rate times the
  elapsed time, and a request of \<open>n\<close> entries is let through once the idle time times the rate makes \<open>n\<close>.
\<close>

theorem rate_limiter_burst:
  assumes "rnd_laws rnd" and "limiter_run rnd calls (bucket_new r t0) = (b, k)"
  shows "snd (limiter_run rnd (map (Pair now) ns) b) \<le> unat r
    \<and> (last_ns b + 10 ^ 9 \<le> now \<longrightarrow> unat n \<le> unat r \<longrightarrow> snd (try_consume_n rnd now n b))
    \<and> (rnd = (\<lambda>x. x) \<longrightarrow> sorted (t0 # map fst calls) \<longrightarrow>
         real k \<le> real (unat r) + real (unat r) * (real (last_ns b - t0) / 10 ^ 9))
    \<and> (rnd = (\<lambda>x. x) \<longrightarrow> unat n \<le> unat r \<longrightarrow> unat n * 10 ^ 9 \<le> (now - last_ns b) * unat r \<longrightarrow>
         snd (try_consume_n rnd now n b))"
proof (intro conjI impI)
  note new = limiter_run_new [OF assms]
  show "snd (limiter_run rnd (map (Pair now) ns) b) \<le> unat r"
    by (rule burst_le_capacity [OF assms(1) new(1,2) u32_le_2p53])
  show "snd (try_consume_n rnd now n b)" if "last_ns b + 10 ^ 9 \<le> now" "unat n \<le> unat r"
    using refill_full [OF assms(1) new(1) _ that(1)] new(2,3) that(2) by (simp add: try_consume_n_def Let_def)
  show "real k \<le> real (unat r) + real (unat r) * (real (last_ns b - t0) / 10 ^ 9)"
    if "rnd = (\<lambda>x. x)" "sorted (t0 # map fst calls)"
  proof -
    have "real k + tokens b \<le> real (unat r) + real (unat r) * (real (last_ns b - t0) / 10 ^ 9)"
      using limiter_run_rate [of "bucket_new r t0" calls] assms(2) that
      by (simp add: bucket_new_def Let_def del: of_nat_diff)
    moreover have "0 \<le> tokens b" using new(1) by (simp add: bucket_inv_def)
    ultimately show ?thesis by linarith
  qed
  show "snd (try_consume_n rnd now n b)"
    if "rnd = (\<lambda>x. x)" "unat n \<le> unat r" "unat n * 10 ^ 9 \<le> (now - last_ns b) * unat r"
  proof -
    from that(3) have "real (unat n) * 10 ^ 9 \<le> real (now - last_ns b) * real (unat r)"
      by (metis of_nat_le_iff of_nat_mult of_nat_numeral of_nat_power)
    then have "real (unat n) \<le> real (now - last_ns b) / 10 ^ 9 * real (unat r)" by (simp add: field_simps)
    with that(1,2) new show ?thesis
      by (simp add: try_consume_n_def Let_def refill_def elapsed_exact bucket_inv_def)
  qed
qed

theorem rate_limiter_burst_witness:
  "limiter_run (\<lambda>x. x) [(7, 3), (8, 2), (10 ^ 9 + 8, 4)] (bucket_new 4 7)
      = (\<lparr>tokens = 0, capacity = 4, rate = 4, last_ns = 10 ^ 9 + 8\<rparr>, 7)
    \<and> snd (limiter_run (\<lambda>x. x) (map (Pair (10 ^ 10)) [2, 3, 1])
        \<lparr>tokens = 0, capacity = 4, rate = 4, last_ns = 10 ^ 9 + 8\<rparr>) \<le> unat (4 :: u32)
    \<and> snd (try_consume_n (\<lambda>x. x) (10 ^ 10) 4 \<lparr>tokens = 0, capacity = 4, rate = 4, last_ns = 10 ^ 9 + 8\<rparr>)
    \<and> real 7 \<le> real (unat (4 :: u32)) + real (unat (4 :: u32)) * (real (10 ^ 9 + 8 - 7) / 10 ^ 9)"
proof -
  have laws: "rnd_laws (\<lambda>x. x)" by (simp add: rnd_laws_def mono_def)
  have run: "limiter_run (\<lambda>x. x) [(7, 3), (8, 2), (10 ^ 9 + 8, 4)] (bucket_new 4 7)
      = (\<lparr>tokens = 0, capacity = 4, rate = 4, last_ns = 10 ^ 9 + 8\<rparr>, 7)"
    by (simp add: bucket_new_def try_consume_n_def refill_def elapsed_exact Let_def)
  with rate_limiter_burst [OF laws run, of "10 ^ 10" "[2, 3, 1]" 4] show ?thesis by simp
qed

end
