(* ===== verification/Server_State.thy ===== *)
theory Server_State
  imports Storage_Heads Core_Proof Server_Limits
begin

text \<open>
  \<^verbatim>\<open>settled-server\<close>: the shared state (\<^verbatim>\<open>state.rs\<close>), the signer (\<^verbatim>\<open>signer.rs\<close>), the configuration
  (\<^verbatim>\<open>config.rs\<close>), the errors and their gRPC status codes (\<^verbatim>\<open>error.rs\<close>), and the start-up \<open>build\<close>, which
  reopens the database, replays the log into the in-memory Merkle tree and loads the signing key.

  The record \<open>env\<close> bundles the parameters of the model: RocksDB, the codec, SHA-256, Ed25519 and the
  rounding of \<^verbatim>\<open>f64\<close>; \<open>env_laws\<close> their laws. The two stores of the state are one database, as in the
  code, where the stores share one handle. \<open>server_inv\<close> is the invariant of the server: the in-memory
  tree stands for the leaf hashes of the log, every stored tree head is a correctly signed root of a
  prefix of the log made with a key of the key chain, and the current signing key is the newest of the
  chain.
\<close>

record 'd env =
  e_rocks :: "'d rocksdb"
  e_codec :: codec
  e_sha :: sha256
  e_ed :: ed25519
  e_rnd :: "real \<Rightarrow> real"

definition env_laws :: "'d env \<Rightarrow> ('d \<Rightarrow> families) \<Rightarrow> bool" where
  "env_laws E view \<longleftrightarrow> rocks_laws (e_rocks E) view \<and> codec_laws (e_codec E) \<and> ed_laws (e_ed E)"

lemma env_lawsD:
  assumes "env_laws E view"
  shows "rocks_laws (e_rocks E) view" "codec_laws (e_codec E)" "ed_laws (e_ed E)"
  using assms by (simp_all add: env_laws_def)

section \<open>Errors and status codes\<close>

datatype server_error =
    Storage storage_error
  | Proof proof_error
  | NotFound string
  | InvalidArgument string

datatype code = CodeNotFound | CodeInvalidArgument | CodeInternal | CodeResourceExhausted | CodeUnauthenticated

type_synonym status = "code \<times> string"

text \<open>Decimal rendering of a number, and the \<^verbatim>\<open>Display\<close> texts of the errors.\<close>

fun dec :: "nat \<Rightarrow> string" where
  "dec n = (if n < 10 then [char_of (48 + n)] else dec (n div 10) @ [char_of (48 + n mod 10)])"

declare dec.simps [simp del]

definition show_u64 :: "u64 \<Rightarrow> string" where
  "show_u64 n = dec (unat n)"

fun storage_error_string :: "storage_error \<Rightarrow> string" where
  "storage_error_string (RocksDb m) = ''RocksDB error: '' @ m"
| "storage_error_string (Encode m) = ''Protobuf encode error: '' @ m"
| "storage_error_string (Decode m) = ''Protobuf decode error: '' @ m"
| "storage_error_string (Corruption m) = ''Data corruption: '' @ m"
| "storage_error_string (SchemaMismatch f s) = ''Schema version mismatch: found '' @ dec (unat f) @
     '', this binary supports up to '' @ dec (unat s)"

fun proof_error_string :: "proof_error \<Rightarrow> string" where
  "proof_error_string (LeafIndexOutOfRange i n) =
     ''leaf index '' @ show_u64 i @ '' out of range for tree size '' @ show_u64 n"
| "proof_error_string (InvalidSizes m n) =
     ''invalid tree sizes: old='' @ show_u64 m @ '' new='' @ show_u64 n"
| "proof_error_string TooShort = ''proof too short''"
| "proof_error_string TooLong = ''proof too long''"

fun status_from :: "server_error \<Rightarrow> status" where
  "status_from (NotFound msg) = (CodeNotFound, msg)"
| "status_from (InvalidArgument msg) = (CodeInvalidArgument, msg)"
| "status_from (Storage e) = (CodeInternal, storage_error_string e)"
| "status_from (Proof e) = (CodeInternal, proof_error_string e)"

section \<open>The state\<close>

record signer =
  sg_key :: signing_key
  sg_version :: u32

record config =
  cfg_data_dir :: string
  cfg_key_path :: string
  cfg_listen :: string
  cfg_admin_listen :: string
  cfg_sth_interval_secs :: u64
  cfg_api_key :: "string option"
  cfg_max_appends_per_sec :: "u32 option"
  cfg_max_get_latest :: u32
  cfg_max_message_bytes :: u64

record entry =
  en_seq :: u64
  en_timestamp_ns :: i64
  en_key :: bytes
  en_data :: bytes
  en_leaf_hash :: bytes

text \<open>
  \<open>st_poisoned\<close> is the poison flag of \<^verbatim>\<open>append_mu\<close>, whose content is \<open>st_merkle\<close>; \<open>st_key_file\<close> is the
  content of the signing key file; \<open>st_watch\<close> is everything sent so far on the broadcast channel, in
  order.
\<close>

record 'd app_state =
  st_db :: "'d db"
  st_merkle :: merkle_tree
  st_poisoned :: bool
  st_signer :: signer
  st_key_file :: "bytes option"
  st_limiter :: "bucket option"
  st_config :: config
  st_watch :: "entry list"

datatype app_error = AppStorage storage_error | AppIo string | AppMsg string | AppJoin panic

section \<open>The signer\<close>

text \<open>
  \<^verbatim>\<open>load_or_generate\<close>: \<open>file\<close> is the key file, absent, unreadable or with its bytes; \<open>fresh\<close> the
  generated key; \<open>wr\<close> the error of writing the new file, if any. The result has the new file content.
\<close>

definition load_or_generate ::
  "(string + bytes) option \<Rightarrow> signing_key \<Rightarrow> string option \<Rightarrow> u32 \<Rightarrow> (app_error, signer \<times> bytes option) result" where
  "load_or_generate file fresh wr version = (case file of
     Some (Inl e) \<Rightarrow> Inl (Err (AppIo e))
   | Some (Inr bs) \<Rightarrow>
       (case try_into bs of
          None \<Rightarrow> Inl (Err (AppMsg ''signing key file must be exactly 32 bytes''))
        | Some arr \<Rightarrow> Inr (\<lparr>sg_key = arr, sg_version = version\<rparr>, Some bs))
   | None \<Rightarrow>
       (case wr of
          Some e \<Rightarrow> Inl (Err (AppIo e))
        | None \<Rightarrow> Inr (\<lparr>sg_key = fresh, sg_version = version\<rparr>, Some (to_vec fresh))))"

text \<open>
  \<^verbatim>\<open>rotate\<close>: write the new key to the file, then swap the signer. \<open>wr\<close> is \<open>None\<close> when the write succeeds,
  otherwise the error and what the failed write left in the file.
\<close>

definition signer_rotate ::
  "'d env \<Rightarrow> signing_key \<Rightarrow> (string \<times> bytes option) option \<Rightarrow> u32 \<Rightarrow> 'd app_state \<Rightarrow>
   'd app_state \<times> (app_error, public_key) result" where
  "signer_rotate E fresh wr new_version st = (case wr of
     Some (e, left) \<Rightarrow> (st\<lparr>st_key_file := left\<rparr>, Inl (Err (AppIo e)))
   | None \<Rightarrow> (st\<lparr>st_key_file := Some (to_vec fresh), st_signer := \<lparr>sg_key = fresh, sg_version = new_version\<rparr>\<rparr>,
       Inr (ed_public (e_ed E) fresh)))"

definition signer_sign :: "'d env \<Rightarrow> signer \<Rightarrow> 48 barr \<Rightarrow> signature" where
  "signer_sign E sg payload = ed_sign (e_ed E) (sg_key sg) (to_vec payload)"

definition signer_public_key :: "'d env \<Rightarrow> signer \<Rightarrow> public_key" where
  "signer_public_key E sg = ed_public (e_ed E) (sg_key sg)"

section \<open>Start-up\<close>

definition replay :: "sha256 \<Rightarrow> log_entry list \<Rightarrow> ('e, merkle_tree) result" where
  "replay sha entries = foldR (\<lambda>m e. bindR (mt_append sha m (le_leaf_hash e)) (\<lambda>(m', _). Inr m')) mt_new entries"

text \<open>
  What the file system and RocksDB answer when the data directory is created and the database opened:
  \<^verbatim>\<open>create_dir_all\<close> fails, or it succeeds and \<^verbatim>\<open>DB::open\<close> returns an error or a handle.
\<close>

datatype 'd data_dir = DirFailed string | DbOpen "string + 'd"

text \<open>Awaiting a \<^verbatim>\<open>spawn_blocking\<close> task with \<^verbatim>\<open>??\<close>: a panic of the task is a \<^verbatim>\<open>JoinError\<close>, so an error value.\<close>

definition joined :: "(app_error, 'a) result \<Rightarrow> (app_error, 'a) result" where
  "joined r = (case r of Inl (Panic p) \<Rightarrow> Inl (Err (AppJoin p)) | _ \<Rightarrow> r)"

definition build_blocking ::
  "'d env \<Rightarrow> 'd data_dir \<Rightarrow> (app_error, 'd db \<times> merkle_tree \<times> u32 \<times> bool) result" where
  "build_blocking E data_dir =
     (case data_dir of
        DirFailed e \<Rightarrow> Inl (Err (AppIo e))
      | DbOpen opened \<Rightarrow>
        bindR (map_err AppStorage (db_open (e_rocks E) opened)) (\<lambda>db.
        bindR (map_err AppStorage (ls_seq_range (e_rocks E) (e_codec E) db 0 (- 1))) (\<lambda>entries.
        bindR (replay (e_sha E) entries) (\<lambda>merkle.
        bindR (map_err AppStorage (ks_latest (e_rocks E) (e_codec E) db)) (\<lambda>latest.
          let version = (case latest of None \<Rightarrow> 1 | Some r \<Rightarrow> kr_version r); needs_seed = (latest = None)
          in Inr (db, merkle, version, needs_seed))))))"

definition build ::
  "'d env \<Rightarrow> config \<Rightarrow> 'd data_dir \<Rightarrow> (string + bytes) option \<Rightarrow> signing_key \<Rightarrow> string option \<Rightarrow> nat \<Rightarrow>
   (app_error, 'd app_state) result" where
  "build E cfg data_dir file fresh wr tick =
     bindR (joined (build_blocking E data_dir)) (\<lambda>(db, merkle, version, needs_seed).
     bindR (load_or_generate file fresh wr version) (\<lambda>(signer, key_file).
     bindR (if needs_seed then
         (case ks_put (e_rocks E) (e_codec E) \<lparr>kr_version = 1, kr_public_key = signer_public_key E signer,
             kr_activated_at_tree_size = 0\<rparr> db of
            (db', r) \<Rightarrow> bindR (map_err AppStorage r) (\<lambda>_. Inr db'))
       else Inr db) (\<lambda>db.
     Inr \<lparr>st_db = db, st_merkle = merkle, st_poisoned = False, st_signer = signer, st_key_file = key_file,
       st_limiter = map_option (\<lambda>r. bucket_new r tick) (cfg_max_appends_per_sec cfg), st_config = cfg,
       st_watch = []\<rparr>)))"

section \<open>The invariant\<close>

definition root_ok :: "'d env \<Rightarrow> log_entry list \<Rightarrow> signed_tree_head \<Rightarrow> bool" where
  "root_ok E es s \<longleftrightarrow> 0 < sth_tree_size s \<and> unat (sth_tree_size s) \<le> length es \<and>
     sth_root_hash s = MTH (node_hash (e_sha E)) (map le_leaf_hash (take (unat (sth_tree_size s)) es))"

definition in_chain :: "'d env \<Rightarrow> key_record list \<Rightarrow> signed_tree_head \<Rightarrow> bool" where
  "in_chain E ks s \<longleftrightarrow> verify_sth (e_ed E) s \<and>
     (\<exists>k \<in> set ks. kr_version k = sth_key_version s \<and> kr_public_key k = sth_public_key s)"

definition head_ok :: "'d env \<Rightarrow> log_entry list \<Rightarrow> key_record list \<Rightarrow> signed_tree_head \<Rightarrow> bool" where
  "head_ok E es ks s \<longleftrightarrow> root_ok E es s \<and> in_chain E ks s"

definition signer_ok :: "'d env \<Rightarrow> signer \<Rightarrow> key_record list \<Rightarrow> bool" where
  "signer_ok E sg ks \<longleftrightarrow> ks \<noteq> [] \<and> kr_version (last ks) = sg_version sg \<and>
     kr_public_key (last ks) = ed_public (e_ed E) (sg_key sg)"

text \<open>What the disk holds: the log, the tree heads and the key chain, with correct heads.\<close>

definition disk_inv ::
  "'d env \<Rightarrow> families \<Rightarrow> log_entry list \<Rightarrow> signed_tree_head list \<Rightarrow> key_record list \<Rightarrow> bool" where
  "disk_inv E f es hs ks \<longleftrightarrow> log_fam (e_codec E) (e_sha E) f es \<and> heads_fam (e_codec E) f hs \<and>
     keys_fam (e_codec E) f ks \<and> (\<forall>s \<in> set hs. head_ok E es ks s)"

definition server_inv ::
  "'d env \<Rightarrow> ('d \<Rightarrow> families) \<Rightarrow> 'd app_state \<Rightarrow> log_entry list \<Rightarrow> signed_tree_head list \<Rightarrow> key_record list \<Rightarrow> bool" where
  "server_inv E view st es hs ks \<longleftrightarrow> env_laws E view \<and>
     disk_inv E (view (db_rocks (st_db st))) es hs ks \<and>
     log_rel (e_codec E) (e_sha E) view (st_db st) es \<and>
     mt_inv (e_sha E) (st_merkle st) (map le_leaf_hash es) \<and>
     signer_ok E (st_signer st) ks"

text \<open>
  The part of the invariant that does not depend on the keys, that is on who signs: it survives every
  rotation, and every interleaving of rotations with signing cycles.
\<close>

definition core_inv ::
  "'d env \<Rightarrow> ('d \<Rightarrow> families) \<Rightarrow> 'd app_state \<Rightarrow> log_entry list \<Rightarrow> signed_tree_head list \<Rightarrow> bool" where
  "core_inv E view st es hs \<longleftrightarrow> env_laws E view \<and>
     log_rel (e_codec E) (e_sha E) view (st_db st) es \<and>
     heads_fam (e_codec E) (view (db_rocks (st_db st))) hs \<and> (\<forall>s \<in> set hs. root_ok E es s) \<and>
     mt_inv (e_sha E) (st_merkle st) (map le_leaf_hash es)"

lemma server_inv_core:
  "server_inv E view st es hs ks \<longleftrightarrow> core_inv E view st es hs \<and>
     keys_fam (e_codec E) (view (db_rocks (st_db st))) ks \<and> (\<forall>s \<in> set hs. in_chain E ks s) \<and>
     signer_ok E (st_signer st) ks"
  by (auto simp: server_inv_def core_inv_def disk_inv_def head_ok_def log_rel_def)

lemma core_invD:
  assumes "core_inv E view st es hs"
  shows "rocks_laws (e_rocks E) view" "codec_laws (e_codec E)" "ed_laws (e_ed E)"
    "log_rel (e_codec E) (e_sha E) view (st_db st) es" "heads_fam (e_codec E) (view (db_rocks (st_db st))) hs"
    "\<And>s. s \<in> set hs \<Longrightarrow> root_ok E es s" "mt_inv (e_sha E) (st_merkle st) (map le_leaf_hash es)"
  using assms by (auto simp: core_inv_def env_laws_def)

lemma server_invD:
  assumes "server_inv E view st es hs ks"
  shows "rocks_laws (e_rocks E) view" "codec_laws (e_codec E)" "ed_laws (e_ed E)"
    "log_rel (e_codec E) (e_sha E) view (st_db st) es" "heads_fam (e_codec E) (view (db_rocks (st_db st))) hs"
    "keys_fam (e_codec E) (view (db_rocks (st_db st))) ks" "\<And>s. s \<in> set hs \<Longrightarrow> head_ok E es ks s"
    "mt_inv (e_sha E) (st_merkle st) (map le_leaf_hash es)" "signer_ok E (st_signer st) ks"
  using assms by (auto simp: server_inv_def disk_inv_def env_laws_def)

lemma head_ok_mono:
  assumes "head_ok E es ks s" and "set ks \<subseteq> set ks'"
  shows "head_ok E (es @ added) ks' s"
  using assms by (auto simp: head_ok_def root_ok_def in_chain_def)

lemma root_ok_mono: "root_ok E es s \<Longrightarrow> root_ok E (es @ added) s"
  by (simp add: root_ok_def)

lemma replay_inv:
  assumes "length es < 2 ^ 64"
  shows "\<exists>m. (replay sha es :: ('e, merkle_tree) result) = Inr m \<and> mt_inv sha m (map le_leaf_hash es)"
proof -
  have "foldR (\<lambda>m e. bindR (mt_append sha m (le_leaf_hash e)) (\<lambda>(m', _). Inr m')) m0 es =
      (foldR (\<lambda>s x. bindR (mt_append sha s x) (\<lambda>(s', i). Inr s')) m0 (map le_leaf_hash es) :: ('e, merkle_tree) result)" for m0
    by (induction es arbitrary: m0) auto
  with mt.build_rel [of "map le_leaf_hash es" sha] assms show ?thesis by (simp add: replay_def)
qed

section \<open>Start-up establishes the invariant\<close>

text \<open>The value satisfies \<open>P\<close>, or it is an error reported by RocksDB.\<close>

definition rocks_or :: "(app_error, 'a) result \<Rightarrow> ('a \<Rightarrow> bool) \<Rightarrow> bool" where
  "rocks_or r P \<longleftrightarrow> (\<exists>m. r = Inl (Err (AppStorage (RocksDb m)))) \<or> (\<exists>x. r = Inr x \<and> P x)"

lemma rocks_or_Inr [simp]: "rocks_or (Inr x) P \<longleftrightarrow> P x"
  by (simp add: rocks_or_def)

lemma rocks_or_bind: "rocks_or r P \<Longrightarrow> (\<And>x. P x \<Longrightarrow> rocks_or (f x) Q) \<Longrightarrow> rocks_or (bindR r f) Q"
  unfolding rocks_or_def by (metis bindR_simps)

lemma rocks_or_joined: "rocks_or r P \<Longrightarrow> rocks_or (joined r) P"
  by (auto simp: rocks_or_def joined_def)

lemma rocks_or_mono: "rocks_or r P \<Longrightarrow> (\<And>x. P x \<Longrightarrow> Q x) \<Longrightarrow> rocks_or r Q"
  by (auto simp: rocks_or_def)

lemma rocks_or_yields: "yields r x \<Longrightarrow> rocks_or (map_err AppStorage r) (\<lambda>y. y = x)"
  by (auto simp: rocks_or_def yields_def)

lemma db_open_families:
  assumes "rocks_laws R view" and "db_open R (Inr d) = Inr db"
    and "fmlookup (view d CfDefault) SCHEMA_VERSION_KEY \<in> {None, Some (u32_key CURRENT_SCHEMA_VERSION)}"
    and "c \<noteq> CfDefault"
  shows "view (db_rocks db) c = view d c"
proof (cases rule: db_check_schema_yields [OF assms(1,3)])
  case (1 m)
  with assms(2) show ?thesis by (simp add: db_open_def)
next
  case (2 d')
  with assms(2,4) show ?thesis by (auto simp: db_open_def result_iffs)
qed

lemma build_open:
  assumes laws: "env_laws E view" and fam: "log_fam (e_codec E) (e_sha E) (view d) es"
    and schema: "fmlookup (view d CfDefault) SCHEMA_VERSION_KEY \<in> {None, Some (u32_key CURRENT_SCHEMA_VERSION)}"
    and numbers: "\<forall>e \<in> set es. le_seq e < - 1"
  shows "rocks_or (map_err AppStorage (db_open (e_rocks E) (Inr d)))
    (\<lambda>db. log_rel (e_codec E) (e_sha E) view db es \<and> (gapfree es \<longrightarrow> dense db es)
      \<and> (\<forall>c. c \<noteq> CfDefault \<longrightarrow> view (db_rocks db) c = view d c))"
  using db_open_yields [OF env_lawsD(1) [OF laws] fam schema numbers] db_open_families [OF env_lawsD(1) [OF laws] _ schema]
  by (auto simp: rocks_or_def)

text \<open>The key chain after the start: seeded with the signer's key if it was empty.\<close>

definition seeded :: "'d env \<Rightarrow> signer \<Rightarrow> key_record list \<Rightarrow> key_record list" where
  "seeded E sg ks = (if ks = [] then
     [\<lparr>kr_version = 1, kr_public_key = signer_public_key E sg, kr_activated_at_tree_size = 0\<rparr>] else ks)"

lemma build_keys:
  assumes laws: "env_laws E view" and keys: "keys_fam (e_codec E) (view (db_rocks db)) ks"
  shows "rocks_or (if ks = [] then
         (case ks_put (e_rocks E) (e_codec E) \<lparr>kr_version = 1, kr_public_key = signer_public_key E sg,
             kr_activated_at_tree_size = 0\<rparr> db of
            (db', r) \<Rightarrow> bindR (map_err AppStorage r) (\<lambda>_. Inr db'))
       else Inr db)
     (\<lambda>db'. next_seq db' = next_seq db \<and> (\<forall>c. c \<noteq> CfKeys \<longrightarrow> view (db_rocks db') c = view (db_rocks db) c)
       \<and> keys_fam (e_codec E) (view (db_rocks db')) (seeded E sg ks))"
proof (cases "ks = []")
  case False
  with keys show ?thesis by (simp add: seeded_def)
next
  case True
  let ?k = "\<lparr>kr_version = 1, kr_public_key = signer_public_key E sg, kr_activated_at_tree_size = 0\<rparr>"
  obtain db' r where run: "ks_put (e_rocks E) (e_codec E) ?k db = (db', r)" by fastforce
  show ?thesis
  proof (cases rule: ks_put_cases [OF env_lawsD(1,2) [OF laws] keys run])
    case 1
    with True run show ?thesis by (auto simp: rocks_or_def seeded_def upd_by_def)
  next
    case (2 m)
    with True run show ?thesis by (auto simp: rocks_or_def)
  qed
qed

lemma log_rel_length:
  assumes "log_rel C sha view db es"
  shows "length es \<le> unat (next_seq db)"
proof -
  have "sorted_wrt (<) (map (\<lambda>e. unat (le_seq e)) es)"
    using log_rel_sorted [OF assms] by (simp add: sorted_wrt_map word_less_nat_alt)
  then have "distinct (map (\<lambda>e. unat (le_seq e)) es)" by (simp add: strict_sorted_iff)
  then have "length es = card ((\<lambda>e. unat (le_seq e)) ` set es)" by (metis distinct_card length_map set_map)
  also have "\<dots> \<le> card {..<unat (next_seq db)}"
    using assms by (intro card_mono) (auto simp: log_rel_def word_less_nat_alt)
  finally show ?thesis by simp
qed

text \<open>
  Start-up without any condition on who signed the heads: the log may have gaps, and the key file may hold
  a key that is not in the chain.
\<close>

lemma build_blocking_core:
  assumes laws: "env_laws E view" and log: "log_fam (e_codec E) (e_sha E) (view d) es" and keys: "keys_fam (e_codec E) (view d) ks"
    and schema: "fmlookup (view d CfDefault) SCHEMA_VERSION_KEY \<in> {None, Some (u32_key CURRENT_SCHEMA_VERSION)}"
    and numbers: "\<forall>e \<in> set es. le_seq e < - 1"
  shows "rocks_or (build_blocking E (DbOpen (Inr d))) (\<lambda>(db, m, version, needs_seed).
    log_rel (e_codec E) (e_sha E) view db es \<and> (gapfree es \<longrightarrow> dense db es)
    \<and> (\<forall>c. c \<noteq> CfDefault \<longrightarrow> view (db_rocks db) c = view d c) \<and> mt_inv (e_sha E) m (map le_leaf_hash es)
    \<and> version = (if ks = [] then 1 else kr_version (last ks)) \<and> needs_seed = (ks = []))"
  unfolding build_blocking_def data_dir.case
  apply (rule rocks_or_bind [OF build_open [OF laws log schema numbers]], elim conjE)
  subgoal premises p for db
  proof -
    note R = env_lawsD(1) [OF laws] and C = env_lawsD(2) [OF laws]
    have keys': "keys_fam (e_codec E) (view (db_rocks db)) ks" using p(3) keys by (simp add: keys_fam_def)
    have entries: "yields (ls_seq_range (e_rocks E) (e_codec E) db 0 (- 1)) es"
      using ls_seq_range_yields [OF R C p(1), of 0 "- 1"] numbers by simp
    have "length es < 2 ^ 64" using log_rel_length [OF p(1)] unat_lt2p [of "next_seq db"] by simp
    then obtain m where rep: "(replay (e_sha E) es :: (app_error, merkle_tree) result) = Inr m"
      and mt: "mt_inv (e_sha E) m (map le_leaf_hash es)" using replay_inv [of es "e_sha E"] by auto
    show ?thesis
      by (intro rocks_or_bind [OF rocks_or_yields [OF entries]], simp only: rep bindR_simps,
          intro rocks_or_bind [OF rocks_or_yields [OF ks_latest_yields [OF R C keys']]])
        (use p mt in \<open>cases "ks = []"; simp\<close>)
  qed
  done

lemma build_core:
  assumes laws: "env_laws E view" and log: "log_fam (e_codec E) (e_sha E) (view d) es"
    and heads: "heads_fam (e_codec E) (view d) hs" "\<forall>s \<in> set hs. root_ok E es s"
    and keys: "keys_fam (e_codec E) (view d) ks"
    and schema: "fmlookup (view d CfDefault) SCHEMA_VERSION_KEY \<in> {None, Some (u32_key CURRENT_SCHEMA_VERSION)}"
    and numbers: "\<forall>e \<in> set es. le_seq e < - 1"
    and keyfile: "file = Some (Inr (to_vec sk)) \<or> file = None \<and> wr = None \<and> fresh = sk"
    and sg: "sg = \<lparr>sg_key = sk, sg_version = (if ks = [] then 1 else kr_version (last ks))\<rparr>"
  shows "rocks_or (build E cfg (DbOpen (Inr d)) file fresh wr tick) (\<lambda>st. core_inv E view st es hs \<and> (gapfree es \<longrightarrow> dense (st_db st) es)
    \<and> keys_fam (e_codec E) (view (db_rocks (st_db st))) (seeded E sg ks) \<and> st_signer st = sg
    \<and> st_key_file st = Some (to_vec sk) \<and> \<not> st_poisoned st \<and> st_watch st = [] \<and> st_config st = cfg)" (is "rocks_or _ ?Q")
proof -
  have load: "load_or_generate file fresh wr v = Inr (\<lparr>sg_key = sk, sg_version = v\<rparr>, Some (to_vec sk))" for v
    using keyfile by (auto simp: load_or_generate_def)
  show ?thesis
    unfolding build_def
    apply (rule rocks_or_bind [OF rocks_or_joined [OF build_blocking_core [OF laws log keys schema numbers]]], clarify)
    subgoal premises p for db m
    proof -
      have keys': "keys_fam (e_codec E) (view (db_rocks db)) ks" using p(3) keys by (simp add: keys_fam_def)
      let ?st = "\<lambda>db'. \<lparr>st_db = db', st_merkle = m, st_poisoned = False, st_signer = sg, st_key_file = Some (to_vec sk),
          st_limiter = map_option (\<lambda>r. bucket_new r tick) (cfg_max_appends_per_sec cfg), st_config = cfg, st_watch = []\<rparr>"
      have finish: "?Q (?st db')"
        if "next_seq db' = next_seq db \<and> (\<forall>c. c \<noteq> CfKeys \<longrightarrow> view (db_rocks db') c = view (db_rocks db) c)
            \<and> keys_fam (e_codec E) (view (db_rocks db')) (seeded E sg ks)" for db'
        using that laws p heads by (auto simp: core_inv_def log_rel_def log_fam_def heads_fam_def dense_def)
      have "rocks_or (bindR (if ks = [] then
           (case ks_put (e_rocks E) (e_codec E) \<lparr>kr_version = 1, kr_public_key = signer_public_key E sg,
               kr_activated_at_tree_size = 0\<rparr> db of
              (db', r) \<Rightarrow> bindR (map_err AppStorage r) (\<lambda>_. Inr db'))
         else Inr db) (\<lambda>db'. Inr (?st db'))) ?Q"
        by (rule rocks_or_bind [OF build_keys [OF laws keys']]) (simp only: rocks_or_Inr, rule finish)
      then show ?thesis by (cases "ks = []") (simp_all add: load sg)
    qed
    done
qed

text \<open>
  A key file that cannot be used: start-up reports the error of RocksDB, or that of loading the key.
\<close>

lemma build_bad_key:
  assumes "env_laws E view" and "log_fam (e_codec E) (e_sha E) (view d) es" and "keys_fam (e_codec E) (view d) ks"
    and "fmlookup (view d CfDefault) SCHEMA_VERSION_KEY \<in> {None, Some (u32_key CURRENT_SCHEMA_VERSION)}"
    and "\<forall>e \<in> set es. le_seq e < - 1" and load: "\<And>v. load_or_generate file fresh wr v = Inl (Err x)"
  shows "(\<exists>m. build E cfg (DbOpen (Inr d)) file fresh wr tick = Inl (Err (AppStorage (RocksDb m))))
    \<or> build E cfg (DbOpen (Inr d)) file fresh wr tick = Inl (Err x)"
  using rocks_or_joined [OF build_blocking_core [OF assms(1-5)]] by (auto simp: rocks_or_def build_def load)

text \<open>
  C14. Crash recovery of the server: starting on a database that holds a log, correct tree heads and a key
  chain, with a key file that holds the newest key of the chain (or with an empty chain), ends with a
  storage error reported by RocksDB or with a state that satisfies the server invariant for the same log
  and heads: the replayed tree has the root of the whole log, and if the numbers have no gap numbering
  goes on without one.
\<close>

theorem build_restores:
  assumes laws: "env_laws E view" and inv: "disk_inv E (view d) es hs ks"
    and schema: "fmlookup (view d CfDefault) SCHEMA_VERSION_KEY \<in> {None, Some (u32_key CURRENT_SCHEMA_VERSION)}"
    and numbers: "\<forall>e \<in> set es. le_seq e < - 1"
    and keyfile: "file = Some (Inr (to_vec sk)) \<or> file = None \<and> wr = None \<and> fresh = sk"
    and sk: "ks \<noteq> [] \<Longrightarrow> kr_public_key (last ks) = ed_public (e_ed E) sk"
  shows "(\<exists>m. build E cfg (DbOpen (Inr d)) file fresh wr tick = Inl (Err (AppStorage (RocksDb m)))) \<or>
    (\<exists>st ks'. build E cfg (DbOpen (Inr d)) file fresh wr tick = Inr st \<and> server_inv E view st es hs ks'
       \<and> (gapfree es \<longrightarrow> dense (st_db st) es) \<and> set ks \<subseteq> set ks' \<and> st_key_file st = Some (to_vec sk))"
proof -
  let ?sg = "\<lparr>sg_key = sk, sg_version = (if ks = [] then 1 else kr_version (last ks))\<rparr>"
  have disk: "log_fam (e_codec E) (e_sha E) (view d) es" "heads_fam (e_codec E) (view d) hs" "\<forall>s \<in> set hs. root_ok E es s"
    "keys_fam (e_codec E) (view d) ks" and chain: "\<forall>s \<in> set hs. in_chain E ks s"
    using inv by (simp_all add: disk_inv_def head_ok_def)
  have "signer_ok E ?sg (seeded E ?sg ks)" using sk by (simp add: signer_ok_def seeded_def signer_public_key_def)
  moreover have "set ks \<subseteq> set (seeded E ?sg ks)" by (simp add: seeded_def)
  moreover from this chain have "\<forall>s \<in> set hs. in_chain E (seeded E ?sg ks) s" unfolding in_chain_def by blast
  ultimately show ?thesis
    using build_core [OF laws disk schema numbers keyfile refl, of cfg tick]
    unfolding rocks_or_def server_inv_core by fastforce
qed

text \<open>Concrete parameters and a server started on an empty database.\<close>

definition mem_env :: "families env" where
  "mem_env = \<lparr>e_rocks = mem_rocks, e_codec = mem_codec, e_sha = toy_sha, e_ed = toy_ed, e_rnd = (\<lambda>x. x)\<rparr>"

definition sample_config :: config where
  "sample_config = \<lparr>cfg_data_dir = ''/data'', cfg_key_path = ''/data/key'', cfg_listen = ''0.0.0.0:50051'',
     cfg_admin_listen = ''127.0.0.1:9090'', cfg_sth_interval_secs = 10,
     cfg_api_key = None, cfg_max_appends_per_sec = None, cfg_max_get_latest = 1000, cfg_max_message_bytes = 4194304\<rparr>"

lemma mem_env_laws: "env_laws mem_env (\<lambda>d. d)"
  by (simp add: env_laws_def mem_env_def mem_rocks_laws mem_codec_laws toy_ed_laws)

lemma empty_disk: "disk_inv E (\<lambda>_. fmempty) [] [] []"
  by (simp add: disk_inv_def log_fam_def heads_fam_def keys_fam_def last_with_key_def)

theorem build_restores_witness:
  "(\<exists>m. build mem_env sample_config (DbOpen (Inr (\<lambda>_. fmempty))) None (arr_of [7]) None 0 = Inl (Err (AppStorage (RocksDb m)))) \<or>
    (\<exists>st ks'. build mem_env sample_config (DbOpen (Inr (\<lambda>_. fmempty))) None (arr_of [7]) None 0 = Inr st
       \<and> server_inv mem_env (\<lambda>d. d) st [] [] ks' \<and> dense (st_db st) []
       \<and> st_key_file st = Some (to_vec (arr_of [7] :: signing_key)))"
proof -
  have "fmlookup fmempty SCHEMA_VERSION_KEY \<in> {None, Some (u32_key CURRENT_SCHEMA_VERSION)}" by simp
  from build_restores [where view = "\<lambda>d. d" and sk = "arr_of [7]", OF mem_env_laws empty_disk this, of None None "arr_of [7]" sample_config 0]
  show ?thesis by (auto simp: gapfree_def)
qed

definition sample_key :: key_record where
  "sample_key = \<lparr>kr_version = 1, kr_public_key = arr_of [7], kr_activated_at_tree_size = 0\<rparr>"

definition sample_state :: "families app_state" where
  "sample_state = \<lparr>st_db = \<lparr>db_rocks = (\<lambda>_. fmempty)(CfKeys := fmupd (u32_key 1) (key_value mem_codec sample_key) fmempty),
      next_seq = 0\<rparr>, st_merkle = mt_new, st_poisoned = False, st_signer = \<lparr>sg_key = arr_of [7], sg_version = 1\<rparr>,
     st_key_file = Some (to_vec (arr_of [7] :: signing_key)), st_limiter = None, st_config = sample_config, st_watch = []\<rparr>"

lemma fm_list_single [simp]: "fm_list (fmupd k v fmempty) = [(k, v)]"
  by (simp add: fm_list_upd)

lemma sample_state_inv: "server_inv mem_env (\<lambda>d. d) sample_state [] [] [sample_key]" "dense (st_db sample_state) []"
proof -
  have "env_laws mem_env (\<lambda>d. d)" by (rule mem_env_laws)
  then show "server_inv mem_env (\<lambda>d. d) sample_state [] [] [sample_key]"
    by (simp add: server_inv_def disk_inv_def log_rel_def log_fam_def heads_fam_def keys_fam_def last_with_key_def
        sample_state_def signer_ok_def sample_key_def mem_env_def toy_ed_def mt_inv_new)
  show "dense (st_db sample_state) []" by (simp add: dense_def sample_state_def)
qed

text \<open>Appending to the log and to the tree together keeps the invariant.\<close>

lemma core_inv_log:
  assumes "core_inv E view st es hs" and "log_rel (e_codec E) (e_sha E) view db' (es @ new)"
    and "mt_inv (e_sha E) m (map le_leaf_hash (es @ new))"
    and "\<And>c. c \<notin> {CfLog, CfIndex} \<Longrightarrow> view (db_rocks db') c = view (db_rocks (st_db st)) c"
  shows "core_inv E view (st\<lparr>st_db := db', st_merkle := m\<rparr>) (es @ new) hs"
  using assms by (auto simp: core_inv_def heads_fam_def intro: root_ok_mono)

lemma server_inv_log:
  assumes "server_inv E view st es hs ks" and "core_inv E view st' (es @ new) hs"
    and "view (db_rocks (st_db st')) CfKeys = view (db_rocks (st_db st)) CfKeys" and "st_signer st' = st_signer st"
  shows "server_inv E view st' (es @ new) hs ks"
  using assms by (simp add: server_inv_core keys_fam_def)

text \<open>The sample server with one entry.\<close>

definition sample_state1 :: "families app_state" where
  "sample_state1 = sample_state\<lparr>
     st_db := fst (ls_append mem_rocks mem_codec toy_sha 5 [1] [2] (st_db sample_state)),
     st_merkle := \<lparr>frontier = [leaf_hash toy_sha [2]], mt_size = 1\<rparr>\<rparr>"

lemma sample_state1_inv:
  "server_inv mem_env (\<lambda>d. d) sample_state1 [new_entry toy_sha 5 0 [1] [2]] [] [sample_key]"
  "dense (st_db sample_state1) [new_entry toy_sha 5 0 [1] [2]]"
proof -
  let ?db = "fst (ls_append mem_rocks mem_codec toy_sha 5 [1] [2] (st_db sample_state))"
  let ?e = "new_entry toy_sha 5 0 [1] [2]"
  have run: "ls_append mem_rocks mem_codec toy_sha 5 [1] [2] (st_db sample_state) = (?db, Inr (0, 5))"
    by (intro prod_eqI) (simp, code_simp)
  have z: "next_seq (st_db sample_state) = 0" by (simp add: sample_state_def)
  have rel: "log_rel mem_codec toy_sha (\<lambda>d. d) (st_db sample_state) []"
    using server_invD(4) [OF sample_state_inv(1)] by (simp add: mem_env_def)
  have room: "unat (next_seq (st_db sample_state)) + 1 < 2 ^ 64" by (simp add: z)
  note cases = ls_append_cases [OF mem_rocks_laws mem_codec_laws rel room run]
  have new: "log_rel mem_codec toy_sha (\<lambda>d. d) ?db [?e]" "next_seq ?db = next_seq (st_db sample_state) + 1"
    "\<And>c. c \<notin> {CfLog, CfIndex} \<Longrightarrow> db_rocks ?db c = db_rocks (st_db sample_state) c"
    by (cases rule: cases; simp add: z)+
  have "mt_inv toy_sha \<lparr>frontier = [leaf_hash toy_sha [2]], mt_size = 1\<rparr> [leaf_hash toy_sha [2]]"
    by (simp add: mt_inv_def chunk_def)
  then have "core_inv mem_env (\<lambda>d. d) sample_state1 ([] @ [?e]) []"
    unfolding sample_state1_def using sample_state_inv(1) new
    by (intro core_inv_log [where es = "[]"]) (simp_all add: server_inv_core mem_env_def)
  from server_inv_log [OF sample_state_inv(1) this] new(3)
  show "server_inv mem_env (\<lambda>d. d) sample_state1 [?e] [] [sample_key]"
    by (simp add: sample_state1_def)
  from dense_extend_one [OF sample_state_inv(2) room new(2), of toy_sha 5 "[1]" "[2]"]
  show "dense (st_db sample_state1) [?e]" by (simp add: z sample_state1_def)
qed

end
