(* ===== verification/Sdk_Verifier.thy ===== *)
theory Sdk_Verifier
  imports Core_Proof Core_Sth
begin

text \<open>
  \<^verbatim>\<open>sdks/rust/src/verifier.rs\<close>: the client's own implementation of the proof and signature checks.
  It is shown to meet the same verifier contracts as \<^verbatim>\<open>settled-core\<close>, so what the server generates
  the client accepts, and what the client accepts is sound. The split point is computed by a doubling
  loop whose product wraps, so that loop is a \<^verbatim>\<open>partial_function\<close>: \<open>None\<close> means that it never
  returns. It returns for every size up to \<open>2 ^ 63\<close> and for none above.
\<close>

section \<open>Hashes and the split point\<close>

definition sdk_leaf_hash :: "sha256 \<Rightarrow> bytes \<Rightarrow> hash" where
  "sdk_leaf_hash sha data = sha ([0x00] @ data)"

definition sdk_node_hash :: "sha256 \<Rightarrow> hash \<Rightarrow> hash \<Rightarrow> hash" where
  "sdk_node_hash sha left right = sha ([0x01] @ to_vec left @ to_vec right)"

partial_function (option) split_loop :: "u64 \<Rightarrow> u64 \<Rightarrow> u64 option" where
  "split_loop n p = (if p * 2 < n then split_loop n (shl64 p 1) else Some p)"

definition sdk_split :: "u64 \<Rightarrow> u64 option" where
  "sdk_split n = split_loop n 1"

lemma sdk_hash_eq [simp]: "sdk_leaf_hash = leaf_hash" "sdk_node_hash = node_hash"
  by (simp_all add: fun_eq_iff sdk_leaf_hash_def leaf_hash_def sdk_node_hash_def node_hash_def)

lemma shl64_1: "shl64 p 1 = p * 2" "shl64 p (Suc 0) = p * 2"
  by (simp_all add: shl64_def push_bit_eq_mult)

lemma split_loop_returns:
  assumes "unat p = 2 ^ e" and "2 ^ e < unat n" and "unat n \<le> 2 ^ 63"
  shows "\<exists>s d. split_loop n p = Some s \<and> unat s = 2 ^ d \<and> unat s < unat n \<and> unat n \<le> 2 * unat s"
  using assms(1,2)
proof (induction "unat n - unat p" arbitrary: p e rule: less_induct)
  case less
  have "(2::nat) ^ e < 2 ^ 63" using less.prems(2) assms(3) by linarith
  then have dbl: "unat (p * 2) = 2 ^ Suc e"
    using less.prems(1) by (simp add: unat_word_ariths)
  show ?case
  proof (cases "p * 2 < n")
    case True
    then have lt: "2 ^ Suc e < unat n" using dbl by (simp add: word_less_nat_alt)
    then have "unat n - unat (shl64 p 1) < unat n - unat p"
      using less.prems(1) dbl unfolding shl64_1 by (simp add: diff_less_mono2)
    from less.hyps [OF this _ lt] dbl True show ?thesis
      by (subst split_loop.simps) (simp add: shl64_1)
  next
    case False
    then have "unat n \<le> 2 ^ Suc e" using dbl by (simp add: word_less_nat_alt)
    with less.prems False show ?thesis
      by (subst split_loop.simps) auto
  qed
qed

interpretation sdk_splitting: split_fn sdk_split "2 ^ 63"
proof
  fix n :: u64
  assume "1 < unat n" and "unat n \<le> 2 ^ 63"
  then show "\<exists>s d. sdk_split n = Some s \<and> unat s = 2 ^ d \<and> unat s < unat n \<and> unat n \<le> 2 * unat s"
    unfolding sdk_split_def by (intro split_loop_returns [of 1 0]) simp_all
qed

text \<open>Above \<open>2 ^ 63\<close> the doubling wraps to zero and the loop never ends.\<close>

lemma u64_2p_le: "2 ^ 63 < unat n \<Longrightarrow> (2 ^ e :: u64) < n"
proof (cases "e < 64")
  case True
  assume "2 ^ 63 < unat n"
  moreover have "(2::nat) ^ e \<le> 2 ^ 63" using True by (intro power_increasing) auto
  ultimately show ?thesis using True by (simp add: word_less_nat_alt unat_u64_2p)
next
  case False
  assume "2 ^ 63 < unat n"
  moreover from False have "(2 ^ e :: u64) = 0" by (intro exp_eq_zero_iff [THEN iffD2]) simp
  ultimately show ?thesis by (simp only: word_less_nat_alt unat_0)
qed

lemma split_loop_diverges:
  assumes "2 ^ 63 < unat n"
  shows "split_loop n (2 ^ e) = None"
proof -
  have "2 ^ 63 < unat n \<longrightarrow> (\<forall>e. p \<noteq> 2 ^ e)" if "split_loop n p = Some s" for n p s
  proof (rule split_loop.raw_induct [OF _ that], intro impI allI notI)
    fix f n p s e
    assume IH: "\<And>n p s. f n p = Some s \<Longrightarrow> 2 ^ 63 < unat n \<longrightarrow> (\<forall>e. p \<noteq> 2 ^ e)"
      and step: "(if p * 2 < n then f n (shl64 p 1) else Some p) = Some s"
      and n: "2 ^ 63 < unat n" and p: "p = 2 ^ e"
    from p have dbl: "p * 2 = 2 ^ Suc e" by simp
    then have "p * 2 < n" using u64_2p_le [OF n, of "Suc e"] by simp
    with step have "f n (p * 2) = Some s" by (simp only: shl64_1 if_True)
    from IH [OF this] n dbl show False by blast
  qed
  with assms show ?thesis by (metis not_Some_eq)
qed

text \<open>
  C26. The split point of the SDK: for every size from 2 to \<open>2 ^ 63\<close> the loop returns, and returns the
  largest power of two below the size; for every size above \<open>2 ^ 63\<close> it never returns.
\<close>

theorem sdk_split_total_iff:
  assumes "1 < unat n"
  shows "sdk_split n = (if unat n \<le> 2 ^ 63 then Some (proof_k n) else None)"
proof (cases "unat n \<le> 2 ^ 63")
  case True
  have "unat n \<le> 2 ^ 64" using unat_lt2p [of n] by simp
  with True sdk_splitting.split_kpow [OF assms] proof_split.split_kpow [OF assms] show ?thesis by simp
next
  case False
  then show ?thesis using split_loop_diverges [of n 0] by (simp add: sdk_split_def)
qed

theorem sdk_split_total_iff_witness:
  "sdk_split 6 = (if unat (6 :: u64) \<le> 2 ^ 63 then Some (proof_k 6) else None)"
  by (rule sdk_split_total_iff) simp

section \<open>Inclusion\<close>

function sdk_skip :: "u64 \<Rightarrow> u64 \<Rightarrow> u64 \<times> u64" where
  "sdk_skip fn sn = (if fn \<noteq> 0 \<and> fn AND 1 = 0 then sdk_skip (shr64 fn 1) (shr64 sn 1) else (fn, sn))"
  by pat_completeness auto
termination
  by (relation "measure (\<lambda>(fn, sn). unat fn)") (auto simp: unat_gt_0)

declare sdk_skip.simps [simp del]

fun sdk_incl_loop :: "sha256 \<Rightarrow> u64 \<Rightarrow> u64 \<Rightarrow> hash \<Rightarrow> hash list \<Rightarrow> (u64 \<times> hash) option" where
  "sdk_incl_loop sha fn sn r [] = Some (sn, r)"
| "sdk_incl_loop sha fn sn r (step # proof) =
     (if sn = 0 then None
      else let ((fn', sn'), r') =
          (if fn AND 1 \<noteq> 0 \<or> fn = sn then (sdk_skip fn sn, sdk_node_hash sha step r)
           else ((fn, sn), sdk_node_hash sha r step))
        in sdk_incl_loop sha (shr64 fn' 1) (shr64 sn' 1) r' proof)"

definition sdk_verify_inclusion :: "sha256 \<Rightarrow> hash \<Rightarrow> u64 \<Rightarrow> u64 \<Rightarrow> hash list \<Rightarrow> hash \<Rightarrow> bool" where
  "sdk_verify_inclusion sha leaf leaf_index tree_size proof root =
     (if tree_size = 0 \<or> tree_size \<le> leaf_index then False
      else case sdk_incl_loop sha leaf_index (tree_size - 1) leaf proof of
        None \<Rightarrow> False
      | Some (sn, r) \<Rightarrow> sn = 0 \<and> r = root)"

lemma sdk_skip_eq: "sdk_skip fn sn = skip_zeros fn sn"
  by (induction fn sn rule: skip_zeros.induct) (subst sdk_skip.simps, subst skip_zeros.simps, simp)

lemma sdk_incl_loop_eq: "sdk_incl_loop sha fn sn r p = verify_inclusion_loop sha fn sn r p"
  by (induction sha fn sn r p rule: verify_inclusion_loop.induct)
    (auto simp: sdk_skip_eq Let_def split: prod.splits)

lemma sdk_verify_inclusion_eq [simp]: "sdk_verify_inclusion = verify_inclusion"
  by (simp add: fun_eq_iff sdk_verify_inclusion_def verify_inclusion_def sdk_incl_loop_eq)

interpretation sdk_incl: inclusion_verifier "node_hash sha" "sdk_verify_inclusion sha" for sha
  by unfold_locales (simp add: verify_inclusion_recon)

section \<open>Consistency\<close>

text \<open>
  The \<^verbatim>\<open>next\<close> closure reads the proof at the counter \<open>idx\<close> and advances it. The result of
  \<^verbatim>\<open>verify_subproof\<close> is the pair of roots or \<^verbatim>\<open>None\<close>, with the counter; the outer option is \<open>None\<close>
  when the call never returns.
\<close>

definition sdk_next :: "hash list \<Rightarrow> nat \<Rightarrow> hash option \<times> nat" where
  "sdk_next proof idx = (if length proof \<le> idx then (None, idx) else (Some (proof ! idx), idx + 1))"

partial_function (option) sdk_verify_subproof ::
  "sha256 \<Rightarrow> hash list \<Rightarrow> u64 \<Rightarrow> u64 \<Rightarrow> hash \<Rightarrow> nat \<Rightarrow> bool \<Rightarrow> ((hash \<times> hash) option \<times> nat) option" where
  "sdk_verify_subproof sha proof m n old_root idx b =
     (if m = n then
        (if b then Some (Some (old_root, old_root), idx)
         else case sdk_next proof idx of
            (None, idx1) \<Rightarrow> Some (None, idx1)
          | (Some h, idx1) \<Rightarrow> Some (Some (h, h), idx1))
      else Option.bind (sdk_split n) (\<lambda>sp.
        if m \<le> sp then
          Option.bind (sdk_verify_subproof sha proof m sp old_root idx b) (\<lambda>(r, idx1).
            case r of None \<Rightarrow> Some (None, idx1)
            | Some (lo, ln) \<Rightarrow>
              (case sdk_next proof idx1 of
                 (None, idx2) \<Rightarrow> Some (None, idx2)
               | (Some rh, idx2) \<Rightarrow> Some (Some (lo, sdk_node_hash sha ln rh), idx2)))
        else
          Option.bind (sdk_verify_subproof sha proof (m - sp) (n - sp) old_root idx False) (\<lambda>(r, idx1).
            case r of None \<Rightarrow> Some (None, idx1)
            | Some (ro, rn) \<Rightarrow>
              (case sdk_next proof idx1 of
                 (None, idx2) \<Rightarrow> Some (None, idx2)
               | (Some lh, idx2) \<Rightarrow>
                   Some (Some (sdk_node_hash sha lh ro, sdk_node_hash sha lh rn), idx2)))))"

definition sdk_verify_consistency ::
  "sha256 \<Rightarrow> u64 \<Rightarrow> u64 \<Rightarrow> hash list \<Rightarrow> hash \<Rightarrow> hash \<Rightarrow> bool option" where
  "sdk_verify_consistency sha old_size new_size proof old_root new_root =
     (if old_size = new_size then Some (proof = [] \<and> old_root = new_root)
      else if old_size = 0 \<or> new_size < old_size then Some False
      else Option.bind (sdk_verify_subproof sha proof old_size new_size old_root 0 True) (\<lambda>(result, idx).
        case result of
          Some (computed_old, computed_new) \<Rightarrow>
            Some (idx = length proof \<and> computed_old = old_root \<and> computed_new = new_root)
        | None \<Rightarrow> Some False))"

text \<open>
  The SDK's counter into the proof against the core's list of unread hashes: both return, with the
  same roots, and the unread hashes are those from the counter on.
\<close>

definition agrees ::
  "hash list \<Rightarrow> ((hash \<times> hash) option \<times> nat) option \<Rightarrow> ((hash \<times> hash) \<times> hash list) option \<Rightarrow> bool" where
  "agrees proof x y \<longleftrightarrow> (\<exists>r idx. x = Some (r, idx) \<and> idx \<le> length proof \<and>
     (case y of None \<Rightarrow> r = None | Some (rr, it) \<Rightarrow> r = Some rr \<and> it = drop idx proof))"

lemma sdk_next_drop:
  "idx \<le> length proof \<Longrightarrow> sdk_next proof idx =
    (case drop idx proof of [] \<Rightarrow> (None, idx) | h # t \<Rightarrow> (Some h, Suc idx))"
  by (cases "idx < length proof") (simp_all add: sdk_next_def flip: Cons_nth_drop_Suc)

lemma agrees_next:
  assumes "idx \<le> length proof"
  shows "agrees proof (case sdk_next proof idx of (None, i) \<Rightarrow> Some (None, i) | (Some h, i) \<Rightarrow> Some (Some (f h), i))
    (case drop idx proof of [] \<Rightarrow> None | h # it \<Rightarrow> Some (f h, it))"
proof (cases "idx < length proof")
  case True
  then have "drop idx proof = proof ! idx # drop (Suc idx) proof" by (simp add: Cons_nth_drop_Suc)
  with True show ?thesis by (simp add: sdk_next_drop agrees_def)
next
  case False
  with assms show ?thesis by (simp add: sdk_next_drop agrees_def)
qed

lemma agrees_bind:
  assumes "agrees proof x y"
  shows "agrees proof
    (Option.bind x (\<lambda>(r, idx1). case r of None \<Rightarrow> Some (None, idx1)
       | Some (lo, ln) \<Rightarrow> (case sdk_next proof idx1 of (None, idx2) \<Rightarrow> Some (None, idx2)
           | (Some h, idx2) \<Rightarrow> Some (Some (f lo ln h), idx2))))
    (case y of None \<Rightarrow> None | Some ((lo, ln), it1) \<Rightarrow>
       (case it1 of [] \<Rightarrow> None | h # it2 \<Rightarrow> Some (f lo ln h, it2)))"
proof -
  obtain r idx where x: "x = Some (r, idx)" and i: "idx \<le> length proof"
    and y: "case y of None \<Rightarrow> r = None | Some (rr, it) \<Rightarrow> r = Some rr \<and> it = drop idx proof"
    using assms by (auto simp: agrees_def)
  show ?thesis
  proof (cases y)
    case None
    with x i y show ?thesis by (simp add: agrees_def)
  next
    case (Some a)
    obtain lo ln it where a: "a = ((lo, ln), it)" by (metis surj_pair)
    with Some y have "r = Some (lo, ln)" and "it = drop idx proof" by simp_all
    with x Some a agrees_next [OF i, of "f lo ln"] show ?thesis by simp
  qed
qed

lemma sdk_subproof_agrees:
  assumes "0 < unat m" and "m \<le> n" and "unat n \<le> 2 ^ 63" and "idx \<le> length proof"
  shows "agrees proof (sdk_verify_subproof sha proof m n old idx b)
    (verify_subproof sha m n old (drop idx proof) b)"
  using assms
proof (induction "unat n" arbitrary: m n b rule: less_induct)
  case less
  show ?case
  proof (cases "m = n")
    case True
    with agrees_next [OF assms(4), of "\<lambda>h. (h, h)"] less.prems(4) show ?thesis
      by (subst sdk_verify_subproof.simps, subst verify_subproof.simps) (simp add: agrees_def)
  next
    case False
    with less.prems(2) have "m < n" by simp
    then have gt: "1 < unat n" and n1: "\<not> n \<le> 1"
      using less.prems(1) by (simp_all add: word_less_nat_alt word_le_nat_alt)
    have sp: "sdk_split n = Some (proof_k n)"
      using sdk_splitting.split_kpow [OF gt less.prems(3)] proof_k_kpow [OF gt]
      by (metis word_unat_Rep_inverse)
    note k = proof_k_less [OF n1]
    show ?thesis
    proof (cases "m \<le> proof_k n")
      case True
      from less.hyps [OF k(1) less.prems(1) True] less.prems(3,4) k(1)
      have "agrees proof (sdk_verify_subproof sha proof m (proof_k n) old idx b)
          (verify_subproof sha m (proof_k n) old (drop idx proof) b)" by simp
      from agrees_bind [OF this, of "\<lambda>lo ln h. (lo, node_hash sha ln h)"] False n1 sp True show ?thesis
        by (subst sdk_verify_subproof.simps, subst verify_subproof.simps, unfold sdk_hash_eq Let_def) simp
    next
      case mk: False
      have lt: "proof_k n < m" using mk by simp
      then have "0 < unat (m - proof_k n)" and "m - proof_k n \<le> n - proof_k n"
        using \<open>m < n\<close> by (auto simp: unat_gt_0 word_le_nat_alt unat_sub word_less_nat_alt)
      from less.hyps [OF k(2) this] less.prems(3,4) k(2)
      have "agrees proof (sdk_verify_subproof sha proof (m - proof_k n) (n - proof_k n) old idx False)
          (verify_subproof sha (m - proof_k n) (n - proof_k n) old (drop idx proof) False)" by simp
      from agrees_bind [OF this, of "\<lambda>ro rn h. (node_hash sha h ro, node_hash sha h rn)"] False n1 sp mk
      show ?thesis
        by (subst sdk_verify_subproof.simps, subst verify_subproof.simps, unfold sdk_hash_eq Let_def) simp
    qed
  qed
qed

lemma sdk_verify_consistency_core:
  assumes "unat n \<le> 2 ^ 63"
  shows "sdk_verify_consistency sha m n p old new = Some (verify_consistency sha m n p old new)"
proof (cases "m \<noteq> n \<and> m \<noteq> 0 \<and> \<not> n < m")
  case True
  then have "agrees p (sdk_verify_subproof sha p m n old 0 True) (verify_subproof sha m n old p True)"
    using sdk_subproof_agrees [of m n 0 p sha old True] assms by (simp add: unat_gt_0 not_less)
  with True show ?thesis
    by (auto simp: sdk_verify_consistency_def verify_consistency_def agrees_def split: option.splits)
next
  case False
  then show ?thesis by (auto simp: sdk_verify_consistency_def verify_consistency_def)
qed

interpretation sdk_cons: consistency_verifier "node_hash sha"
  "\<lambda>m n p old new. sdk_verify_consistency sha m n p old new = Some True" "2 ^ 63" for sha
  by unfold_locales (simp add: sdk_verify_consistency_core verify_consistency_recon2)

lemma sdk_verify_consistency_diverges:
  assumes "m < n" and "m \<noteq> 0" and "2 ^ 63 < unat n"
  shows "sdk_verify_consistency sha m n p old new = None"
proof -
  have "sdk_split n = None" using split_loop_diverges [OF assms(3), of 0] by (simp add: sdk_split_def)
  moreover from assms(1) have "m \<noteq> n" by simp
  ultimately have "sdk_verify_subproof sha p m n old 0 True = None"
    by (subst sdk_verify_subproof.simps) simp
  with assms show ?thesis by (auto simp: sdk_verify_consistency_def)
qed

text \<open>
  C25. The SDK's verifiers are equivalent to those of \<^verbatim>\<open>settled-core\<close>: the inclusion check on every
  input, the consistency check on every new size up to \<open>2 ^ 63\<close>. With a larger new size and a smaller
  non-zero old size the SDK's check never returns (the split loop wraps), whatever the proof is.
\<close>

theorem sdk_verifiers_equivalent:
  "sdk_verify_inclusion sha l i n p root = verify_inclusion sha l i n p root
   \<and> sdk_verify_consistency sha m n p old new =
     (if 2 ^ 63 < unat n \<and> m \<noteq> 0 \<and> m < n then None else Some (verify_consistency sha m n p old new))"
proof (intro conjI)
  show "sdk_verify_consistency sha m n p old new =
      (if 2 ^ 63 < unat n \<and> m \<noteq> 0 \<and> m < n then None else Some (verify_consistency sha m n p old new))"
  proof (cases "unat n \<le> 2 ^ 63")
    case True
    then show ?thesis by (simp add: sdk_verify_consistency_core)
  next
    case False
    then show ?thesis
      using sdk_verify_consistency_diverges [of m n sha p old new]
      by (auto simp: sdk_verify_consistency_def verify_consistency_def)
  qed
qed simp

text \<open>
  What \<^verbatim>\<open>settled-core\<close> generates the SDK accepts: for a log of at most \<open>2 ^ 63\<close> leaves, the
  generated inclusion proof of every leaf and the generated consistency proof of every non-empty prefix
  verify in the SDK against the roots the incremental tree reports.
\<close>

theorem sdk_accepts_generated:
  fixes xs :: "hash list"
  assumes "length xs \<le> 2 ^ 63" and "unat i < length xs" and "0 < m" and "unat m \<le> length xs"
    and "mt_inv sha t xs" and "mt_inv sha t_old (take (unat m) xs)"
  shows "\<exists>p q root old. mt_root sha t = Some root \<and> mt_root sha t_old = Some old
    \<and> inclusion_proof sha xs i = Inr p \<and> consistency_proof sha xs m = Inr q
    \<and> sdk_verify_inclusion sha (xs ! unat i) i (mt_size t) p root
    \<and> sdk_verify_consistency sha m (mt_size t) q old root = Some True"
proof -
  let ?nd = "node_hash sha"
  have len: "length xs < 2 ^ 64" using assms(1) by simp
  have m: "0 < unat m" using assms(3) by (simp add: word_gt_0 unat_gt_0)
  have sz: "mt_size t = of_nat (length xs)" using assms(5) by (rule mt.rel_size)
  have "mt_root sha t = Some (MTH ?nd xs)" "mt_root sha t_old = Some (MTH ?nd (take (unat m) xs))"
    using assms m by (auto simp: mt_root_MTH)
  moreover have "inclusion_proof sha xs i = Inr (PATH ?nd xs (unat i))"
    using assms(2) len by (rule inclusion_proof_PATH)
  moreover have "consistency_proof sha xs m = Inr (SUBPROOF ?nd xs (unat m) True)"
    using assms(3,4) len by (rule consistency_proof_SUBPROOF)
  moreover have "sdk_verify_inclusion sha (xs ! unat i) i (mt_size t) (PATH ?nd xs (unat i)) (MTH ?nd xs)"
    using sdk_incl.incl_complete [OF assms(2) len] sz by simp
  moreover have "sdk_verify_consistency sha m (mt_size t) (SUBPROOF ?nd xs (unat m) True)
      (MTH ?nd (take (unat m) xs)) (MTH ?nd xs) = Some True"
    using sdk_cons.cons_complete [OF m assms(4) len assms(1)] sz by simp
  ultimately show ?thesis by blast
qed

lemma toy_single_inv:
  "mt_inv toy_sha \<lparr>frontier = [arr_of [5]], mt_size = 1\<rparr> [arr_of [5]]"
  by (simp add: mt_inv_def chunk_def)

theorem sdk_accepts_generated_witness:
  "\<exists>p q root old. mt_root toy_sha \<lparr>frontier = [arr_of [5]], mt_size = 1\<rparr> = Some root
    \<and> mt_root toy_sha \<lparr>frontier = [arr_of [5]], mt_size = 1\<rparr> = Some old
    \<and> inclusion_proof toy_sha [arr_of [5]] 0 = Inr p \<and> consistency_proof toy_sha [arr_of [5]] 1 = Inr q
    \<and> sdk_verify_inclusion toy_sha ([arr_of [5]] ! unat (0 :: u64)) 0 1 p root
    \<and> sdk_verify_consistency toy_sha 1 1 q old root = Some True"
  using sdk_accepts_generated [of "[arr_of [5]]" 0 1 toy_sha "\<lparr>frontier = [arr_of [5]], mt_size = 1\<rparr>"
      "\<lparr>frontier = [arr_of [5]], mt_size = 1\<rparr>"] toy_single_inv by simp

section \<open>Signed tree heads\<close>

definition sdk_signing_payload :: "u64 \<Rightarrow> hash \<Rightarrow> i64 \<Rightarrow> 48 barr" where
  "sdk_signing_payload tree_size root_hash timestamp_ns =
     (let buf = replicate 48 0;
          buf = copy_into buf 0 (to_vec (u64_to_be tree_size));
          buf = copy_into buf 8 (to_vec root_hash);
          buf = copy_into buf 40 (to_vec (u64_to_be timestamp_ns))
      in arr_of buf)"

record sdk_key_record =
  sdk_version :: u32
  sdk_public_key :: "32 barr"
  sdk_activated_at_tree_size :: u64

definition sdk_verify_tree_head :: "ed25519 \<Rightarrow> u64 \<Rightarrow> hash \<Rightarrow> i64 \<Rightarrow> bytes \<Rightarrow> bytes \<Rightarrow> bool" where
  "sdk_verify_tree_head ed tree_size root_hash timestamp_ns signature public_key =
     (case (try_into public_key :: 32 barr option) of None \<Rightarrow> False
      | Some key_arr \<Rightarrow>
        (case (try_into signature :: 64 barr option) of None \<Rightarrow> False
         | Some sig_arr \<Rightarrow>
           if \<not> ed_key_ok ed key_arr then False
           else ed_verify ed key_arr (to_vec (sdk_signing_payload tree_size root_hash timestamp_ns)) sig_arr))"

definition sdk_verify_tree_head_with_chain ::
  "ed25519 \<Rightarrow> u64 \<Rightarrow> hash \<Rightarrow> i64 \<Rightarrow> bytes \<Rightarrow> u32 \<Rightarrow> sdk_key_record list \<Rightarrow> bool" where
  "sdk_verify_tree_head_with_chain ed tree_size root_hash timestamp_ns signature key_version chain =
     (case find (\<lambda>r. sdk_version r = key_version) chain of None \<Rightarrow> False
      | Some record \<Rightarrow> sdk_verify_tree_head ed tree_size root_hash timestamp_ns signature
          (to_vec (sdk_public_key record)))"

definition sdk_verify_tree_head_sequential ::
  "ed25519 \<Rightarrow> u64 \<Rightarrow> hash \<Rightarrow> i64 \<Rightarrow> bytes \<Rightarrow> bytes \<Rightarrow> i64 \<Rightarrow> bool" where
  "sdk_verify_tree_head_sequential ed tree_size root_hash timestamp_ns signature public_key previous_timestamp_ns =
     (if sint timestamp_ns \<le> sint previous_timestamp_ns then False
      else sdk_verify_tree_head ed tree_size root_hash timestamp_ns signature public_key)"

lemma sdk_signing_payload_eq [simp]: "sdk_signing_payload = signing_payload"
  by (simp add: fun_eq_iff sdk_signing_payload_def signing_payload_def)

lemma sdk_verify_tree_head_arrays [simp]:
  "sdk_verify_tree_head ed n root ts (to_vec s) (to_vec pk) \<longleftrightarrow>
   ed_key_ok ed pk \<and> verify_tree_head ed pk n root ts s"
  by (simp add: sdk_verify_tree_head_def verify_tree_head_def)

text \<open>
  The SDK accepts a tree head signed by \<^verbatim>\<open>settled-core\<close>: with the signer's public key, and through
  a key chain whose first record of the version holds that key, while the sequential check additionally
  asks for a timestamp later (as a signed number) than the previous one.
\<close>

theorem sdk_accepts_signed_head:
  assumes "ed_laws ed"
    and "find (\<lambda>r. sdk_version r = v) chain = Some rec" and "sdk_public_key rec = ed_public ed sk"
  shows "sdk_verify_tree_head ed n root ts (to_vec (sign_tree_head ed sk n root ts)) (to_vec (ed_public ed sk))
    \<and> sdk_verify_tree_head_with_chain ed n root ts (to_vec (sign_tree_head ed sk n root ts)) v chain
    \<and> (sdk_verify_tree_head_sequential ed n root ts (to_vec (sign_tree_head ed sk n root ts))
          (to_vec (ed_public ed sk)) prev \<longleftrightarrow> sint prev < sint ts)"
  using assms sign_verify_tree_head [OF assms(1), of sk n root ts]
  by (simp add: sdk_verify_tree_head_with_chain_def sdk_verify_tree_head_sequential_def ed_lawsD not_le)

theorem sdk_accepts_signed_head_witness:
  "sdk_verify_tree_head toy_ed 3 (arr_of [9]) 7 (to_vec (sign_tree_head toy_ed (arr_of [1]) 3 (arr_of [9]) 7))
      (to_vec (ed_public toy_ed (arr_of [1])))
    \<and> sdk_verify_tree_head_with_chain toy_ed 3 (arr_of [9]) 7
      (to_vec (sign_tree_head toy_ed (arr_of [1]) 3 (arr_of [9]) 7)) 2
      [\<lparr>sdk_version = 2, sdk_public_key = arr_of [1], sdk_activated_at_tree_size = 0\<rparr>]
    \<and> (sdk_verify_tree_head_sequential toy_ed 3 (arr_of [9]) 7
        (to_vec (sign_tree_head toy_ed (arr_of [1]) 3 (arr_of [9]) 7))
        (to_vec (ed_public toy_ed (arr_of [1]))) (- 5) \<longleftrightarrow> sint (- 5 :: i64) < sint (7 :: i64))"
  by (rule sdk_accepts_signed_head [OF toy_ed_laws, where rec =
        "\<lparr>sdk_version = 2, sdk_public_key = arr_of [1], sdk_activated_at_tree_size = 0\<rparr>"])
    (simp_all add: toy_ed_def)

end
