(* ===== verification/Server_Sth.thy ===== *)
theory Server_Sth
  imports Server_State Sdk_Verifier
begin

text \<open>
  \<^verbatim>\<open>settled-server/src/sth_task.rs\<close> and the key rotation of \<^verbatim>\<open>admin.rs\<close>. \<open>sign_and_store\<close> takes a
  snapshot of the tree under the lock and then works without it: it reads the signer three times (to
  sign, for the public key, for the version) and writes the head. \<open>sign_snapshot\<close> is that second part,
  with the three signers it saw as arguments; \<open>sign_and_store\<close> is the undisturbed run, in which they
  are the same. The lemmas show that the undisturbed run keeps the server invariant; what happens when a
  rotation slips in between is shown in \<^verbatim>\<open>Server_Machine\<close>.
\<close>

section \<open>Signing a tree head\<close>

definition lift_app :: "(storage_error, 'a) result \<Rightarrow> (app_error, 'a) result" where
  "lift_app r = map_err AppStorage r"

text \<open>Is there already a head for the size of the snapshot?\<close>

definition sth_due :: "'d env \<Rightarrow> u64 \<Rightarrow> 'd app_state \<Rightarrow> (app_error, bool) result" where
  "sth_due E tree_size st =
     (if tree_size = 0 then Inr False
      else bindR (lift_app (hs_latest (e_rocks E) (e_codec E) (st_db st))) (\<lambda>latest.
        Inr (case latest of None \<Rightarrow> True | Some l \<Rightarrow> sth_tree_size l \<noteq> tree_size)))"

text \<open>Signing the snapshot and storing the head; the three signers are what the three reads of the signer return.\<close>

definition sign_and_write ::
  "'d env \<Rightarrow> int \<Rightarrow> u64 \<Rightarrow> hash option \<Rightarrow> signer \<Rightarrow> signer \<Rightarrow> signer \<Rightarrow> 'd app_state \<Rightarrow>
   'd app_state \<times> (app_error, unit) result" where
  "sign_and_write E now tree_size root_opt sg_sign sg_pk sg_ver st =
     (case unwrap root_opt of Inl e \<Rightarrow> (st, Inl e)
      | Inr root_hash \<Rightarrow>
        (case timestamp_of now of Inl e \<Rightarrow> (st, Inl e)
         | Inr timestamp_ns \<Rightarrow>
           (let payload = signing_payload tree_size root_hash timestamp_ns;
                sth = \<lparr>sth_tree_size = tree_size, sth_root_hash = root_hash, sth_timestamp_ns = timestamp_ns,
                       sth_signature = signer_sign E sg_sign payload,
                       sth_public_key = signer_public_key E sg_pk, sth_key_version = sg_version sg_ver\<rparr>;
                (db', r) = hs_write (e_rocks E) (e_codec E) sth (st_db st)
            in (st\<lparr>st_db := db'\<rparr>, lift_app r))))"

definition sign_snapshot ::
  "'d env \<Rightarrow> int \<Rightarrow> u64 \<Rightarrow> hash option \<Rightarrow> signer \<Rightarrow> signer \<Rightarrow> signer \<Rightarrow> 'd app_state \<Rightarrow>
   'd app_state \<times> (app_error, unit) result" where
  "sign_snapshot E now tree_size root_opt sg_sign sg_pk sg_ver st =
     (case sth_due E tree_size st of
        Inl e \<Rightarrow> (st, Inl e)
      | Inr due \<Rightarrow> if due then sign_and_write E now tree_size root_opt sg_sign sg_pk sg_ver st else (st, Inr ()))"

definition sign_and_store :: "'d env \<Rightarrow> int \<Rightarrow> 'd app_state \<Rightarrow> 'd app_state \<times> (app_error, unit) result" where
  "sign_and_store E now st =
     (if st_poisoned st then (st, Inl (Panic UnwrapFailed))
      else let tree_size = mt_size (st_merkle st); root_hash = mt_root (e_sha E) (st_merkle st)
        in sign_snapshot E now tree_size root_hash (st_signer st) (st_signer st) (st_signer st) st)"

section \<open>Key rotation\<close>

datatype http_status = StatusOk | NoContent | InternalServerError

definition rotate_key ::
  "'d env \<Rightarrow> signing_key \<Rightarrow> (string \<times> bytes option) option \<Rightarrow> 'd app_state \<Rightarrow>
   'd app_state \<times> (http_status, key_record) result" where
  "rotate_key E fresh wr st =
     (if st_poisoned st then (st, Inl (Panic UnwrapFailed))
      else let activated_at = mt_size (st_merkle st); new_version = sg_version (st_signer st) + 1;
               (st, r) = signer_rotate E fresh wr new_version st
        in case r of
             Inl (Panic p) \<Rightarrow> (st, Inl (Panic p))
           | Inl (Err _) \<Rightarrow> (st, Inl (Err InternalServerError))
           | Inr new_pubkey \<Rightarrow>
             (let record = \<lparr>kr_version = new_version, kr_public_key = new_pubkey,
                            kr_activated_at_tree_size = activated_at\<rparr>;
                  (db', r) = ks_put (e_rocks E) (e_codec E) record (st_db st)
              in (st\<lparr>st_db := db'\<rparr>,
                  bindR (map_err (\<lambda>_. InternalServerError) r) (\<lambda>_. Inr record))))"

section \<open>Signing keeps the invariant\<close>

lemmas sign_snapshot_eqs = sign_snapshot_def sth_due_def sign_and_write_def

definition new_sth :: "'d env \<Rightarrow> int \<Rightarrow> signer \<Rightarrow> log_entry list \<Rightarrow> signed_tree_head" where
  "new_sth E now sg es =
     (let n = of_nat (length es); rh = MTH (node_hash (e_sha E)) (map le_leaf_hash es) in
      \<lparr>sth_tree_size = n, sth_root_hash = rh, sth_timestamp_ns = word_of_int now,
       sth_signature = signer_sign E sg (signing_payload n rh (word_of_int now)),
       sth_public_key = signer_public_key E sg, sth_key_version = sg_version sg\<rparr>)"

lemma new_sth_ok:
  assumes "es \<noteq> []" and "length es < 2 ^ 64"
  shows "root_ok E es (new_sth E now sg es)"
proof -
  have n: "unat (of_nat (length es) :: u64) = length es" using assms(2) by (rule unat_of_nat_u64)
  with assms(1) have "0 < (of_nat (length es) :: u64)" by (simp add: word_less_nat_alt)
  then show ?thesis
    using n by (simp add: root_ok_def new_sth_def Let_def)
qed

lemma new_sth_in_chain:
  assumes "ed_laws (e_ed E)" and "signer_ok E sg ks"
  shows "in_chain E ks (new_sth E now sg es)"
  unfolding in_chain_def
  using assms(2) verify_sth_signed [OF assms(1)]
  by (intro conjI bexI [of _ "last ks"]) (auto simp: signer_ok_def signer_sign_def signer_public_key_def new_sth_def Let_def)

lemma core_inv_heads:
  assumes "core_inv E view st es hs" and "root_ok E es s"
    and "heads_fam (e_codec E) (view (db_rocks db')) (upd_by sth_tree_size s hs)"
    and "next_seq db' = next_seq (st_db st)"
    and "\<And>c. c \<noteq> CfHeads \<Longrightarrow> view (db_rocks db') c = view (db_rocks (st_db st)) c"
  shows "core_inv E view (st\<lparr>st_db := db'\<rparr>) es (upd_by sth_tree_size s hs)"
  using assms by (auto simp: core_inv_def log_rel_def log_fam_def set_upd_by)

lemma core_inv_same_view:
  assumes "core_inv E view st es hs" and "view (db_rocks db') = view (db_rocks (st_db st))"
    and "next_seq db' = next_seq (st_db st)"
  shows "core_inv E view (st\<lparr>st_db := db'\<rparr>) es hs"
  using assms by (auto simp: core_inv_def log_rel_def)

lemma heads_below:
  assumes "core_inv E view st es hs" and "s \<in> set hs"
  shows "sth_tree_size s \<le> of_nat (length es)"
  using core_invD(6) [OF assms] core_invD(7) [OF assms(1)]
  by (simp add: root_ok_def word_le_nat_alt mt_inv_def unat_of_nat)

lemma tree_of_log:
  assumes "core_inv E view st es hs"
  shows "length es < 2 ^ 64" and "mt_size (st_merkle st) = of_nat (length es)"
    and "mt_root (e_sha E) (st_merkle st) =
      (if es = [] then None else Some (MTH (node_hash (e_sha E)) (map le_leaf_hash es)))"
  using core_invD(7) [OF assms] mt.rel_size [OF core_invD(7) [OF assms]] mt.rel_root [OF core_invD(7) [OF assms]]
  by (simp_all add: mt_inv_def)

lemma sth_due_cases:
  assumes inv: "core_inv E view st es hs"
  obtains (error) m where "sth_due E (of_nat (length es)) st = Inl (Err (AppStorage (RocksDb m)))"
    | (covered) "sth_due E (of_nat (length es)) st = Inr False"
      and "es = [] \<or> (\<exists>s \<in> set hs. sth_tree_size s = of_nat (length es))"
    | (due) "sth_due E (of_nat (length es)) st = Inr True" and "es \<noteq> []"
      and "\<And>s. s \<in> set hs \<Longrightarrow> sth_tree_size s < of_nat (length es)"
proof (cases "es = []")
  case True
  then show ?thesis by (intro covered) (simp_all add: sth_due_def)
next
  case ne: False
  note D = core_invD [OF inv]
  have nz: "(of_nat (length es) :: u64) \<noteq> 0"
    using ne tree_of_log(1) [OF inv] by (metis length_0_conv unat_0 unat_of_nat_u64)
  from hs_latest_yields [OF D(1,2,5)] consider m where "hs_latest (e_rocks E) (e_codec E) (st_db st) = Inl (Err (RocksDb m))"
    | "hs_latest (e_rocks E) (e_codec E) (st_db st) = Inr (if hs = [] then None else Some (last hs))"
    by (auto simp: yields_def)
  then show ?thesis
  proof cases
    case 1
    then show ?thesis using nz by (intro error) (simp add: sth_due_def lift_app_def)
  next
    case 2
    then have eq: "sth_due E (of_nat (length es)) st = Inr (hs = [] \<or> sth_tree_size (last hs) \<noteq> of_nat (length es))"
      using nz by (simp add: sth_due_def lift_app_def)
    show ?thesis
    proof (cases "hs \<noteq> [] \<and> sth_tree_size (last hs) = of_nat (length es)")
      case True
      then show ?thesis using eq last_in_set [of hs] by (intro covered) auto
    next
      case False
      have "sth_tree_size s < of_nat (length es)" if "s \<in> set hs" for s
      proof -
        have "sth_tree_size s \<le> sth_tree_size (last hs)" by (rule sorted_last_max [OF heads_sorted [OF D(5)] that])
        also have "last hs \<in> set hs" using that by (cases hs) auto
        then have "sth_tree_size (last hs) < of_nat (length es)"
          using heads_below [OF inv, of "last hs"] False that by (metis empty_iff list.set(1) order.not_eq_order_implies_strict)
        finally show ?thesis .
      qed
      then show ?thesis using eq False ne by (intro due) auto
    qed
  qed
qed

text \<open>Signing the current root, when every head has a smaller size.\<close>

lemma sign_and_write_cases:
  assumes inv: "core_inv E view st es hs" and ne: "es \<noteq> []"
    and below: "\<forall>s \<in> set hs. sth_tree_size s < of_nat (length es)"
    and run: "sign_and_write E now (of_nat (length es)) (Some (MTH (node_hash (e_sha E)) (map le_leaf_hash es))) sg sg sg st = (st', r)"
  obtains (new) db' where "r = Inr ()" and "st' = st\<lparr>st_db := db'\<rparr>"
      and "core_inv E view st' es (hs @ [new_sth E now sg es])"
      and "next_seq db' = next_seq (st_db st)" and "view (db_rocks db') CfKeys = view (db_rocks (st_db st)) CfKeys"
    | (fail) db' where "st' = st\<lparr>st_db := db'\<rparr>" and "core_inv E view st' es hs"
      and "next_seq db' = next_seq (st_db st)" and "view (db_rocks db') CfKeys = view (db_rocks (st_db st)) CfKeys"
      and "r \<noteq> Inr ()" and "now < 0 \<or> (\<exists>m. r = Inl (Err (AppStorage (RocksDb m))))"
proof (cases "now < 0")
  case True
  then have "st' = st" "r = Inl (Panic UnwrapFailed)" using run by (simp_all add: sign_and_write_def unwrap_def timestamp_of_def)
  with True inv show ?thesis by (intro fail [of "st_db st"]) simp_all
next
  case False
  note D = core_invD [OF inv]
  let ?s = "new_sth E now sg es"
  obtain db' w where w: "hs_write (e_rocks E) (e_codec E) ?s (st_db st) = (db', w)" by fastforce
  have st': "st' = st\<lparr>st_db := db'\<rparr>" and r: "r = lift_app w"
    using run False w by (simp_all add: sign_and_write_def unwrap_def timestamp_of_def new_sth_def Let_def)
  have upd: "upd_by sth_tree_size ?s hs = hs @ [?s]"
    using below by (intro upd_by_last) (simp add: new_sth_def Let_def)
  show ?thesis
  proof (cases rule: hs_write_cases [OF D(1,2,5) w])
    case 1
    from core_inv_heads [OF inv new_sth_ok [OF ne tree_of_log(1) [OF inv]] 1(2,3,4)] upd st' r 1 show ?thesis
      by (intro new [of db']) (simp_all add: lift_app_def)
  next
    case (2 m)
    from core_inv_same_view [OF inv 2(2,3)] st' r 2 show ?thesis
      by (intro fail [of db']) (simp_all add: lift_app_def)
  qed
qed

lemma sign_and_store_cases:
  assumes inv: "core_inv E view st es hs" and run: "sign_and_store E now st = (st', r)"
  obtains (new) db' where "r = Inr ()" and "st' = st\<lparr>st_db := db'\<rparr>" and "es \<noteq> []"
      and "core_inv E view st' es (hs @ [new_sth E now (st_signer st) es])"
      and "\<And>s. s \<in> set hs \<Longrightarrow> sth_tree_size s < of_nat (length es)"
      and "next_seq db' = next_seq (st_db st)" and "view (db_rocks db') CfKeys = view (db_rocks (st_db st)) CfKeys"
    | (skip) db' where "st' = st\<lparr>st_db := db'\<rparr>" and "core_inv E view st' es hs"
      and "next_seq db' = next_seq (st_db st)" and "view (db_rocks db') CfKeys = view (db_rocks (st_db st)) CfKeys"
      and "r = Inr () \<Longrightarrow> es = [] \<or> (\<exists>s \<in> set hs. sth_tree_size s = of_nat (length es))"
      and "r = Inr () \<or> st_poisoned st \<or> now < 0 \<or> (\<exists>m. r = Inl (Err (AppStorage (RocksDb m))))"
proof (cases "st_poisoned st")
  case True
  with run inv show ?thesis by (intro skip [of "st_db st"]) (auto simp: sign_and_store_def)
next
  case np: False
  note t = tree_of_log [OF inv]
  have run': "sign_snapshot E now (of_nat (length es)) (mt_root (e_sha E) (st_merkle st)) (st_signer st) (st_signer st) (st_signer st) st = (st', r)"
    using run np t(2) by (simp add: sign_and_store_def)
  show ?thesis
  proof (cases rule: sth_due_cases [OF inv])
    case (1 m)
    with run' inv show ?thesis by (intro skip [of "st_db st"]) (auto simp: sign_snapshot_def)
  next
    case 2
    with run' inv show ?thesis by (intro skip [of "st_db st"]) (auto simp: sign_snapshot_def)
  next
    case 3
    then have w: "sign_and_write E now (of_nat (length es)) (Some (MTH (node_hash (e_sha E)) (map le_leaf_hash es)))
        (st_signer st) (st_signer st) (st_signer st) st = (st', r)"
      using run' t(3) by (simp add: sign_snapshot_def)
    have below: "\<forall>s \<in> set hs. sth_tree_size s < of_nat (length es)" using 3(3) by blast
    show ?thesis
    proof (cases rule: sign_and_write_cases [OF inv 3(2) below w])
      case (1 db')
      with 3 show ?thesis by (intro new [of db'])
    next
      case (2 db')
      then show ?thesis by (intro skip [of db']) auto
    qed
  qed
qed

lemma sign_and_store_inv:
  assumes inv: "server_inv E view st es hs ks" and run: "sign_and_store E now st = (st', r)"
  obtains hs' where "server_inv E view st' es hs' ks" and "\<exists>added. hs' = hs @ added"
    and "r = Inr () \<Longrightarrow> es \<noteq> [] \<Longrightarrow> \<exists>s \<in> set hs'. sth_tree_size s = of_nat (length es)"
proof -
  have core: "core_inv E view st es hs" and keys: "keys_fam (e_codec E) (view (db_rocks (st_db st))) ks"
    and chain: "\<forall>s \<in> set hs. in_chain E ks s" and sg: "signer_ok E (st_signer st) ks"
    using inv by (auto simp: server_inv_core)
  show ?thesis
  proof (cases rule: sign_and_store_cases [OF core run])
    case (1 db')
    let ?s = "new_sth E now (st_signer st) es"
    have "server_inv E view st' es (hs @ [?s]) ks"
      unfolding server_inv_core using 1(2,4,7) keys chain sg new_sth_in_chain [OF core_invD(3) [OF core] sg]
      by (auto simp: keys_fam_def)
    then show ?thesis by (rule that) (auto simp: new_sth_def Let_def)
  next
    case (2 db')
    have "server_inv E view st' es hs ks"
      unfolding server_inv_core using 2(1,2,4) keys chain sg by (auto simp: keys_fam_def)
    then show ?thesis by (rule that) (use 2(5) in auto)
  qed
qed

section \<open>Rotation\<close>

text \<open>
  The outcomes of a rotation: the chain is extended and the new key is the signer's; or nothing changes
  except the key file; or the signer and the key file already hold the new key while the chain lacks its
  record.
\<close>

lemma rotate_key_cases:
  assumes inv: "server_inv E view st es hs ks" and ver: "sg_version (st_signer st) + 1 \<noteq> 0"
    and run: "rotate_key E fresh wr st = (st', r)"
  obtains (ok) k where "r = Inr k" and "server_inv E view st' es hs (ks @ [k])"
      and "k = \<lparr>kr_version = sg_version (st_signer st) + 1, kr_public_key = ed_public (e_ed E) fresh,
        kr_activated_at_tree_size = of_nat (length es)\<rparr>"
      and "st_key_file st' = Some (to_vec fresh)" and "next_seq (st_db st') = next_seq (st_db st)"
    | (no_change) "st_poisoned st \<or> wr \<noteq> None" and "server_inv E view st' es hs ks" and "\<And>k. r \<noteq> Inr k"
      and "st_db st' = st_db st"
    | (no_record) "r = Inl (Err InternalServerError)"
      and "st_signer st' = \<lparr>sg_key = fresh, sg_version = sg_version (st_signer st) + 1\<rparr>"
      and "st_key_file st' = Some (to_vec fresh)"
      and "disk_inv E (view (db_rocks (st_db st'))) es hs ks"
      and "next_seq (st_db st') = next_seq (st_db st)"
proof -
  note D = server_invD [OF inv]
  let ?v = "sg_version (st_signer st) + 1"
  show ?thesis
  proof (cases "st_poisoned st \<or> wr \<noteq> None")
    case True
    have "st' = st \<and> isl r \<or> (\<exists>f. st' = st\<lparr>st_key_file := f\<rparr> \<and> isl r)"
      using run True by (cases "st_poisoned st") (auto simp: rotate_key_def signer_rotate_def)
    then have "server_inv E view st' es hs ks" and "isl r" and "st_db st' = st_db st"
      using inv by (auto simp: server_inv_def)
    with True show ?thesis by (intro no_change) auto
  next
    case False
    then have np: "\<not> st_poisoned st" and wr: "wr = None" by blast+
    let ?k = "\<lparr>kr_version = ?v, kr_public_key = ed_public (e_ed E) fresh, kr_activated_at_tree_size = mt_size (st_merkle st)\<rparr>"
    have sz: "mt_size (st_merkle st) = of_nat (length es)" using mt.rel_size [OF D(8)] by simp
    obtain db' w where w: "ks_put (e_rocks E) (e_codec E) ?k (st_db st) = (db', w)" by fastforce
    then have st': "st' = st\<lparr>st_key_file := Some (to_vec fresh), st_signer := \<lparr>sg_key = fresh, sg_version = ?v\<rparr>, st_db := db'\<rparr>"
      and r: "r = bindR (map_err (\<lambda>_. InternalServerError) w) (\<lambda>_. Inr ?k)"
      using run np by (simp_all add: wr rotate_key_def signer_rotate_def Let_def)
    show ?thesis
    proof (cases rule: ks_put_cases [OF D(1,2,6) w])
      case 1
      have "kr_version x < ?v" if "x \<in> set ks" for x
      proof -
        have "kr_version x \<le> sg_version (st_signer st)"
          using sorted_last_max [OF keys_sorted [OF D(6)] that] D(9) by (simp add: signer_ok_def)
        with ver show ?thesis by (simp add: u32_less_Suc)
      qed
      then have upd: "upd_by kr_version ?k ks = ks @ [?k]" by (intro upd_by_last) simp
      have "head_ok E es (ks @ [?k]) s" if "s \<in> set hs" for s
        using head_ok_mono [OF D(7) [OF that], of "ks @ [?k]" "[]"] by auto
      then have "server_inv E view st' es hs (ks @ [?k])"
        using inv 1(2,3,4) upd st'
        by (auto simp: server_inv_def disk_inv_def log_rel_def log_fam_def heads_fam_def signer_ok_def)
      with st' r sz 1(1,3) show ?thesis by (intro ok) simp_all
    next
      case (2 m)
      with inv st' r show ?thesis
        by (intro no_record) (auto simp: server_inv_def disk_inv_def)
    qed
  qed
qed

section \<open>Properties\<close>

text \<open>
  C16. An undisturbed signing cycle: when it reports success on a non-empty log, the head store holds a
  head for the current size whose root is the root that \<^verbatim>\<open>mth\<close> computes from the log, whose signature
  verifies, and whose key version and public key are in the key chain; all earlier heads are kept.
\<close>

theorem sign_and_store_sound:
  assumes "server_inv E view st es hs ks" and "sign_and_store E now st = (st', Inr ())" and "es \<noteq> []"
  shows "\<exists>hs' s. server_inv E view st' es hs' ks \<and> set hs \<subseteq> set hs'
    \<and> yields (hs_at_size (e_rocks E) (e_codec E) (st_db st') (of_nat (length es))) (Some s)
    \<and> (mth (e_sha E) (map le_leaf_hash es) :: (app_error, hash option) result) = Inr (Some (sth_root_hash s))
    \<and> verify_sth (e_ed E) s
    \<and> (\<exists>k \<in> set ks. kr_version k = sth_key_version s \<and> kr_public_key k = sth_public_key s)"
proof -
  have len: "length es < 2 ^ 64" using server_invD(8) [OF assms(1)] by (simp add: mt_inv_def)
  have *: ?thesis if inv: "server_inv E view st' es hs' ks" and sub: "set hs \<subseteq> set hs'"
    and s: "s \<in> set hs'" and size: "sth_tree_size s = of_nat (length es)" for hs' s
  proof (intro exI conjI)
    note D = server_invD [OF inv]
    have find: "find (\<lambda>x. sth_tree_size x = of_nat (length es)) hs' = Some s"
      using heads_sorted [OF D(5)] s size by (induction hs') auto
    show "yields (hs_at_size (e_rocks E) (e_codec E) (st_db st') (of_nat (length es))) (Some s)"
      using hs_at_size_yields [OF D(1,2,5), of "of_nat (length es)"] find by simp
    have ok: "head_ok E es ks s" by (rule D(7) [OF s])
    then show "verify_sth (e_ed E) s"
      and "\<exists>k \<in> set ks. kr_version k = sth_key_version s \<and> kr_public_key k = sth_public_key s"
      by (simp_all add: head_ok_def root_ok_def in_chain_def)
    have "unat (sth_tree_size s) = length es" using size len by (simp add: unat_of_nat)
    with ok have "sth_root_hash s = MTH (node_hash (e_sha E)) (map le_leaf_hash es)" by (simp add: head_ok_def root_ok_def)
    with assms(3) len show "(mth (e_sha E) (map le_leaf_hash es) :: (app_error, hash option) result) = Inr (Some (sth_root_hash s))"
      by (simp add: mth_eq)
  qed (use inv sub in blast)+
  obtain hs' where hs': "server_inv E view st' es hs' ks" "\<exists>added. hs' = hs @ added"
    "\<exists>s \<in> set hs'. sth_tree_size s = of_nat (length es)"
    using sign_and_store_inv [OF assms(1,2)] assms(3) by metis
  then show ?thesis using * [OF hs'(1)] by auto
qed

text \<open>
  C38. A failed rotation: when the record of the new key cannot be stored, the error is reported but the
  signer and the key file already hold the new key and version, and the key chain has no record of that
  version: heads signed from now on cannot be checked against the chain.
\<close>

theorem failed_rotation_orphans_key:
  assumes "server_inv E view st es hs ks" and "sg_version (st_signer st) + 1 \<noteq> 0" and "\<not> st_poisoned st"
    and "rotate_key E fresh None st = (st', Inl e)"
  shows "st_signer st' = \<lparr>sg_key = fresh, sg_version = sg_version (st_signer st) + 1\<rparr>
    \<and> st_key_file st' = Some (to_vec fresh)
    \<and> yields (ks_all (e_rocks E) (e_codec E) (st_db st')) ks
    \<and> yields (ks_get (e_rocks E) (e_codec E) (st_db st') (sg_version (st_signer st'))) None"
proof (cases rule: rotate_key_cases [OF assms(1,2,4)])
  case (1 k)
  then show ?thesis by simp
next
  case 2
  with assms(3) show ?thesis by simp
next
  case 3
  note D = server_invD [OF assms(1)]
  have keys: "keys_fam (e_codec E) (view (db_rocks (st_db st'))) ks" using 3(4) by (simp add: disk_inv_def)
  have "kr_version x < sg_version (st_signer st) + 1" if "x \<in> set ks" for x
    using sorted_last_max [OF keys_sorted [OF D(6)] that] D(9) assms(2)
    by (intro u32_less_Suc) (simp_all add: signer_ok_def)
  then have "find (\<lambda>k. kr_version k = sg_version (st_signer st')) ks = None"
    using 3(2) by (fastforce simp: find_None_iff)
  with 3 ks_all_yields [OF D(1,2) keys] ks_get_yields [OF D(1,2) keys, of "sg_version (st_signer st')"]
  show ?thesis by simp
qed

lemma sig_prefix: "to_vec (arr_of (to_vec (k :: signing_key) @ m) :: signature) ! 0 = to_vec k ! 0"
  by (simp add: to_vec_arr_of nth_append)

lemmas sample_eval = sign_and_store_def sign_snapshot_eqs lift_app_def hs_latest_def hs_write_def unwrap_def
  timestamp_of_def sample_state1_def sample_state_def ls_append_def mem_env_def mem_rocks_def mem_codec_def
  mt_root_def shl64_def Let_def

text \<open>The theorems at a concrete state: the in-memory server with one entry.\<close>

definition signed_state :: "families app_state" where
  "signed_state = fst (sign_and_store mem_env 9 sample_state1)"

lemma signed_state_run: "sign_and_store mem_env 9 sample_state1 = (signed_state, Inr ())"
  unfolding signed_state_def by (intro prod_eqI) (simp_all add: sample_eval)

theorem sign_and_store_sound_witness:
  "\<exists>hs' s. server_inv mem_env (\<lambda>d. d) signed_state [new_entry toy_sha 5 0 [1] [2]] hs' [sample_key] \<and> set [] \<subseteq> set hs'
    \<and> yields (hs_at_size (e_rocks mem_env) (e_codec mem_env) (st_db signed_state)
        (of_nat (length [new_entry toy_sha 5 0 [1] [2]]))) (Some s)
    \<and> (mth (e_sha mem_env) (map le_leaf_hash [new_entry toy_sha 5 0 [1] [2]]) :: (app_error, hash option) result) =
        Inr (Some (sth_root_hash s))
    \<and> verify_sth (e_ed mem_env) s
    \<and> (\<exists>k \<in> set [sample_key]. kr_version k = sth_key_version s \<and> kr_public_key k = sth_public_key s)"
  by (rule sign_and_store_sound [OF sample_state1_inv(1) signed_state_run]) simp

definition flaky_env :: "(bool \<times> families) env" where
  "flaky_env = \<lparr>e_rocks = flaky_rocks, e_codec = mem_codec, e_sha = toy_sha, e_ed = toy_ed, e_rnd = (\<lambda>x. x)\<rparr>"

definition flaky_state :: "(bool \<times> families) app_state" where
  "flaky_state = \<lparr>st_db = \<lparr>db_rocks = (True, db_rocks (st_db sample_state)), next_seq = 0\<rparr>,
     st_merkle = mt_new, st_poisoned = False, st_signer = \<lparr>sg_key = arr_of [7], sg_version = 1\<rparr>,
     st_key_file = Some (to_vec (arr_of [7] :: signing_key)), st_limiter = None, st_config = sample_config, st_watch = []\<rparr>"

lemma flaky_state_inv: "server_inv flaky_env snd flaky_state [] [] [sample_key]"
  using sample_state_inv(1) flaky_rocks_laws
  by (simp add: server_inv_def env_laws_def disk_inv_def log_rel_def signer_ok_def flaky_env_def flaky_state_def
      mem_env_def sample_state_def)

theorem failed_rotation_orphans_key_witness:
  "st_signer (fst (rotate_key flaky_env (arr_of [8]) None flaky_state)) = \<lparr>sg_key = arr_of [8], sg_version = sg_version (st_signer flaky_state) + 1\<rparr>
    \<and> st_key_file (fst (rotate_key flaky_env (arr_of [8]) None flaky_state)) = Some (to_vec (arr_of [8] :: signing_key))
    \<and> yields (ks_all (e_rocks flaky_env) (e_codec flaky_env) (st_db (fst (rotate_key flaky_env (arr_of [8]) None flaky_state)))) [sample_key]
    \<and> yields (ks_get (e_rocks flaky_env) (e_codec flaky_env) (st_db (fst (rotate_key flaky_env (arr_of [8]) None flaky_state)))
        (sg_version (st_signer (fst (rotate_key flaky_env (arr_of [8]) None flaky_state))))) None"
proof (rule failed_rotation_orphans_key [OF flaky_state_inv])
  show "rotate_key flaky_env (arr_of [8]) None flaky_state =
      (fst (rotate_key flaky_env (arr_of [8]) None flaky_state), Inl (Err InternalServerError))"
    by (intro prod_eqI) (simp_all add: rotate_key_def signer_rotate_def ks_put_def flaky_env_def flaky_state_def
        flaky_rocks_def mem_codec_def Let_def)
qed (simp_all add: flaky_state_def)

end
