(* ===== verification/Server_Rpc.thy ===== *)
theory Server_Rpc
  imports Server_Sth
begin

text \<open>
  \<^verbatim>\<open>settled-server/src/service.rs\<close>: the gRPC handlers. A writing handler takes the state and returns the
  new one with its response or status; a reading handler returns only a response. The clocks are
  arguments: \<open>now\<close> the system clock in nanoseconds since the epoch, \<open>tick\<close> the monotonic clock. The
  parts of \<^verbatim>\<open>append\<close> and \<^verbatim>\<open>batch_append\<close> that run under \<^verbatim>\<open>append_mu\<close> are the functions \<open>commit_append\<close> and
  \<open>commit_batch\<close>; the broadcast to watchers happens after the lock is released and is a step of its
  own, \<open>publish\<close>. Counters and timers of the metrics module have no effect on the state; they are in
  \<open>Server_Metrics\<close>. A panic inside the locked region poisons the lock; a later \<^verbatim>\<open>lock().unwrap()\<close> panics.
\<close>

abbreviation (input) "MAX_BATCH \<equiv> (1000 :: nat)"
abbreviation (input) "MAX_BY_KEY \<equiv> (1000 :: u32)"
abbreviation (input) "DEFAULT_BY_KEY \<equiv> (50 :: u32)"
abbreviation (input) "MAX_LIST \<equiv> (1000 :: u32)"
abbreviation (input) "DEFAULT_LIST \<equiv> (50 :: u32)"

section \<open>Messages\<close>

record append_response =
  ar_seq :: u64
  ar_timestamp_ns :: i64
  ar_leaf_hash :: bytes
  ar_key :: bytes

record inclusion_response =
  ip_leaf_index :: u64
  ip_tree_size :: u64
  ip_proof :: "bytes list"
  ip_sth :: signed_tree_head_proto

record consistency_response =
  cp_old_size :: u64
  cp_new_size :: u64
  cp_proof :: "bytes list"
  cp_old_sth :: signed_tree_head_proto
  cp_new_sth :: signed_tree_head_proto

text \<open>The tree head message of the service has the fields of the stored message.\<close>

definition sth_to_proto :: "signed_tree_head \<Rightarrow> signed_tree_head_proto" where
  "sth_to_proto s = \<lparr>sp_tree_size = sth_tree_size s, sp_root_hash = to_vec (sth_root_hash s),
     sp_timestamp_ns = sth_timestamp_ns s, sp_signature = to_vec (sth_signature s),
     sp_public_key = to_vec (sth_public_key s), sp_key_version = sth_key_version s\<rparr>"

definition entry_of :: "log_entry \<Rightarrow> entry" where
  "entry_of e = \<lparr>en_seq = le_seq e, en_timestamp_ns = le_timestamp_ns e, en_key = le_key e, en_data = le_data e,
     en_leaf_hash = to_vec (le_leaf_hash e)\<rparr>"

definition from_storage :: "(storage_error, 'a) result \<Rightarrow> (status, 'a) result" where
  "from_storage r = map_err (\<lambda>e. status_from (Storage e)) r"

text \<open>A read in \<^verbatim>\<open>spawn_blocking\<close>: a panic of the task becomes an internal error.\<close>

definition blocking :: "(storage_error, 'a) result \<Rightarrow> (status, 'a) result" where
  "blocking r = (case r of Inl (Panic _) \<Rightarrow> Inl (Err (CodeInternal, ''task panicked'')) | _ \<Rightarrow> from_storage r)"

definition ok_or :: "server_error \<Rightarrow> 'a option \<Rightarrow> (status, 'a) result" where
  "ok_or e x = (case x of None \<Rightarrow> Inl (Err (status_from e)) | Some a \<Rightarrow> Inr a)"

section \<open>Appending\<close>

definition take_tokens ::
  "(bucket \<Rightarrow> bucket \<times> bool) \<Rightarrow> 'd app_state \<Rightarrow> 'd app_state \<times> bool" where
  "take_tokens consume st = (case st_limiter st of
     None \<Rightarrow> (st, True)
   | Some b \<Rightarrow> (let (b', ok) = consume b in (st\<lparr>st_limiter := Some b'\<rparr>, ok)))"

definition rate_limited :: status where
  "rate_limited = (CodeResourceExhausted, ''append rate limit exceeded; slow down'')"

definition commit_append ::
  "'d env \<Rightarrow> int \<Rightarrow> bytes \<Rightarrow> bytes \<Rightarrow> 'd app_state \<Rightarrow> 'd app_state \<times> (status, entry) result" where
  "commit_append E now key data st =
     (let lh = leaf_hash (e_sha E) data in
      if st_poisoned st then (st, Inl (Panic UnwrapFailed))
      else let (db', r) = ls_append (e_rocks E) (e_codec E) (e_sha E) now key data (st_db st);
               st = st\<lparr>st_db := db'\<rparr>
        in case r of
             Inl (Err e) \<Rightarrow> (st, Inl (Err (status_from (Storage e))))
           | Inl (Panic p) \<Rightarrow> (st\<lparr>st_poisoned := True\<rparr>, Inl (Panic p))
           | Inr (seq, ts) \<Rightarrow>
             (case mt_append (e_sha E) (st_merkle st) lh of
                Inl x \<Rightarrow> (st\<lparr>st_poisoned := True\<rparr>, Inl x)
              | Inr (m, _) \<Rightarrow> (st\<lparr>st_merkle := m\<rparr>,
                  Inr \<lparr>en_seq = seq, en_timestamp_ns = ts, en_key = key, en_data = data, en_leaf_hash = to_vec lh\<rparr>)))"

definition publish :: "entry list \<Rightarrow> 'd app_state \<Rightarrow> 'd app_state" where
  "publish ens st = st\<lparr>st_watch := st_watch st @ ens\<rparr>"

definition append_response_of :: "entry \<Rightarrow> append_response" where
  "append_response_of en = \<lparr>ar_seq = en_seq en, ar_timestamp_ns = en_timestamp_ns en,
     ar_leaf_hash = en_leaf_hash en, ar_key = en_key en\<rparr>"

definition rpc_append ::
  "'d env \<Rightarrow> int \<Rightarrow> nat \<Rightarrow> bytes \<Rightarrow> bytes \<Rightarrow> 'd app_state \<Rightarrow> 'd app_state \<times> (status, append_response) result" where
  "rpc_append E now tick key data st =
     (case take_tokens (try_consume (e_rnd E) tick) st of (st, ok) \<Rightarrow>
      if \<not> ok then (st, Inl (Err rate_limited))
      else case commit_append E now key data st of
        (st, Inl e) \<Rightarrow> (st, Inl e)
      | (st, Inr en) \<Rightarrow> (publish [en] st, Inr (append_response_of en)))"

definition commit_batch ::
  "'d env \<Rightarrow> int \<Rightarrow> (bytes \<times> bytes) list \<Rightarrow> 'd app_state \<Rightarrow>
   'd app_state \<times> (status, (u64 \<times> i64 \<times> hash) list) result" where
  "commit_batch E now pairs st =
     (if st_poisoned st then (st, Inl (Panic UnwrapFailed))
      else let (db', r) = ls_append_batch (e_rocks E) (e_codec E) (e_sha E) now pairs (st_db st);
               st = st\<lparr>st_db := db'\<rparr>
        in case r of
             Inl (Err e) \<Rightarrow> (st, Inl (Err (status_from (Storage e))))
           | Inl (Panic p) \<Rightarrow> (st\<lparr>st_poisoned := True\<rparr>, Inl (Panic p))
           | Inr results \<Rightarrow>
             (case foldR (\<lambda>m (_, _, lh). bindR (mt_append (e_sha E) m lh) (\<lambda>(m', _). Inr m')) (st_merkle st) results of
                Inl x \<Rightarrow> (st\<lparr>st_poisoned := True\<rparr>, Inl x)
              | Inr m \<Rightarrow> (st\<lparr>st_merkle := m\<rparr>, Inr results)))"

text \<open>The entries a batch broadcasts, one for each request and its result.\<close>

definition batch_message :: "(bytes \<times> bytes) list \<Rightarrow> (u64 \<times> i64 \<times> hash) list \<Rightarrow> entry list" where
  "batch_message reqs results = map (\<lambda>((key, data), (seq, ts, lh)). \<lparr>en_seq = seq, en_timestamp_ns = ts, en_key = key,
     en_data = data, en_leaf_hash = to_vec lh\<rparr>) (zip reqs results)"

definition rpc_batch_append ::
  "'d env \<Rightarrow> int \<Rightarrow> nat \<Rightarrow> (bytes \<times> bytes) list \<Rightarrow> 'd app_state \<Rightarrow>
   'd app_state \<times> (status, append_response list) result" where
  "rpc_batch_append E now tick reqs st =
     (let n = length reqs in
      if n = 0 then (st, Inr [])
      else if MAX_BATCH < n then
        (st, Inl (Err (status_from (InvalidArgument (''batch size '' @ dec n @ '' exceeds maximum '' @ dec MAX_BATCH)))))
      else case take_tokens (try_consume_n (e_rnd E) tick (of_nat n)) st of (st, ok) \<Rightarrow>
        if \<not> ok then (st, Inl (Err rate_limited))
        else case commit_batch E now reqs st of
          (st, Inl e) \<Rightarrow> (st, Inl e)
        | (st, Inr results) \<Rightarrow>
          (let ens = batch_message reqs results in (publish ens st, Inr (map append_response_of ens))))"

section \<open>Reading\<close>

definition rpc_get :: "'d env \<Rightarrow> u64 \<Rightarrow> 'd app_state \<Rightarrow> (status, entry) result" where
  "rpc_get E seq st =
     bindR (from_storage (ls_get_by_seq (e_rocks E) (e_codec E) (st_db st) seq)) (\<lambda>r.
     bindR (ok_or (NotFound (''seq '' @ show_u64 seq @ '' not found'')) r) (\<lambda>e. Inr (entry_of e)))"

definition rpc_get_latest :: "'d env \<Rightarrow> u32 \<Rightarrow> 'd app_state \<Rightarrow> (status, entry list \<times> u64) result" where
  "rpc_get_latest E req_n st =
     (let cap = cfg_max_get_latest (st_config st);
          n = unat (if req_n = 0 then 1 else min req_n cap);
          total_available = ls_count (st_db st)
      in bindR (blocking (ls_latest (e_rocks E) (e_codec E) (st_db st) n)) (\<lambda>entries.
           Inr (map entry_of entries, total_available)))"

definition rpc_list_entries ::
  "'d env \<Rightarrow> u64 \<Rightarrow> u64 \<Rightarrow> u32 \<Rightarrow> u64 \<Rightarrow> 'd app_state \<Rightarrow> (status, entry list \<times> u64) result" where
  "rpc_list_entries E from_seq to_seq req_limit cursor st =
     (let limit = unat (if req_limit = 0 then DEFAULT_LIST else min req_limit MAX_LIST);
          start = (if 0 < cursor then cursor else from_seq)
      in bindR (blocking (ls_seq_range_paged (e_rocks E) (e_codec E) (st_db st) start to_seq limit))
           (\<lambda>(entries, next_cursor). Inr (map entry_of entries, next_cursor)))"

definition rpc_get_by_key ::
  "'d env \<Rightarrow> bytes \<Rightarrow> u32 \<Rightarrow> u64 \<Rightarrow> 'd app_state \<Rightarrow> (status, entry list \<times> u64) result" where
  "rpc_get_by_key E key req_limit cursor st =
     (if key = [] then Inl (Err (status_from (InvalidArgument ''key must not be empty'')))
      else let limit = unat (if req_limit = 0 then DEFAULT_BY_KEY else min req_limit MAX_BY_KEY)
        in bindR (blocking (ls_entries_by_key (e_rocks E) (e_codec E) (st_db st) key cursor limit))
             (\<lambda>(entries, next_cursor). Inr (map entry_of entries, next_cursor)))"

definition latest_head :: "'d env \<Rightarrow> 'd app_state \<Rightarrow> (status, signed_tree_head) result" where
  "latest_head E st =
     bindR (from_storage (hs_latest (e_rocks E) (e_codec E) (st_db st))) (ok_or (NotFound ''no STH available yet''))"

definition head_at :: "'d env \<Rightarrow> string \<Rightarrow> u64 \<Rightarrow> 'd app_state \<Rightarrow> (status, signed_tree_head) result" where
  "head_at E what n st =
     bindR (from_storage (hs_at_size (e_rocks E) (e_codec E) (st_db st) n))
       (ok_or (NotFound (''no STH at '' @ what @ '' '' @ show_u64 n)))"

definition rpc_get_sth :: "'d env \<Rightarrow> u64 \<Rightarrow> 'd app_state \<Rightarrow> (status, signed_tree_head_proto) result" where
  "rpc_get_sth E tree_size st =
     bindR (if tree_size = 0 then latest_head E st else head_at E ''tree_size'' tree_size st)
       (\<lambda>s. Inr (sth_to_proto s))"

definition leaf_hashes_upto :: "'d env \<Rightarrow> u64 \<Rightarrow> 'd app_state \<Rightarrow> (status, hash list) result" where
  "leaf_hashes_upto E n st =
     blocking (bindR (ls_seq_range (e_rocks E) (e_codec E) (st_db st) 0 n) (\<lambda>es. Inr (map le_leaf_hash es)))"

definition rpc_inclusion_proof ::
  "'d env \<Rightarrow> u64 \<Rightarrow> u64 \<Rightarrow> 'd app_state \<Rightarrow> (status, inclusion_response) result" where
  "rpc_inclusion_proof E seq req_size st =
     bindR (if req_size = 0 then bindR (latest_head E st) (\<lambda>s. Inr (sth_tree_size s)) else Inr req_size) (\<lambda>tree_size.
       if tree_size \<le> seq then
         Inl (Err (status_from (InvalidArgument (''seq '' @ show_u64 seq @ '' is out of range for tree_size '' @
           show_u64 tree_size))))
       else
         bindR (leaf_hashes_upto E tree_size st) (\<lambda>leaf_hashes.
         bindR (map_err (\<lambda>e. status_from (Proof e)) (inclusion_proof (e_sha E) leaf_hashes seq)) (\<lambda>path.
         bindR (head_at E ''tree_size'' tree_size st) (\<lambda>sth.
           Inr \<lparr>ip_leaf_index = seq, ip_tree_size = tree_size, ip_proof = map to_vec path,
                ip_sth = sth_to_proto sth\<rparr>))))"

definition rpc_consistency_proof ::
  "'d env \<Rightarrow> u64 \<Rightarrow> u64 \<Rightarrow> 'd app_state \<Rightarrow> (status, consistency_response) result" where
  "rpc_consistency_proof E old_size req_new st =
     (if old_size = 0 then Inl (Err (status_from (InvalidArgument ''old_size must be > 0'')))
      else
        bindR (if req_new = 0 then bindR (latest_head E st) (\<lambda>s. Inr (sth_tree_size s)) else Inr req_new) (\<lambda>new_size.
          if new_size < old_size then
            Inl (Err (status_from (InvalidArgument (''old_size '' @ show_u64 old_size @ '' > new_size '' @
              show_u64 new_size))))
          else
            bindR (leaf_hashes_upto E new_size st) (\<lambda>leaf_hashes.
            bindR (map_err (\<lambda>e. status_from (Proof e)) (consistency_proof (e_sha E) leaf_hashes old_size)) (\<lambda>path.
            bindR (head_at E ''old_size'' old_size st) (\<lambda>old_sth.
            bindR (head_at E ''new_size'' new_size st) (\<lambda>new_sth.
              Inr \<lparr>cp_old_size = old_size, cp_new_size = new_size, cp_proof = map to_vec path,
                   cp_old_sth = sth_to_proto old_sth, cp_new_sth = sth_to_proto new_sth\<rparr>))))))"

section \<open>Writers keep the invariant\<close>

text \<open>What a writer leaves alone: the key chain, the signer and the schema version.\<close>

definition same_keys :: "('d \<Rightarrow> families) \<Rightarrow> 'd app_state \<Rightarrow> 'd app_state \<Rightarrow> bool" where
  "same_keys view st st' \<longleftrightarrow> st_signer st' = st_signer st \<and> st_key_file st' = st_key_file st \<and>
     view (db_rocks (st_db st')) CfKeys = view (db_rocks (st_db st)) CfKeys \<and>
     view (db_rocks (st_db st')) CfDefault = view (db_rocks (st_db st)) CfDefault"

lemma core_inv_failed_write:
  assumes "core_inv E view st es hs" and "log_rel (e_codec E) (e_sha E) view db' es"
    and "\<And>c. view (db_rocks db') c = view (db_rocks (st_db st)) c"
  shows "core_inv E view (st\<lparr>st_db := db', st_poisoned := b\<rparr>) es hs"
    and "core_inv E view (st\<lparr>st_db := db'\<rparr>) es hs"
  using assms by (auto simp: core_inv_def heads_fam_def)

lemma commit_append_cases:
  assumes inv: "core_inv E view st es hs" and room: "unat (next_seq (st_db st)) + 1 < 2 ^ 64"
    and run: "commit_append E now key data st = (st', r)"
  obtains (ok) e where "e = new_entry (e_sha E) (word_of_int now) (next_seq (st_db st)) key data"
      and "r = Inr (entry_of e)" and "core_inv E view st' (es @ [e]) hs" and "same_keys view st st'"
      and "next_seq (st_db st') = next_seq (st_db st) + 1" and "\<not> st_poisoned st'"
    | (fail) "isl r" and "core_inv E view st' es hs" and "same_keys view st st'"
      and "next_seq (st_db st') \<in> {next_seq (st_db st), next_seq (st_db st) + 1}"
      and "st_poisoned st' \<Longrightarrow> st_poisoned st \<or> now < 0"
proof -
  note D = core_invD [OF inv]
  let ?e = "new_entry (e_sha E) (word_of_int now) (next_seq (st_db st)) key data"
  show ?thesis
  proof (cases "st_poisoned st")
    case True
    with run inv show ?thesis by (intro fail) (auto simp: commit_append_def same_keys_def)
  next
    case np: False
    obtain db' w where w: "ls_append (e_rocks E) (e_codec E) (e_sha E) now key data (st_db st) = (db', w)" by fastforce
    show ?thesis
    proof (cases rule: ls_append_cases [OF D(1,2,4) room w])
      case 1
      have "Suc (length (map le_leaf_hash es)) < 2 ^ 64" using log_rel_length [OF D(4)] room by simp
      from mt.rel_append [OF D(7) this, of "leaf_hash (e_sha E) data"] obtain m i where
        m: "(mt_append (e_sha E) (st_merkle st) (leaf_hash (e_sha E) data) :: (status, merkle_tree \<times> u64) result) = Inr (m, i)"
        and mi: "mt_inv (e_sha E) m (map le_leaf_hash (es @ [?e]))" by auto
      have st': "st' = st\<lparr>st_db := db', st_merkle := m\<rparr>" and r: "r = Inr (entry_of ?e)"
        using run np w m 1(1) by (auto simp: commit_append_def Let_def entry_of_def)
      have "core_inv E view st' (es @ [?e]) hs"
        unfolding st' by (rule core_inv_log [OF inv 1(2) mi 1(5)])
      with r st' np 1(3,5) show ?thesis by (intro ok) (simp_all add: same_keys_def)
    next
      case 2
      have "st' = st\<lparr>st_db := db'\<rparr> \<or> now < 0 \<and> st' = st\<lparr>st_db := db', st_poisoned := True\<rparr>" and "isl r"
        using run np w 2(3) by (auto simp: commit_append_def Let_def)
      with core_inv_failed_write [OF inv 2(1,4)] 2 show ?thesis
        by (intro fail) (auto simp: same_keys_def)
    qed
  qed
qed

lemma foldR_triples:
  "foldR (\<lambda>m (_, _, lh). f m lh) m0 (map (\<lambda>e. (le_seq e, le_timestamp_ns e, le_leaf_hash e)) es) =
   foldR f m0 (map le_leaf_hash es)"
proof (induction es arbitrary: m0)
  case (Cons e es)
  then show ?case by (cases "f m0 (le_leaf_hash e)") simp_all
qed simp

lemma commit_batch_cases:
  assumes inv: "core_inv E view st es hs" and room: "unat (next_seq (st_db st)) + length reqs < 2 ^ 64"
    and run: "commit_batch E now reqs st = (st', r)"
  obtains (ok) new where "new = batch_entries (e_sha E) (word_of_int now) (next_seq (st_db st)) reqs"
      and "r = Inr (map (\<lambda>e. (le_seq e, le_timestamp_ns e, le_leaf_hash e)) new)"
      and "core_inv E view st' (es @ new) hs" and "same_keys view st st'"
      and "next_seq (st_db st') = next_seq (st_db st) + of_nat (length reqs)" and "\<not> st_poisoned st'"
    | (fail) "isl r" and "core_inv E view st' es hs" and "same_keys view st st'"
      and "next_seq (st_db st') \<in> {next_seq (st_db st), next_seq (st_db st) + of_nat (length reqs)}"
      and "st_poisoned st' \<Longrightarrow> st_poisoned st \<or> now < 0"
proof -
  note D = core_invD [OF inv]
  let ?new = "batch_entries (e_sha E) (word_of_int now) (next_seq (st_db st)) reqs"
  show ?thesis
  proof (cases "st_poisoned st")
    case True
    with run inv show ?thesis by (intro fail) (auto simp: commit_batch_def same_keys_def)
  next
    case np: False
    obtain db' w where w: "ls_append_batch (e_rocks E) (e_codec E) (e_sha E) now reqs (st_db st) = (db', w)" by fastforce
    show ?thesis
    proof (cases rule: ls_append_batch_cases [OF D(1,2,4) room w])
      case 1
      have "length (map le_leaf_hash es) + length (map le_leaf_hash ?new) < 2 ^ 64"
        using log_rel_length [OF D(4)] room by simp
      from mt.append_all_rel [OF D(7) this] obtain m where
        m: "(foldR (\<lambda>s x. bindR (mt_append (e_sha E) s x) (\<lambda>(s', i). Inr s')) (st_merkle st) (map le_leaf_hash ?new)
            :: (status, merkle_tree) result) = Inr m"
        and mi: "mt_inv (e_sha E) m (map le_leaf_hash (es @ ?new))" by auto
      have res: "(foldR (\<lambda>m (_, _, lh). bindR (mt_append (e_sha E) m lh) (\<lambda>(m', _). Inr m')) (st_merkle st)
          (map (\<lambda>e. (le_seq e, le_timestamp_ns e, le_leaf_hash e)) ?new) :: (status, merkle_tree) result) = Inr m"
        using m by (simp add: foldR_triples)
      have st': "st' = st\<lparr>st_db := db', st_merkle := m\<rparr>"
        and r: "r = Inr (map (\<lambda>e. (le_seq e, le_timestamp_ns e, le_leaf_hash e)) ?new)"
        using run np w res unfolding commit_batch_def 1(1) Let_def by simp_all
      have "core_inv E view st' (es @ ?new) hs"
        unfolding st' by (rule core_inv_log [OF inv 1(2) mi 1(5)])
      with r st' np 1(3,5) show ?thesis by (intro ok) (simp_all add: same_keys_def)
    next
      case 2
      have "st' = st\<lparr>st_db := db'\<rparr> \<or> now < 0 \<and> st' = st\<lparr>st_db := db', st_poisoned := True\<rparr>" and "isl r"
        using run np w 2(3) by (auto simp: commit_batch_def Let_def)
      with core_inv_failed_write [OF inv 2(1,4)] 2 show ?thesis
        by (intro fail) (auto simp: same_keys_def)
    qed
  qed
qed

end
