(* ===== verification/Server_Serve.thy ===== *)
theory Server_Serve
  imports Server_Rpc
begin

text \<open>
  What the gRPC handlers of \<open>Server_Rpc\<close> promise their clients, from the server invariant: appending
  extends the log by exactly the accepted entries and reports their leaf indices, and the proofs the
  server returns verify in the SDK against the tree heads it serves. \<open>served r y\<close> says that a handler
  returns \<open>y\<close>, unless RocksDB reports an error.
\<close>

definition served :: "(status, 'a) result \<Rightarrow> (status, 'a) result \<Rightarrow> bool" where
  "served r y \<longleftrightarrow> r = y \<or> (\<exists>m. r = Inl (Err (CodeInternal, ''RocksDB error: '' @ m)))"

lemma served_refl [simp, intro]: "served r r"
  by (simp add: served_def)

lemma served_storage:
  assumes "yields r x"
  shows "served (from_storage r) (Inr x)" "served (blocking r) (Inr x)"
  using assms by (auto simp: served_def yields_def from_storage_def blocking_def)

lemma served_bind: "served r (Inr x) \<Longrightarrow> served (f x) y \<Longrightarrow> served (bindR r f) y"
  by (auto simp: served_def)

lemma served_bind_err: "served r (Inl e) \<Longrightarrow> served (bindR r f) (Inl e)"
  by (auto simp: served_def)

section \<open>Writers\<close>

lemma core_inv_frame [simp]:
  "core_inv E view (st\<lparr>st_limiter := b\<rparr>) es hs = core_inv E view st es hs"
  "core_inv E view (st\<lparr>st_watch := w\<rparr>) es hs = core_inv E view st es hs"
  by (simp_all add: core_inv_def)

lemma take_tokens_frame:
  assumes "take_tokens f st = (st', ok)"
  shows "\<exists>b. st' = st\<lparr>st_limiter := b\<rparr>"
  using assms by (intro exI [of _ "st_limiter st'"]) (auto simp: take_tokens_def split: option.splits prod.splits)

lemma server_inv_writer:
  assumes "server_inv E view st es hs ks" and "core_inv E view st' es' hs" and "same_keys view st st'"
  shows "server_inv E view st' es' hs ks"
  using assms by (auto simp: server_inv_core same_keys_def keys_fam_def)

lemma commit_append_watch: "commit_append E now key data st = (st', r) \<Longrightarrow> st_watch st' = st_watch st"
  by (auto simp: commit_append_def Let_def split: prod.splits sum.splits exn.splits if_splits)

lemma commit_batch_watch: "commit_batch E now reqs st = (st', r) \<Longrightarrow> st_watch st' = st_watch st"
  by (auto simp: commit_batch_def Let_def split: prod.splits sum.splits exn.splits if_splits)

lemma commit_append_config: "commit_append E now key data st = (st', r) \<Longrightarrow> st_config st' = st_config st"
  by (auto simp: commit_append_def Let_def split: prod.splits sum.splits exn.splits if_splits)

lemma rpc_append_run:
  assumes inv: "server_inv E view st es hs ks" and room: "unat (next_seq (st_db st)) + 1 < 2 ^ 64"
    and run: "rpc_append E now tick key data st = (st', r)"
  shows "st_config st' = st_config st \<and> ((\<exists>x. r = Inl x \<and> server_inv E view st' es hs ks \<and> st_watch st' = st_watch st)
    \<or> (\<exists>e. r = Inr (append_response_of (entry_of e)) \<and> server_inv E view st' (es @ [e]) hs ks
        \<and> le_key e = key \<and> le_data e = data \<and> le_leaf_hash e = leaf_hash (e_sha E) data
        \<and> st_watch st' = st_watch st @ [entry_of e]
        \<and> (dense (st_db st) es \<longrightarrow> dense (st_db st') (es @ [e]) \<and> unat (le_seq e) = length es)))"
proof -
  obtain st1 ok where t: "take_tokens (try_consume (e_rnd E) tick) st = (st1, ok)" by fastforce
  then obtain b where st1: "st1 = st\<lparr>st_limiter := b\<rparr>" using take_tokens_frame by blast
  have inv1: "server_inv E view st1 es hs ks"
    using inv by (simp add: st1 server_inv_core)
  show ?thesis
  proof (cases ok)
    case False
    with run t inv1 st1 show ?thesis by (auto simp: rpc_append_def)
  next
    case True
    obtain st2 c where c: "commit_append E now key data st1 = (st2, c)" by fastforce
    have core1: "core_inv E view st1 es hs" using inv1 by (simp add: server_inv_core)
    have w: "st_watch st2 = st_watch st" "st_config st2 = st_config st"
      using commit_append_watch [OF c] commit_append_config [OF c] st1 by simp_all
    have room1: "unat (next_seq (st_db st1)) + 1 < 2 ^ 64" using room st1 by simp
    show ?thesis
    proof (cases rule: commit_append_cases [OF core1 room1 c])
      case (1 e)
      have st': "st' = publish [entry_of e] st2" and r: "r = Inr (append_response_of (entry_of e))"
        using run t True c 1(2) by (simp_all add: rpc_append_def)
      have "server_inv E view st2 (es @ [e]) hs ks" by (rule server_inv_writer [OF inv1 1(3,4)])
      then have "server_inv E view st' (es @ [e]) hs ks" by (simp add: st' publish_def server_inv_core)
      moreover have "dense (st_db st') (es @ [e]) \<and> unat (le_seq e) = length es" if d: "dense (st_db st) es"
      proof -
        have "dense (st_db st2) (es @ [new_entry (e_sha E) (word_of_int now) (next_seq (st_db st1)) key data])"
          using dense_extend_one [of "st_db st1" es "st_db st2"] d room1 1(5) st1 by simp
        then show ?thesis using d room by (simp add: 1(1) st' publish_def st1 dense_def unat_of_nat)
      qed
      ultimately show ?thesis using r 1(1) w by (intro conjI disjI2 exI [of _ e]) (auto simp: st' publish_def)
    next
      case 2
      then obtain x where "c = Inl x" by (cases c) auto
      then have "st' = st2" and "r = Inl x" using run t True c by (simp_all add: rpc_append_def)
      moreover have "server_inv E view st2 es hs ks" by (rule server_inv_writer [OF inv1 2(2,3)])
      ultimately show ?thesis using w by auto
    qed
  qed
qed

text \<open>
  C6. Append. A refused or failed call leaves the log, the tree, the heads and the watchers as they
  were. A successful one adds exactly one entry, with the key, the data and the leaf hash of the
  data, to the end of the log and of the Merkle tree, tells the watchers about this entry, and reports
  it; in a log without gaps the reported number is the leaf index of the entry.
\<close>

theorem rpc_append_outcome:
  assumes inv: "server_inv E view st es hs ks" and room: "unat (next_seq (st_db st)) + 1 < 2 ^ 64"
    and run: "rpc_append E now tick key data st = (st', r)"
  shows "(\<exists>x. r = Inl x \<and> server_inv E view st' es hs ks \<and> st_watch st' = st_watch st)
    \<or> (\<exists>e. r = Inr (append_response_of (entry_of e)) \<and> server_inv E view st' (es @ [e]) hs ks
        \<and> le_key e = key \<and> le_data e = data \<and> le_leaf_hash e = leaf_hash (e_sha E) data
        \<and> st_watch st' = st_watch st @ [entry_of e]
        \<and> (dense (st_db st) es \<longrightarrow> dense (st_db st') (es @ [e]) \<and> unat (le_seq e) = length es))"
  using rpc_append_run [OF inv room run] by blast

lemma batch_response_entries:
  "batch_message reqs (map (\<lambda>e. (le_seq e, le_timestamp_ns e, le_leaf_hash e)) (batch_entries sha ts0 n reqs)) =
   map entry_of (batch_entries sha ts0 n reqs)"
  unfolding batch_message_def
proof (induction reqs arbitrary: n)
  case (Cons kd reqs)
  then show ?case by (cases kd) (simp add: entry_of_def new_entry_def)
qed simp

text \<open>
  C27. Batch append is all or nothing, within its limits: an empty batch changes nothing and returns no
  entries; more than 1000 entries are refused as an invalid argument with nothing changed; any other
  failure leaves the log as it was; a success adds exactly the requested entries, in order, and
  reports and broadcasts each of them once.
\<close>

theorem rpc_batch_append_outcome:
  assumes inv: "server_inv E view st es hs ks" and room: "unat (next_seq (st_db st)) + length reqs < 2 ^ 64"
    and run: "rpc_batch_append E now tick reqs st = (st', r)"
  shows "(reqs = [] \<and> st' = st \<and> r = Inr [])
    \<or> (1000 < length reqs \<and> st' = st \<and> (\<exists>msg. r = Inl (Err (CodeInvalidArgument, msg))))
    \<or> (reqs \<noteq> [] \<and> length reqs \<le> 1000 \<and>
        ((\<exists>x. r = Inl x \<and> server_inv E view st' es hs ks \<and> st_watch st' = st_watch st)
        \<or> (\<exists>new. r = Inr (map (append_response_of \<circ> entry_of) new) \<and> server_inv E view st' (es @ new) hs ks
            \<and> map (\<lambda>e. (le_key e, le_data e)) new = reqs \<and> st_watch st' = st_watch st @ map entry_of new
            \<and> (dense (st_db st) es \<longrightarrow> dense (st_db st') (es @ new)))))"
proof (cases "reqs = [] \<or> 1000 < length reqs")
  case True
  with run show ?thesis by (auto simp: rpc_batch_append_def Let_def split: if_splits)
next
  case False
  obtain st1 ok where t: "take_tokens (try_consume_n (e_rnd E) tick (of_nat (length reqs))) st = (st1, ok)" by fastforce
  then obtain b where st1: "st1 = st\<lparr>st_limiter := b\<rparr>" using take_tokens_frame by blast
  have inv1: "server_inv E view st1 es hs ks" using inv by (simp add: st1 server_inv_core)
  show ?thesis
  proof (cases ok)
    case False
    with run t inv1 st1 \<open>\<not> (reqs = [] \<or> 1000 < length reqs)\<close> show ?thesis by (auto simp: rpc_batch_append_def Let_def)
  next
    case True
    obtain st2 c where c: "commit_batch E now reqs st1 = (st2, c)" by fastforce
    have core1: "core_inv E view st1 es hs" using inv1 by (simp add: server_inv_core)
    have w: "st_watch st2 = st_watch st" using commit_batch_watch [OF c] st1 by simp
    have room1: "unat (next_seq (st_db st1)) + length reqs < 2 ^ 64" using room st1 by simp
    show ?thesis
    proof (cases rule: commit_batch_cases [OF core1 room1 c])
      case (1 new)
      have st': "st' = publish (map entry_of new) st2" and r: "r = Inr (map append_response_of (map entry_of new))"
        using run t True c False 1(2) by (simp_all add: rpc_batch_append_def Let_def 1(1) batch_response_entries del: map_map)
      have "server_inv E view st2 (es @ new) hs ks" by (rule server_inv_writer [OF inv1 1(3,4)])
      then have "server_inv E view st' (es @ new) hs ks" by (simp add: st' publish_def server_inv_core)
      moreover have "dense (st_db st') (es @ new)" if "dense (st_db st) es"
        using dense_extend [of "st_db st1" es reqs "st_db st2"] that room1 1(5) st1
        by (simp add: 1(1) st' publish_def)
      ultimately show ?thesis using r w False batch_entries_data(1) [of "e_sha E" "word_of_int now" "next_seq (st_db st1)" reqs]
        by (intro disjI2 conjI exI [of _ new]) (auto simp: st' publish_def 1(1))
    next
      case 2
      then obtain x where "c = Inl x" by (cases c) auto
      then have "st' = st2" and "r = Inl x" using run t True c False by (simp_all add: rpc_batch_append_def Let_def)
      moreover have "server_inv E view st2 es hs ks" by (rule server_inv_writer [OF inv1 2(2,3)])
      ultimately show ?thesis using w False by auto
    qed
  qed
qed

section \<open>Reading the log and the heads\<close>

lemma leaf_hashes_served:
  assumes "core_inv E view st es hs" and "dense (st_db st) es"
  shows "served (leaf_hashes_upto E n st) (Inr (map le_leaf_hash (take (unat n) es)))"
proof -
  note D = core_invD [OF assms(1)]
  have "yields (ls_seq_range (e_rocks E) (e_codec E) (st_db st) 0 n) (take (unat n) es)"
    using ls_seq_range_yields [OF D(1,2,4), of 0 n] dense_take [OF assms(2)] by simp
  then show ?thesis
    unfolding leaf_hashes_upto_def by (intro served_storage(2) yields_bind [where x = "take (unat n) es"]) simp_all
qed

text \<open>A gap above the size asked for does not matter.\<close>

lemma dense_below: "dense db es \<Longrightarrow> gapfree (take k es)"
  by (simp add: dense_def gapfree_def take_map [symmetric] min_def)

lemma below_nth:
  assumes "gapfree (take k es)" and "i < k" and "i < length es"
  shows "unat (le_seq (es ! i)) = i"
proof -
  have "map (\<lambda>e. unat (le_seq e)) (take k es) ! i = [0..<length (take k es)] ! i" using assms(1) by (simp add: gapfree_def)
  with assms(2,3) show ?thesis by simp
qed

lemma below_take:
  assumes sorted: "sorted_wrt (\<lambda>a b. le_seq a < le_seq b) es" and gapfree: "gapfree (take (unat n) es)" and len: "unat n \<le> length es"
  shows "filter (\<lambda>e. 0 \<le> le_seq e \<and> le_seq e < n) es = take (unat n) es"
proof -
  note seq = below_nth [OF gapfree]
  have "filter (\<lambda>e. le_seq e < n) (take (unat n) es) = take (unat n) es"
    using seq len by (auto simp: filter_id_conv in_set_conv_nth word_less_nat_alt)
  moreover have "filter (\<lambda>e. le_seq e < n) (drop (unat n) es) = []"
  proof -
    have "n \<le> le_seq (es ! j)" if j: "unat n \<le> j" "j < length es" for j
    proof (cases "unat n")
      case (Suc k)
      have "le_seq (es ! k) < le_seq (es ! j)" using sorted_wrt_nth_less [OF sorted, of k j] j Suc by simp
      with seq [of k] j Suc show ?thesis by (simp add: word_less_nat_alt word_le_nat_alt)
    qed (simp add: unat_eq_zero)
    then show ?thesis by (auto simp: filter_empty_conv in_set_conv_nth not_less)
  qed
  ultimately show ?thesis by (metis (mono_tags, lifting) append.right_neutral append_take_drop_id filter_append filter_cong word_zero_le)
qed

lemma leaf_hashes_below:
  assumes "core_inv E view st es hs" and "gapfree (take (unat n) es)" and "unat n \<le> length es"
  shows "served (leaf_hashes_upto E n st) (Inr (map le_leaf_hash (take (unat n) es)))"
proof -
  note D = core_invD [OF assms(1)]
  have "yields (ls_seq_range (e_rocks E) (e_codec E) (st_db st) 0 n) (take (unat n) es)"
    using ls_seq_range_yields [OF D(1,2,4), of 0 n] below_take [OF log_rel_sorted [OF D(4)] assms(2,3)] by simp
  then show ?thesis
    unfolding leaf_hashes_upto_def by (intro served_storage(2) yields_bind [where x = "take (unat n) es"]) simp_all
qed

lemma latest_head_served:
  assumes "core_inv E view st es hs"
  shows "served (latest_head E st) (if hs = [] then Inl (Err (status_from (NotFound ''no STH available yet''))) else Inr (last hs))"
  unfolding latest_head_def
  by (rule served_bind [OF served_storage(1) [OF hs_latest_yields [OF core_invD(1,2,5) [OF assms]]]])
    (simp add: ok_or_def)

lemma head_at_served:
  assumes "core_inv E view st es hs"
  shows "served (head_at E what n st) (case find (\<lambda>s. sth_tree_size s = n) hs of
     None \<Rightarrow> Inl (Err (status_from (NotFound (''no STH at '' @ what @ '' '' @ show_u64 n)))) | Some s \<Rightarrow> Inr s)"
  unfolding head_at_def
  by (rule served_bind [OF served_storage(1) [OF hs_at_size_yields [OF core_invD(1,2,5) [OF assms]]]])
    (simp add: ok_or_def split: option.splits)

lemma find_head:
  assumes "core_inv E view st es hs" and "s \<in> set hs"
  shows "find (\<lambda>x. sth_tree_size x = sth_tree_size s) hs = Some s"
  using heads_sorted [OF core_invD(5) [OF assms(1)]] assms(2) by (induction hs) auto

lemma served_size:
  assumes core: "core_inv E view st es hs" and s: "s \<in> set hs" and size: "req = sth_tree_size s \<or> req = 0 \<and> s = last hs"
  shows "served (if req = 0 then bindR (latest_head E st) (\<lambda>s. Inr (sth_tree_size s)) else Inr req) (Inr (sth_tree_size s))"
proof (cases "req = 0")
  case True
  have "0 < sth_tree_size s" using core_invD(6) [OF core s] by (simp add: root_ok_def)
  with True have "s = last hs" "hs \<noteq> []" using size s by auto
  then have "served (latest_head E st) (Inr s)" using latest_head_served [OF core] by simp
  with True show ?thesis by (auto intro: served_bind)
qed (use size in simp)

section \<open>Served proofs verify in the SDK\<close>

definition chain_of :: "key_record list \<Rightarrow> sdk_key_record list" where
  "chain_of ks = map (\<lambda>k. \<lparr>sdk_version = kr_version k, sdk_public_key = kr_public_key k,
     sdk_activated_at_tree_size = kr_activated_at_tree_size k\<rparr>) ks"

text \<open>What a client can check of a served tree head: its signature, with the key it names and with the key chain.\<close>

definition head_checks :: "'d env \<Rightarrow> key_record list \<Rightarrow> hash \<Rightarrow> signed_tree_head_proto \<Rightarrow> bool" where
  "head_checks E ks rh p \<longleftrightarrow> try_into (sp_root_hash p) = Some rh
     \<and> sdk_verify_tree_head (e_ed E) (sp_tree_size p) rh (sp_timestamp_ns p) (sp_signature p) (sp_public_key p)
     \<and> sdk_verify_tree_head_with_chain (e_ed E) (sp_tree_size p) rh (sp_timestamp_ns p) (sp_signature p)
         (sp_key_version p) (chain_of ks)"

lemma find_chain:
  assumes "sorted_wrt (\<lambda>a b. kr_version a < kr_version b) ks" and "k \<in> set ks"
  shows "find (\<lambda>r. sdk_version r = kr_version k) (chain_of ks) =
    Some \<lparr>sdk_version = kr_version k, sdk_public_key = kr_public_key k, sdk_activated_at_tree_size = kr_activated_at_tree_size k\<rparr>"
  using assms by (induction ks) (auto simp: chain_of_def)

lemma served_head_checks:
  assumes inv: "server_inv E view st es hs ks" and s: "s \<in> set hs"
  shows "head_checks E ks (sth_root_hash s) (sth_to_proto s)"
proof -
  note D = server_invD [OF inv]
  obtain k where k: "k \<in> set ks" "kr_version k = sth_key_version s" "kr_public_key k = sth_public_key s"
    and v: "verify_sth (e_ed E) s"
    using D(7) [OF s] by (auto simp: head_ok_def in_chain_def root_ok_def)
  have "ed_key_ok (e_ed E) (sth_public_key s)" and "verify_tree_head (e_ed E) (sth_public_key s) (sth_tree_size s)
      (sth_root_hash s) (sth_timestamp_ns s) (sth_signature s)"
    using v ed_lawsD(5) [OF D(3)] by (simp_all add: verify_sth_def verify_tree_head_def ed_lawsD(4) [OF D(3)] split: if_splits)
  then show ?thesis
    using find_chain [OF keys_sorted [OF D(6)] k(1)] k(2,3)
    by (simp add: head_checks_def sth_to_proto_def sdk_verify_tree_head_with_chain_def)
qed

lemma stored_leaf:
  assumes core: "core_inv E view st es hs" and "i < length es"
  shows "le_leaf_hash (es ! i) = leaf_hash (e_sha E) (le_data (es ! i))"
  using core_invD(4) [OF core] assms(2) by (simp add: log_rel_def log_fam_def)

lemma get_below:
  assumes core: "core_inv E view st es hs" and "gapfree (take k es)" and "unat seq < k" and i: "unat seq < length es"
  shows "yields (ls_get_by_seq (e_rocks E) (e_codec E) (st_db st) seq) (Some (es ! unat seq))"
proof -
  note D = core_invD [OF core]
  have "le_seq (es ! unat seq) = seq" using below_nth [OF assms(2,3,4)] by (simp add: word_unat_eq_iff)
  then have "find (\<lambda>e. le_seq e = seq) es = Some (es ! unat seq)"
    using find_sorted_seq [OF log_rel_sorted [OF D(4)], of "es ! unat seq"] i by simp
  then show ?thesis using ls_get_by_seq_yields [OF D(1,2,4), of seq] by simp
qed

lemma dense_get:
  assumes core: "core_inv E view st es hs" and dense: "dense (st_db st) es" and i: "unat seq < length es"
  shows "yields (ls_get_by_seq (e_rocks E) (e_codec E) (st_db st) seq) (Some (es ! unat seq))"
  by (rule get_below [OF core dense_below [OF dense] i i])

lemma inclusion_served:
  assumes core: "core_inv E view st es hs" and gapfree: "gapfree (take (unat (sth_tree_size s)) es)" and s: "s \<in> set hs"
    and size: "req = sth_tree_size s \<or> req = 0 \<and> s = last hs" and seq: "seq < sth_tree_size s"
  obtains p where "served (rpc_inclusion_proof E seq req st)
      (Inr \<lparr>ip_leaf_index = seq, ip_tree_size = sth_tree_size s, ip_proof = map to_vec p, ip_sth = sth_to_proto s\<rparr>)"
    and "unat seq < length es"
    and "sdk_verify_inclusion (e_sha E) (leaf_hash (e_sha E) (le_data (es ! unat seq))) seq (sth_tree_size s) p (sth_root_hash s)"
proof -
  note D = core_invD [OF core]
  let ?n = "unat (sth_tree_size s)"
  let ?xs = "map le_leaf_hash (take ?n es)"
  have n: "0 < sth_tree_size s" "?n \<le> length es" and root: "sth_root_hash s = MTH (node_hash (e_sha E)) ?xs"
    using D(6) [OF s] by (simp_all add: root_ok_def)
  have i: "unat seq < ?n" using seq by (simp add: word_less_nat_alt)
  have len: "length ?xs = ?n" "length ?xs < 2 ^ 64" using n unat_lt2p [of "sth_tree_size s"] by simp_all
  let ?p = "PATH (node_hash (e_sha E)) ?xs (unat seq)"
  have gen: "inclusion_proof (e_sha E) ?xs seq = Inr ?p" using i len by (intro inclusion_proof_PATH) simp_all
  have req: "served (if req = 0 then bindR (latest_head E st) (\<lambda>s. Inr (sth_tree_size s)) else Inr req) (Inr (sth_tree_size s))"
    by (rule served_size [OF core s size])
  have at: "served (head_at E ''tree_size'' (sth_tree_size s) st) (Inr s)"
    using head_at_served [OF core, of "''tree_size''" "sth_tree_size s"] find_head [OF core s] by simp
  have served: "served (rpc_inclusion_proof E seq req st)
      (Inr \<lparr>ip_leaf_index = seq, ip_tree_size = sth_tree_size s, ip_proof = map to_vec ?p, ip_sth = sth_to_proto s\<rparr>)"
    unfolding rpc_inclusion_proof_def using seq
    by (intro served_bind [OF req]) (auto simp: not_le gen intro!: served_bind [OF leaf_hashes_below [OF core gapfree n(2)]] served_bind [OF at])
  have leaf: "leaf_hash (e_sha E) (le_data (es ! unat seq)) = ?xs ! unat seq"
    using stored_leaf [OF core, of "unat seq"] i n by simp
  have "verify_inclusion (e_sha E) (?xs ! unat seq) (of_nat (unat seq)) (of_nat (length ?xs)) ?p (MTH (node_hash (e_sha E)) ?xs)"
    by (rule core_incl.incl_complete) (use i len in simp_all)
  then have "sdk_verify_inclusion (e_sha E) (leaf_hash (e_sha E) (le_data (es ! unat seq))) seq (sth_tree_size s) ?p (sth_root_hash s)"
    by (simp only: len(1) root leaf sdk_verify_inclusion_eq of_nat_unat ucast_id)
  with served show ?thesis using i n by (intro that) simp_all
qed

text \<open>
  C7. End to end, inclusion: when the numbers below the size of a stored head have no gap, asking for a proof
  that the entry number \<open>seq\<close> is in the tree of that head (by its size, or by size 0 for the latest head)
  returns, unless RocksDB reports an error, the leaf index, the size, that head and a proof. The SDK
  accepts the proof for the leaf hash of the data stored under \<open>seq\<close>, and it accepts the head.
\<close>

theorem rpc_inclusion_verifies:
  assumes inv: "server_inv E view st es hs ks" and s: "s \<in> set hs" and gapfree: "gapfree (take (unat (sth_tree_size s)) es)"
    and size: "req = sth_tree_size s \<or> req = 0 \<and> s = last hs" and seq: "seq < sth_tree_size s"
  shows "\<exists>proof. served (rpc_inclusion_proof E seq req st)
      (Inr \<lparr>ip_leaf_index = seq, ip_tree_size = sth_tree_size s, ip_proof = map to_vec proof, ip_sth = sth_to_proto s\<rparr>)
    \<and> yields (ls_get_by_seq (e_rocks E) (e_codec E) (st_db st) seq) (Some (es ! unat seq))
    \<and> sdk_verify_inclusion (e_sha E) (leaf_hash (e_sha E) (le_data (es ! unat seq))) seq (sth_tree_size s) proof (sth_root_hash s)
    \<and> head_checks E ks (sth_root_hash s) (sth_to_proto s)"
proof -
  have core: "core_inv E view st es hs" using inv by (simp add: server_inv_core)
  have i: "unat seq < unat (sth_tree_size s)" using seq by (simp add: word_less_nat_alt)
  show ?thesis
    by (rule inclusion_served [OF core gapfree s size seq])
      (use get_below [OF core gapfree i] served_head_checks [OF inv s] in blast)
qed

lemma consistency_served:
  assumes core: "core_inv E view st es hs" and gapfree: "gapfree (take (unat (sth_tree_size s_new)) es)"
    and so: "s_old \<in> set hs" and sn: "s_new \<in> set hs" and le: "sth_tree_size s_old \<le> sth_tree_size s_new"
    and size: "req = sth_tree_size s_new \<or> req = 0 \<and> s_new = last hs"
  obtains p where "served (rpc_consistency_proof E (sth_tree_size s_old) req st)
      (Inr \<lparr>cp_old_size = sth_tree_size s_old, cp_new_size = sth_tree_size s_new, cp_proof = map to_vec p,
            cp_old_sth = sth_to_proto s_old, cp_new_sth = sth_to_proto s_new\<rparr>)"
    and "verify_consistency (e_sha E) (sth_tree_size s_old) (sth_tree_size s_new) p (sth_root_hash s_old) (sth_root_hash s_new)"
    and "unat (sth_tree_size s_new) \<le> 2 ^ 63 \<Longrightarrow> sdk_verify_consistency (e_sha E) (sth_tree_size s_old) (sth_tree_size s_new)
         p (sth_root_hash s_old) (sth_root_hash s_new) = Some True"
proof -
  note D = core_invD [OF core]
  let ?m = "unat (sth_tree_size s_old)" and ?n = "unat (sth_tree_size s_new)"
  let ?nd = "node_hash (e_sha E)" and ?xs = "map le_leaf_hash (take (unat (sth_tree_size s_new)) es)"
  have m: "0 < sth_tree_size s_old" and n: "?n \<le> length es" "0 < sth_tree_size s_new"
    and rn: "sth_root_hash s_new = MTH ?nd ?xs"
    and ro0: "sth_root_hash s_old = MTH ?nd (map le_leaf_hash (take ?m es))"
    using D(6) [OF so] D(6) [OF sn] by (simp_all add: root_ok_def)
  have nz: "sth_tree_size s_old \<noteq> 0" using m by (simp add: word_gt_0)
  have mn: "?m \<le> ?n" using le by (simp add: word_le_nat_alt)
  have ro: "sth_root_hash s_old = MTH ?nd (take ?m ?xs)" using ro0 mn by (simp add: take_map min_def)
  have len: "length ?xs = ?n" "length ?xs < 2 ^ 64" using n unat_lt2p [of "sth_tree_size s_new"] by simp_all
  let ?p = "SUBPROOF ?nd ?xs ?m True"
  have gen: "consistency_proof (e_sha E) ?xs (sth_tree_size s_old) = Inr ?p"
    using m mn len by (intro consistency_proof_SUBPROOF) simp_all
  have req: "served (if req = 0 then bindR (latest_head E st) (\<lambda>s. Inr (sth_tree_size s)) else Inr req) (Inr (sth_tree_size s_new))"
    by (rule served_size [OF core sn size])
  have at: "served (head_at E what (sth_tree_size s) st) (Inr s)" if "s \<in> set hs" for what s
    using head_at_served [OF core, of what "sth_tree_size s"] find_head [OF core that] by simp
  have "served (rpc_consistency_proof E (sth_tree_size s_old) req st)
      (Inr \<lparr>cp_old_size = sth_tree_size s_old, cp_new_size = sth_tree_size s_new, cp_proof = map to_vec ?p,
            cp_old_sth = sth_to_proto s_old, cp_new_sth = sth_to_proto s_new\<rparr>)"
    unfolding rpc_consistency_proof_def if_not_P [OF nz] using le
    by (intro served_bind [OF req])
      (auto simp: not_less gen intro!: served_bind [OF leaf_hashes_below [OF core gapfree n(1)]] served_bind [OF at [OF so]] served_bind [OF at [OF sn]])
  moreover have ver: "verify_consistency (e_sha E) (of_nat ?m) (of_nat (length ?xs)) ?p (MTH ?nd (take ?m ?xs)) (MTH ?nd ?xs)"
    by (rule core_cons.cons_complete) (use m mn len in \<open>simp_all add: word_gt_0 unat_gt_0\<close>)
  then have ver': "verify_consistency (e_sha E) (sth_tree_size s_old) (sth_tree_size s_new) ?p (sth_root_hash s_old) (sth_root_hash s_new)"
    by (simp only: len(1) ro rn of_nat_unat ucast_id)
  moreover have "sdk_verify_consistency (e_sha E) (sth_tree_size s_old) (sth_tree_size s_new) ?p
      (sth_root_hash s_old) (sth_root_hash s_new) = Some True" if "?n \<le> 2 ^ 63"
    using ver' by (simp add: sdk_verify_consistency_core [OF that])
  ultimately show ?thesis using that by blast
qed

text \<open>
  C8. End to end, consistency: when the numbers below the size of the newer head have no gap, asking for a
  proof between two stored heads (the newer one by its size, or by size 0 for the latest) returns, unless
  RocksDB reports an error, both heads and a proof that the verifier of \<^verbatim>\<open>settled-core\<close> accepts, and so does the SDK's for new sizes up
  to \<open>2 ^ 63\<close>; the SDK accepts both heads.
\<close>

theorem rpc_consistency_verifies:
  assumes inv: "server_inv E view st es hs ks" and gapfree: "gapfree (take (unat (sth_tree_size s_new)) es)"
    and so: "s_old \<in> set hs" and sn: "s_new \<in> set hs" and le: "sth_tree_size s_old \<le> sth_tree_size s_new"
    and size: "req = sth_tree_size s_new \<or> req = 0 \<and> s_new = last hs"
  shows "\<exists>proof. served (rpc_consistency_proof E (sth_tree_size s_old) req st)
      (Inr \<lparr>cp_old_size = sth_tree_size s_old, cp_new_size = sth_tree_size s_new, cp_proof = map to_vec proof,
            cp_old_sth = sth_to_proto s_old, cp_new_sth = sth_to_proto s_new\<rparr>)
    \<and> verify_consistency (e_sha E) (sth_tree_size s_old) (sth_tree_size s_new) proof (sth_root_hash s_old) (sth_root_hash s_new)
    \<and> (unat (sth_tree_size s_new) \<le> 2 ^ 63 \<longrightarrow> sdk_verify_consistency (e_sha E) (sth_tree_size s_old) (sth_tree_size s_new)
         proof (sth_root_hash s_old) (sth_root_hash s_new) = Some True)
    \<and> head_checks E ks (sth_root_hash s_old) (sth_to_proto s_old)
    \<and> head_checks E ks (sth_root_hash s_new) (sth_to_proto s_new)"
proof -
  have core: "core_inv E view st es hs" using inv by (simp add: server_inv_core)
  show ?thesis
    by (rule consistency_served [OF core gapfree so sn le size])
      (use served_head_checks [OF inv so] served_head_checks [OF inv sn] in blast)
qed

lemma inclusion_proof_run:
  assumes "seq < n"
  shows "rpc_inclusion_proof E seq n st =
      bindR (leaf_hashes_upto E n st) (\<lambda>leaf_hashes.
        bindR (map_err (\<lambda>e. status_from (Proof e)) (inclusion_proof (e_sha E) leaf_hashes seq)) (\<lambda>path.
        bindR (head_at E ''tree_size'' n st) (\<lambda>sth.
          Inr \<lparr>ip_leaf_index = seq, ip_tree_size = n, ip_proof = map to_vec path, ip_sth = sth_to_proto sth\<rparr>)))"
proof -
  have "n \<noteq> 0" and "\<not> n \<le> seq" using assms by auto
  then show ?thesis unfolding rpc_inclusion_proof_def by simp
qed

lemma inclusion_no_head:
  assumes inv: "core_inv E view st es hs" and dense: "dense (st_db st) es"
    and i: "seq < n" "unat seq < length es" and no: "n \<notin> sth_tree_size ` set hs"
  shows "served (rpc_inclusion_proof E seq n st) (Inl (Err (CodeNotFound, ''no STH at tree_size '' @ show_u64 n)))"
proof -
  let ?xs = "map le_leaf_hash (take (unat n) es)"
  have "length ?xs < 2 ^ 64" using dense by (simp add: dense_def min_less_iff_disj)
  moreover have "unat seq < length ?xs" using i by (simp add: word_less_nat_alt)
  ultimately have gen: "inclusion_proof (e_sha E) ?xs seq = Inr (PATH (node_hash (e_sha E)) ?xs (unat seq))"
    by (intro inclusion_proof_PATH)
  have "find (\<lambda>s. sth_tree_size s = n) hs = None" using no by (auto simp: find_None_iff)
  then have "served (head_at E ''tree_size'' n st) (Inl (Err (CodeNotFound, ''no STH at tree_size '' @ show_u64 n)))"
    using head_at_served [OF inv, of "''tree_size''" n] by simp
  then show ?thesis unfolding inclusion_proof_run [OF i(1)]
    by (intro served_bind [OF leaf_hashes_served [OF inv dense]]) (simp add: gen served_bind_err)
qed

lemma inclusion_beyond_log:
  assumes inv: "core_inv E view st es hs" and dense: "dense (st_db st) es" and i: "seq < n" "length es \<le> unat seq"
  shows "served (rpc_inclusion_proof E seq n st)
    (Inl (Err (CodeInternal, proof_error_string (LeafIndexOutOfRange seq (of_nat (length es))))))"
proof -
  have "map le_leaf_hash (take (unat n) es) = map le_leaf_hash es" using i by (simp add: word_less_nat_alt)
  then have "inclusion_proof (e_sha E) (map le_leaf_hash (take (unat n) es)) seq = Inl (Err (LeafIndexOutOfRange seq (of_nat (length es))))"
    using i(2) by (simp add: inclusion_proof_def)
  then show ?thesis by (simp add: inclusion_proof_run [OF i(1)] served_bind [OF leaf_hashes_served [OF inv dense]])
qed

text \<open>The same for consistency proofs: the handler after its checks of the sizes.\<close>

lemma consistency_proof_run:
  assumes "0 < m" and "m \<le> n"
  shows "rpc_consistency_proof E m n st =
      bindR (leaf_hashes_upto E n st) (\<lambda>leaf_hashes.
        bindR (map_err (\<lambda>e. status_from (Proof e)) (consistency_proof (e_sha E) leaf_hashes m)) (\<lambda>path.
        bindR (head_at E ''old_size'' m st) (\<lambda>old_sth.
        bindR (head_at E ''new_size'' n st) (\<lambda>new_sth.
          Inr \<lparr>cp_old_size = m, cp_new_size = n, cp_proof = map to_vec path,
               cp_old_sth = sth_to_proto old_sth, cp_new_sth = sth_to_proto new_sth\<rparr>))))"
proof -
  have "m \<noteq> 0" and "n \<noteq> 0" and "\<not> n < m" using assms by auto
  then show ?thesis unfolding rpc_consistency_proof_def by simp
qed

lemma consistency_no_head:
  assumes inv: "core_inv E view st es hs" and dense: "dense (st_db st) es"
    and m: "0 < m" "m \<le> n" "unat m \<le> length es" and no: "m \<notin> sth_tree_size ` set hs \<or> n \<notin> sth_tree_size ` set hs"
  shows "served (rpc_consistency_proof E m n st) (Inl (Err (CodeNotFound,
    if m \<notin> sth_tree_size ` set hs then ''no STH at old_size '' @ show_u64 m else ''no STH at new_size '' @ show_u64 n)))"
proof -
  let ?xs = "map le_leaf_hash (take (unat n) es)"
  have "length ?xs < 2 ^ 64" using dense by (simp add: dense_def min_less_iff_disj)
  moreover have "0 < unat m" "unat m \<le> length ?xs" using m by (simp_all add: word_le_nat_alt word_less_nat_alt)
  ultimately have gen: "consistency_proof (e_sha E) ?xs m = Inr (SUBPROOF (node_hash (e_sha E)) ?xs (unat m) True)"
    using m(1) by (intro consistency_proof_SUBPROOF)
  have missing: "served (head_at E what k st) (Inl (Err (CodeNotFound, ''no STH at '' @ what @ '' '' @ show_u64 k)))"
    if "k \<notin> sth_tree_size ` set hs" for what k
  proof -
    have "find (\<lambda>s. sth_tree_size s = k) hs = None" using that by (auto simp: find_None_iff)
    then show ?thesis using head_at_served [OF inv, of what k] by simp
  qed
  have "served (bindR (head_at E ''old_size'' m st) (\<lambda>old_sth. bindR (head_at E ''new_size'' n st) (f old_sth)))
      (Inl (Err (CodeNotFound, if m \<notin> sth_tree_size ` set hs then ''no STH at old_size '' @ show_u64 m else ''no STH at new_size '' @ show_u64 n)))"
    for f :: "signed_tree_head \<Rightarrow> signed_tree_head \<Rightarrow> (status, consistency_response) result"
  proof (cases "m \<in> sth_tree_size ` set hs")
    case True
    then obtain s where s: "s \<in> set hs" "sth_tree_size s = m" by auto
    have old: "served (head_at E ''old_size'' m st) (Inr s)"
      using head_at_served [OF inv, of "''old_size''" m] find_head [OF inv s(1)] s(2) by simp
    have "n \<notin> sth_tree_size ` set hs" using True no by blast
    from missing [OF this, of "''new_size''"] have "served (bindR (head_at E ''new_size'' n st) (f s))
        (Inl (Err (CodeNotFound, ''no STH at new_size '' @ show_u64 n)))" by (intro served_bind_err) simp
    with True show ?thesis by (intro served_bind [OF old]) simp
  next
    case False
    with served_bind_err [OF missing [OF False, of "''old_size''"]] show ?thesis by simp
  qed
  then show ?thesis unfolding consistency_proof_run [OF m(1,2)]
    by (intro served_bind [OF leaf_hashes_served [OF inv dense]]) (simp add: gen)
qed

lemma consistency_beyond_log:
  assumes inv: "core_inv E view st es hs" and dense: "dense (st_db st) es" and m: "0 < m" "m \<le> n" "length es < unat m"
  shows "served (rpc_consistency_proof E m n st)
    (Inl (Err (CodeInternal, proof_error_string (InvalidSizes m (of_nat (length es))))))"
proof -
  have "map le_leaf_hash (take (unat n) es) = map le_leaf_hash es" using m by (simp add: word_le_nat_alt)
  then have "consistency_proof (e_sha E) (map le_leaf_hash (take (unat n) es)) m = Inl (Err (InvalidSizes m (of_nat (length es))))"
    using m(3) by (simp add: consistency_proof_def)
  then show ?thesis by (simp add: consistency_proof_run [OF m(1,2)] served_bind [OF leaf_hashes_served [OF inv dense]])
qed

text \<open>Size 0 stands for the latest head; the sizes are checked against it.\<close>

lemma latest_size_errors:
  assumes inv: "core_inv E view st es hs"
  shows "hs = [] \<Longrightarrow> served (rpc_inclusion_proof E seq 0 st) (Inl (Err (CodeNotFound, ''no STH available yet'')))"
    and "hs = [] \<Longrightarrow> 0 < m \<Longrightarrow> served (rpc_consistency_proof E m 0 st) (Inl (Err (CodeNotFound, ''no STH available yet'')))"
    and "hs \<noteq> [] \<Longrightarrow> sth_tree_size (last hs) \<le> seq \<Longrightarrow> served (rpc_inclusion_proof E seq 0 st)
      (Inl (Err (CodeInvalidArgument, ''seq '' @ show_u64 seq @ '' is out of range for tree_size '' @ show_u64 (sth_tree_size (last hs)))))"
    and "hs \<noteq> [] \<Longrightarrow> sth_tree_size (last hs) < m \<Longrightarrow> served (rpc_consistency_proof E m 0 st)
      (Inl (Err (CodeInvalidArgument, ''old_size '' @ show_u64 m @ '' > new_size '' @ show_u64 (sth_tree_size (last hs)))))"
proof -
  note latest = latest_head_served [OF inv]
  show "served (rpc_inclusion_proof E seq 0 st) (Inl (Err (CodeNotFound, ''no STH available yet'')))" if "hs = []"
    using latest that by (auto simp: rpc_inclusion_proof_def intro!: served_bind_err)
  show "served (rpc_consistency_proof E m 0 st) (Inl (Err (CodeNotFound, ''no STH available yet'')))" if "hs = []" "0 < m"
    using latest that by (auto simp: rpc_consistency_proof_def word_gt_0 intro!: served_bind_err)
  have size: "served (bindR (latest_head E st) (\<lambda>s. Inr (sth_tree_size s))) (Inr (sth_tree_size (last hs)))" if "hs \<noteq> []"
    using latest that by (auto intro!: served_bind [where x = "last hs"])
  show "served (rpc_inclusion_proof E seq 0 st)
      (Inl (Err (CodeInvalidArgument, ''seq '' @ show_u64 seq @ '' is out of range for tree_size '' @ show_u64 (sth_tree_size (last hs)))))"
    if "hs \<noteq> []" "sth_tree_size (last hs) \<le> seq"
    unfolding rpc_inclusion_proof_def if_P [OF refl] using that(2) by (intro served_bind [OF size [OF that(1)]]) simp
  show "served (rpc_consistency_proof E m 0 st)
      (Inl (Err (CodeInvalidArgument, ''old_size '' @ show_u64 m @ '' > new_size '' @ show_u64 (sth_tree_size (last hs)))))"
    if "hs \<noteq> []" "sth_tree_size (last hs) < m"
  proof -
    have "m \<noteq> 0" using that(2) by auto
    then show ?thesis
      unfolding rpc_consistency_proof_def if_not_P [OF \<open>m \<noteq> 0\<close>] if_P [OF refl] using that(2)
      by (intro served_bind [OF size [OF that(1)]]) simp
  qed
qed

text \<open>
  C35. The error branches of both proof handlers, on a log without gaps, with their status and message; each
  holds unless RocksDB reports an error first. A zero old size, a sequence number outside the requested
  tree and an old size above the new one are invalid arguments (also when size 0 stands for the latest
  head); before the first head, "latest" is not found; a size with no stored head is not found, for a
  consistency proof the old size first; a number or an old size beyond the log is an internal error.
\<close>

theorem rpc_proof_errors:
  assumes inv: "core_inv E view st es hs" and dense: "dense (st_db st) es"
  shows "rpc_consistency_proof E 0 req st = Inl (Err (CodeInvalidArgument, ''old_size must be > 0''))
    \<and> (0 < n \<and> n \<le> seq \<longrightarrow> rpc_inclusion_proof E seq n st =
         Inl (Err (CodeInvalidArgument, ''seq '' @ show_u64 seq @ '' is out of range for tree_size '' @ show_u64 n)))
    \<and> (0 < n \<and> n < m \<longrightarrow> rpc_consistency_proof E m n st =
         Inl (Err (CodeInvalidArgument, ''old_size '' @ show_u64 m @ '' > new_size '' @ show_u64 n)))
    \<and> (hs \<noteq> [] \<and> sth_tree_size (last hs) \<le> seq \<longrightarrow> served (rpc_inclusion_proof E seq 0 st)
         (Inl (Err (CodeInvalidArgument, ''seq '' @ show_u64 seq @ '' is out of range for tree_size '' @ show_u64 (sth_tree_size (last hs))))))
    \<and> (hs \<noteq> [] \<and> sth_tree_size (last hs) < m \<longrightarrow> served (rpc_consistency_proof E m 0 st)
         (Inl (Err (CodeInvalidArgument, ''old_size '' @ show_u64 m @ '' > new_size '' @ show_u64 (sth_tree_size (last hs))))))
    \<and> (hs = [] \<longrightarrow> served (rpc_inclusion_proof E seq 0 st) (Inl (Err (CodeNotFound, ''no STH available yet''))))
    \<and> (hs = [] \<and> 0 < m \<longrightarrow> served (rpc_consistency_proof E m 0 st) (Inl (Err (CodeNotFound, ''no STH available yet''))))
    \<and> (seq < n \<and> unat seq < length es \<and> n \<notin> sth_tree_size ` set hs \<longrightarrow>
         served (rpc_inclusion_proof E seq n st) (Inl (Err (CodeNotFound, ''no STH at tree_size '' @ show_u64 n))))
    \<and> (0 < m \<and> m \<le> n \<and> unat m \<le> length es \<and> m \<notin> sth_tree_size ` set hs \<longrightarrow>
         served (rpc_consistency_proof E m n st) (Inl (Err (CodeNotFound, ''no STH at old_size '' @ show_u64 m))))
    \<and> (m \<le> n \<and> m \<in> sth_tree_size ` set hs \<and> n \<notin> sth_tree_size ` set hs \<longrightarrow>
         served (rpc_consistency_proof E m n st) (Inl (Err (CodeNotFound, ''no STH at new_size '' @ show_u64 n))))
    \<and> (seq < n \<and> length es \<le> unat seq \<longrightarrow> served (rpc_inclusion_proof E seq n st)
         (Inl (Err (CodeInternal, proof_error_string (LeafIndexOutOfRange seq (of_nat (length es)))))))
    \<and> (m \<le> n \<and> length es < unat m \<longrightarrow> served (rpc_consistency_proof E m n st)
         (Inl (Err (CodeInternal, proof_error_string (InvalidSizes m (of_nat (length es)))))))"
proof (intro conjI impI; (elim conjE)?)
  show "rpc_consistency_proof E 0 req st = Inl (Err (CodeInvalidArgument, ''old_size must be > 0''))"
    by (simp add: rpc_consistency_proof_def)
  show "rpc_inclusion_proof E seq n st =
      Inl (Err (CodeInvalidArgument, ''seq '' @ show_u64 seq @ '' is out of range for tree_size '' @ show_u64 n))"
    if "0 < n" "n \<le> seq" using that by (simp add: rpc_inclusion_proof_def word_gt_0)
  show "rpc_consistency_proof E m n st = Inl (Err (CodeInvalidArgument, ''old_size '' @ show_u64 m @ '' > new_size '' @ show_u64 n))"
    if "0 < n" "n < m"
  proof -
    have "m \<noteq> 0" using that by auto
    with that show ?thesis by (simp add: rpc_consistency_proof_def word_gt_0)
  qed
  show "served (rpc_consistency_proof E m n st) (Inl (Err (CodeNotFound, ''no STH at old_size '' @ show_u64 m)))"
    if "0 < m" "m \<le> n" "unat m \<le> length es" "m \<notin> sth_tree_size ` set hs"
    using consistency_no_head [OF inv dense that(1-3)] that(4) by simp
  show "served (rpc_consistency_proof E m n st) (Inl (Err (CodeNotFound, ''no STH at new_size '' @ show_u64 n)))"
    if "m \<le> n" "m \<in> sth_tree_size ` set hs" "n \<notin> sth_tree_size ` set hs"
  proof -
    have "0 < m" "unat m \<le> length es" using that(2) core_invD(6) [OF inv] by (auto simp: root_ok_def)
    then show ?thesis using consistency_no_head [OF inv dense _ that(1)] that(2,3) by simp
  qed
  show "served (rpc_consistency_proof E m n st) (Inl (Err (CodeInternal, proof_error_string (InvalidSizes m (of_nat (length es))))))"
    if "m \<le> n" "length es < unat m"
    using consistency_beyond_log [OF inv dense _ that(1,2)] that(2) by (auto simp: word_less_nat_alt)
qed (use latest_size_errors [OF inv] inclusion_no_head [OF inv dense] inclusion_beyond_log [OF inv dense] in auto)

section \<open>The theorems at concrete states\<close>

lemma sample_run:
  "rpc_append mem_env 5 0 [1] [2] sample_state =
    (sample_state1\<lparr>st_watch := [entry_of (new_entry toy_sha 5 0 [1] [2])]\<rparr>,
     Inr (append_response_of (entry_of (new_entry toy_sha 5 0 [1] [2]))))"
proof -
  have "(mt_append toy_sha mt_new (leaf_hash toy_sha [2]) :: (status, merkle_tree \<times> u64) result) =
      Inr (\<lparr>frontier = [leaf_hash toy_sha [2]], mt_size = 1\<rparr>, 0)"
    by (simp add: mt_append_def mt_new_def append_loop.simps Let_def)
  then show ?thesis
    by (simp add: rpc_append_def take_tokens_def commit_append_def publish_def sample_eval entry_of_def new_entry_def)
qed

theorem rpc_append_outcome_witness:
  "\<exists>e. append_response_of (entry_of (new_entry toy_sha 5 0 [1] [2])) = append_response_of (entry_of e)
    \<and> server_inv mem_env (\<lambda>d. d) (sample_state1\<lparr>st_watch := [entry_of (new_entry toy_sha 5 0 [1] [2])]\<rparr>) [e] [] [sample_key]
    \<and> le_data e = [2] \<and> unat (le_seq e) = 0"
proof -
  have room: "unat (next_seq (st_db sample_state)) + 1 < 2 ^ 64" by (simp add: sample_state_def)
  from rpc_append_outcome [OF sample_state_inv(1) room sample_run] sample_state_inv(2) show ?thesis by auto
qed

theorem rpc_batch_append_outcome_witness:
  "(\<exists>x. snd (rpc_batch_append mem_env 6 0 [([3], [4]), ([1], [5])] sample_state1) = Inl x
      \<and> server_inv mem_env (\<lambda>d. d) (fst (rpc_batch_append mem_env 6 0 [([3], [4]), ([1], [5])] sample_state1))
          [new_entry toy_sha 5 0 [1] [2]] [] [sample_key])
    \<or> (\<exists>new. snd (rpc_batch_append mem_env 6 0 [([3], [4]), ([1], [5])] sample_state1) = Inr (map (append_response_of \<circ> entry_of) new)
      \<and> server_inv mem_env (\<lambda>d. d) (fst (rpc_batch_append mem_env 6 0 [([3], [4]), ([1], [5])] sample_state1))
          ([new_entry toy_sha 5 0 [1] [2]] @ new) [] [sample_key]
      \<and> map (\<lambda>e. (le_key e, le_data e)) new = [([3], [4]), ([1], [5])])"
proof -
  have room: "unat (next_seq (st_db sample_state1)) + length [([3 :: u8], [4 :: u8]), ([1], [5])] < 2 ^ 64"
    using sample_state1_inv(2) by (simp add: dense_def)
  from rpc_batch_append_outcome [OF sample_state1_inv(1) room prod.collapse [symmetric], of 6 0] show ?thesis by auto
qed

definition sample_head :: signed_tree_head where
  "sample_head = new_sth mem_env 9 (st_signer sample_state1) [new_entry toy_sha 5 0 [1] [2]]"

lemma sign_new_inv:
  assumes inv: "server_inv E view st es hs ks" and dense: "dense (st_db st) es" and run: "sign_and_store E now st = (st', Inr ())"
    and due: "es \<noteq> []" "\<forall>s \<in> set hs. sth_tree_size s \<noteq> of_nat (length es)"
  shows "server_inv E view st' es (hs @ [new_sth E now (st_signer st) es]) ks" "dense (st_db st') es"
proof -
  have core: "core_inv E view st es hs" and keys: "keys_fam (e_codec E) (view (db_rocks (st_db st))) ks"
    and chain: "\<forall>s \<in> set hs. in_chain E ks s" and sg: "signer_ok E (st_signer st) ks"
    using inv by (auto simp: server_inv_core)
  have "server_inv E view st' es (hs @ [new_sth E now (st_signer st) es]) ks \<and> dense (st_db st') es"
  proof (cases rule: sign_and_store_cases [OF core run])
    case (1 db')
    then show ?thesis
      using keys chain sg new_sth_in_chain [OF core_invD(3) [OF core] sg] dense
      by (auto simp: server_inv_core keys_fam_def dense_def)
  next
    case (2 db')
    from 2(5) [OF refl] due show ?thesis by blast
  qed
  then show "server_inv E view st' es (hs @ [new_sth E now (st_signer st) es]) ks" "dense (st_db st') es" by blast+
qed

lemma signed_state_inv:
  "server_inv mem_env (\<lambda>d. d) signed_state [new_entry toy_sha 5 0 [1] [2]] [sample_head] [sample_key]"
  "dense (st_db signed_state) [new_entry toy_sha 5 0 [1] [2]]"
  using sign_new_inv [OF sample_state1_inv signed_state_run] by (simp_all add: sample_head_def)

lemma sample_head_size: "sth_tree_size sample_head = 1"
  by (simp add: sample_head_def new_sth_def Let_def)

text \<open>A second entry and a second head on the sample server.\<close>

definition second_entry :: log_entry where
  "second_entry = new_entry toy_sha 10 1 [3] [4]"

definition two_state1 :: "families app_state" where
  "two_state1 = fst (commit_append mem_env 10 [3] [4] signed_state)"

definition two_state :: "families app_state" where
  "two_state = fst (sign_and_store mem_env 11 two_state1)"

definition second_head :: signed_tree_head where
  "second_head = new_sth mem_env 11 (st_signer two_state1) [new_entry toy_sha 5 0 [1] [2], second_entry]"

lemmas two_eval = commit_append_def signed_state_def mt_append_def append_loop.simps sample_eval

lemma two_state1_run: "commit_append mem_env 10 [3] [4] signed_state = (two_state1, Inr (entry_of second_entry))"
  unfolding two_state1_def
  by (intro prod_eqI) (simp_all add: two_eval entry_of_def second_entry_def new_entry_def)

lemma two_state1_inv:
  "server_inv mem_env (\<lambda>d. d) two_state1 [new_entry toy_sha 5 0 [1] [2], second_entry] [sample_head] [sample_key]"
  "dense (st_db two_state1) [new_entry toy_sha 5 0 [1] [2], second_entry]"
proof -
  have n: "next_seq (st_db signed_state) = 1" using signed_state_inv(2) by (simp add: dense_def)
  then have room: "unat (next_seq (st_db signed_state)) + 1 < 2 ^ 64" by simp
  have core: "core_inv mem_env (\<lambda>d. d) signed_state [new_entry toy_sha 5 0 [1] [2]] [sample_head]"
    using signed_state_inv(1) by (simp add: server_inv_core)
  have e: "new_entry (e_sha mem_env) (word_of_int 10) (next_seq (st_db signed_state)) [3] [4] = second_entry"
    by (simp add: n second_entry_def mem_env_def)
  have "server_inv mem_env (\<lambda>d. d) two_state1 ([new_entry toy_sha 5 0 [1] [2]] @ [second_entry]) [sample_head] [sample_key]
    \<and> dense (st_db two_state1) ([new_entry toy_sha 5 0 [1] [2]] @ [second_entry])"
  proof (cases rule: commit_append_cases [OF core room two_state1_run])
    case (1 e')
    with e have "e' = second_entry" by simp
    with 1 e server_inv_writer [OF signed_state_inv(1) 1(3,4)]
      dense_extend_one [OF signed_state_inv(2) room 1(5), of "e_sha mem_env" "word_of_int 10" "[3]" "[4]"]
    show ?thesis by simp
  qed simp
  then show "server_inv mem_env (\<lambda>d. d) two_state1 [new_entry toy_sha 5 0 [1] [2], second_entry] [sample_head] [sample_key]"
    "dense (st_db two_state1) [new_entry toy_sha 5 0 [1] [2], second_entry]" by simp_all
qed

lemma mem_latest: "yields (hs_latest mem_rocks C db) x \<Longrightarrow> hs_latest mem_rocks C db = Inr x"
proof -
  have "hs_latest mem_rocks C db \<noteq> Inl (Err (RocksDb m))" for m
    by (auto simp: hs_latest_def mem_rocks_def decode_sth_def from_lib_def sth_try_from_def corrupt_def bindR_def
        split: option.splits sum.splits list.splits)
  then show "yields (hs_latest mem_rocks C db) x \<Longrightarrow> hs_latest mem_rocks C db = Inr x" by (auto simp: yields_def)
qed

lemma two_state_run: "sign_and_store mem_env 11 two_state1 = (two_state, Inr ())"
proof -
  note D = server_invD [OF two_state1_inv(1)]
  have size: "mt_size (st_merkle two_state1) = 2" "mt_root (e_sha mem_env) (st_merkle two_state1) \<noteq> None"
    using mt.rel_size [OF D(8)] mt.rel_root [OF D(8)] by simp_all
  have "hs_latest (e_rocks mem_env) (e_codec mem_env) (st_db two_state1) = Inr (Some sample_head)"
    using hs_latest_yields [where view = "\<lambda>d. d", OF D(1,2,5)] mem_latest by (simp add: mem_env_def)
  then have due: "sth_due mem_env 2 two_state1 = Inr True" by (simp add: sth_due_def lift_app_def sample_head_size)
  have "\<not> st_poisoned two_state1" by (simp add: two_state1_def two_eval)
  with due size show ?thesis unfolding two_state_def
    by (intro prod_eqI) (auto simp: sign_and_store_def sign_snapshot_def sign_and_write_def timestamp_of_def hs_write_def lift_app_def
        mem_env_def mem_rocks_def mem_codec_def Let_def)
qed

lemma two_state_inv:
  "server_inv mem_env (\<lambda>d. d) two_state [new_entry toy_sha 5 0 [1] [2], second_entry] [sample_head, second_head] [sample_key]"
  "dense (st_db two_state) [new_entry toy_sha 5 0 [1] [2], second_entry]"
  using sign_new_inv [OF two_state1_inv two_state_run] by (simp_all add: second_head_def sample_head_size)

lemma second_head_size: "sth_tree_size second_head = 2"
  by (simp add: second_head_def new_sth_def Let_def)

theorem rpc_inclusion_verifies_witness:
  "\<exists>proof. served (rpc_inclusion_proof mem_env 1 0 two_state)
      (Inr \<lparr>ip_leaf_index = 1, ip_tree_size = sth_tree_size second_head, ip_proof = map to_vec proof, ip_sth = sth_to_proto second_head\<rparr>)
    \<and> yields (ls_get_by_seq (e_rocks mem_env) (e_codec mem_env) (st_db two_state) 1)
        (Some ([new_entry toy_sha 5 0 [1] [2], second_entry] ! unat (1 :: u64)))
    \<and> sdk_verify_inclusion (e_sha mem_env)
        (leaf_hash (e_sha mem_env) (le_data ([new_entry toy_sha 5 0 [1] [2], second_entry] ! unat (1 :: u64)))) 1
        (sth_tree_size second_head) proof (sth_root_hash second_head)
    \<and> head_checks mem_env [sample_key] (sth_root_hash second_head) (sth_to_proto second_head)"
  by (rule rpc_inclusion_verifies [OF two_state_inv(1) _ dense_below [OF two_state_inv(2)]]) (simp_all add: second_head_size)

theorem rpc_consistency_verifies_witness:
  "\<exists>proof. served (rpc_consistency_proof mem_env (sth_tree_size sample_head) 0 two_state)
      (Inr \<lparr>cp_old_size = sth_tree_size sample_head, cp_new_size = sth_tree_size second_head, cp_proof = map to_vec proof,
            cp_old_sth = sth_to_proto sample_head, cp_new_sth = sth_to_proto second_head\<rparr>)
    \<and> verify_consistency (e_sha mem_env) 1 2 proof (sth_root_hash sample_head) (sth_root_hash second_head)
    \<and> sdk_verify_consistency (e_sha mem_env) 1 2 proof (sth_root_hash sample_head) (sth_root_hash second_head) = Some True"
  using rpc_consistency_verifies [OF two_state_inv(1) dense_below [OF two_state_inv(2)], of sample_head second_head 0] by (auto simp: sample_head_size second_head_size)

theorem rpc_proof_errors_witness:
  "rpc_consistency_proof mem_env 0 7 signed_state = Inl (Err (CodeInvalidArgument, ''old_size must be > 0''))
    \<and> served (rpc_inclusion_proof mem_env 0 3 signed_state) (Inl (Err (CodeNotFound, ''no STH at tree_size '' @ show_u64 3)))
    \<and> served (rpc_consistency_proof mem_env 1 3 signed_state) (Inl (Err (CodeNotFound, ''no STH at new_size '' @ show_u64 3)))
    \<and> served (rpc_consistency_proof mem_env 2 3 signed_state) (Inl (Err (CodeInternal, proof_error_string (InvalidSizes 2 1))))"
proof -
  have core: "core_inv mem_env (\<lambda>d. d) signed_state [new_entry toy_sha 5 0 [1] [2]] [sample_head]"
    using signed_state_inv(1) by (simp add: server_inv_core)
  from rpc_proof_errors [OF core signed_state_inv(2), of 7 3 0 1] rpc_proof_errors [OF core signed_state_inv(2), of 7 3 0 2]
  show ?thesis by (simp add: sample_head_size)
qed

end
