(* ===== verification/Server_Machine.thy ===== *)
theory Server_Machine
  imports Server_Serve "HOL-Library.Multiset"
begin

text \<open>
  The server as a transition system. Handlers run concurrently and hold \<^verbatim>\<open>append_mu\<close> only for the parts
  modelled as one step here: committing an append, taking a snapshot for a signing cycle, reading the tree
  size for a rotation. What a handler or signing cycle still has to do after releasing the lock is a job:
  broadcasting committed entries to the watchers; checking whether the snapshot needs a head, reading the
  signer three times (to sign, for the public key, for the version) and storing the head; reading the
  version for a rotation, writing the key file, swapping the signer and storing the key record. Any job can
  move at any time, so several signing cycles (the timer task and forced ones), rotations and requests
  interleave freely, and every state of the machine is one in which the process can be killed. A step that
  would take the sequence counter to \<open>2 ^ 64\<close> is excluded.
\<close>

text \<open>
  \<open>Due n r sgs\<close>: a cycle that has read the signers \<open>sgs\<close> so far. The jobs of a rotation carry the tree size read
  under the lock, then the new version, then the new key: \<open>KeyFile\<close> while \<^verbatim>\<open>std::fs::write\<close> is under way,
  \<open>KeyWritten\<close> when it has returned, \<open>Swapped\<close> when the signer has been replaced.
\<close>

datatype job =
    Broadcast "entry list"
  | Snapped u64 "hash option"
  | Due u64 "hash option" "signer list"
  | Rotating u64
  | RotateTo u64 u32
  | KeyFile u64 u32 signing_key
  | KeyWritten u64 u32 signing_key
  | Swapped u64 u32 signing_key

record 'd machine =
  mc_st :: "'d app_state"
  mc_jobs :: "job list"

definition has_room :: "nat \<Rightarrow> 'd app_state \<Rightarrow> bool" where
  "has_room k st \<longleftrightarrow> unat (next_seq (st_db st)) + k < 2 ^ 64"

inductive mstep :: "'d env \<Rightarrow> 'd machine \<Rightarrow> 'd machine \<Rightarrow> bool" for E :: "'d env" where
  refused: "take_tokens consume st = (st', False) \<Longrightarrow>
    mstep E \<lparr>mc_st = st, mc_jobs = js\<rparr> \<lparr>mc_st = st', mc_jobs = js\<rparr>"
| append: "take_tokens (try_consume (e_rnd E) tick) st = (st1, True) \<Longrightarrow> has_room 1 st \<Longrightarrow>
    commit_append E now key data st1 = (st2, Inr en) \<Longrightarrow>
    mstep E \<lparr>mc_st = st, mc_jobs = js\<rparr> \<lparr>mc_st = st2, mc_jobs = Broadcast [en] # js\<rparr>"
| append_failed: "take_tokens (try_consume (e_rnd E) tick) st = (st1, True) \<Longrightarrow> has_room 1 st \<Longrightarrow>
    commit_append E now key data st1 = (st2, Inl x) \<Longrightarrow>
    mstep E \<lparr>mc_st = st, mc_jobs = js\<rparr> \<lparr>mc_st = st2, mc_jobs = js\<rparr>"
| batch: "take_tokens (try_consume_n (e_rnd E) tick (of_nat (length reqs))) st = (st1, True) \<Longrightarrow>
    has_room (length reqs) st \<Longrightarrow> commit_batch E now reqs st1 = (st2, Inr results) \<Longrightarrow>
    mstep E \<lparr>mc_st = st, mc_jobs = js\<rparr> \<lparr>mc_st = st2, mc_jobs = Broadcast (batch_message reqs results) # js\<rparr>"
| batch_failed: "take_tokens (try_consume_n (e_rnd E) tick (of_nat (length reqs))) st = (st1, True) \<Longrightarrow>
    has_room (length reqs) st \<Longrightarrow> commit_batch E now reqs st1 = (st2, Inl x) \<Longrightarrow>
    mstep E \<lparr>mc_st = st, mc_jobs = js\<rparr> \<lparr>mc_st = st2, mc_jobs = js\<rparr>"
| broadcast: "mstep E \<lparr>mc_st = st, mc_jobs = js @ Broadcast (en # ens) # js'\<rparr>
    \<lparr>mc_st = publish [en] st, mc_jobs = js @ Broadcast ens # js'\<rparr>"
| snapshot: "\<not> st_poisoned st \<Longrightarrow> mstep E \<lparr>mc_st = st, mc_jobs = js\<rparr>
    \<lparr>mc_st = st, mc_jobs = Snapped (mt_size (st_merkle st)) (mt_root (e_sha E) (st_merkle st)) # js\<rparr>"
| check: "sth_due E n st = Inr True \<Longrightarrow> mstep E \<lparr>mc_st = st, mc_jobs = js @ Snapped n r # js'\<rparr>
    \<lparr>mc_st = st, mc_jobs = js @ Due n r [] # js'\<rparr>"
| check_end: "sth_due E n st \<noteq> Inr True \<Longrightarrow> mstep E \<lparr>mc_st = st, mc_jobs = js @ Snapped n r # js'\<rparr>
    \<lparr>mc_st = st, mc_jobs = js @ js'\<rparr>"
| read_signer: "length sgs < 3 \<Longrightarrow> mstep E \<lparr>mc_st = st, mc_jobs = js @ Due n r sgs # js'\<rparr>
    \<lparr>mc_st = st, mc_jobs = js @ Due n r (sgs @ [st_signer st]) # js'\<rparr>"
| store: "sign_and_write E now n r sg_sign sg_pk sg_ver st = (st', x) \<Longrightarrow>
    mstep E \<lparr>mc_st = st, mc_jobs = js @ Due n r [sg_sign, sg_pk, sg_ver] # js'\<rparr> \<lparr>mc_st = st', mc_jobs = js @ js'\<rparr>"
| rotate: "\<not> st_poisoned st \<Longrightarrow> mstep E \<lparr>mc_st = st, mc_jobs = js\<rparr>
    \<lparr>mc_st = st, mc_jobs = Rotating (mt_size (st_merkle st)) # js\<rparr>"
| rotate_version: "mstep E \<lparr>mc_st = st, mc_jobs = js @ Rotating a # js'\<rparr>
    \<lparr>mc_st = st, mc_jobs = js @ RotateTo a (sg_version (st_signer st) + 1) # js'\<rparr>"
| key_writing: "mstep E \<lparr>mc_st = st, mc_jobs = js @ RotateTo a v # js'\<rparr>
    \<lparr>mc_st = st\<lparr>st_key_file := left\<rparr>, mc_jobs = js @ KeyFile a v fresh # js'\<rparr>"
| key_written: "mstep E \<lparr>mc_st = st, mc_jobs = js @ KeyFile a v key # js'\<rparr>
    \<lparr>mc_st = st\<lparr>st_key_file := Some (to_vec key)\<rparr>, mc_jobs = js @ KeyWritten a v key # js'\<rparr>"
| key_failed: "mstep E \<lparr>mc_st = st, mc_jobs = js @ KeyFile a v key # js'\<rparr> \<lparr>mc_st = st, mc_jobs = js @ js'\<rparr>"
| swap: "mstep E \<lparr>mc_st = st, mc_jobs = js @ KeyWritten a v key # js'\<rparr>
    \<lparr>mc_st = st\<lparr>st_signer := \<lparr>sg_key = key, sg_version = v\<rparr>\<rparr>, mc_jobs = js @ Swapped a v key # js'\<rparr>"
| put_record: "ks_put (e_rocks E) (e_codec E) \<lparr>kr_version = v, kr_public_key = ed_public (e_ed E) key,
      kr_activated_at_tree_size = a\<rparr> (st_db st) = (db', x) \<Longrightarrow>
    mstep E \<lparr>mc_st = st, mc_jobs = js @ Swapped a v key # js'\<rparr> \<lparr>mc_st = st\<lparr>st_db := db'\<rparr>, mc_jobs = js @ js'\<rparr>"

section \<open>The invariant\<close>

fun job_ok :: "'d env \<Rightarrow> log_entry list \<Rightarrow> job \<Rightarrow> bool" where
  "job_ok E es (Broadcast ens) \<longleftrightarrow> True"
| "job_ok E es (Snapped n r) \<longleftrightarrow> unat n \<le> length es \<and>
     r = (if n = 0 then None else Some (MTH (node_hash (e_sha E)) (map le_leaf_hash (take (unat n) es))))"
| "job_ok E es (Due n r sgs) \<longleftrightarrow> 0 < n \<and> unat n \<le> length es \<and>
     r = Some (MTH (node_hash (e_sha E)) (map le_leaf_hash (take (unat n) es)))"
| "job_ok E es _ \<longleftrightarrow> True"

fun unsent :: "job \<Rightarrow> entry multiset" where
  "unsent (Broadcast ens) = mset ens"
| "unsent _ = {#}"

definition announced :: "'d machine \<Rightarrow> entry multiset" where
  "announced m = mset (st_watch (mc_st m)) + sum_list (map unsent (mc_jobs m))"

text \<open>
  \<open>machine_inv E view base n m (es, hs)\<close>: the state stands for the log \<open>es\<close> and the heads \<open>hs\<close>, every job
  in flight holds a root of a prefix of the log, and the entries broadcast or about to be broadcast are
  \<open>base\<close> and each entry of the log from the \<open>n\<close>-th on, once.
\<close>

fun machine_inv ::
  "'d env \<Rightarrow> ('d \<Rightarrow> families) \<Rightarrow> entry multiset \<Rightarrow> nat \<Rightarrow> 'd machine \<Rightarrow> log_entry list \<times> signed_tree_head list \<Rightarrow> bool" where
  "machine_inv E view base n m (es, hs) \<longleftrightarrow> core_inv E view (mc_st m) es hs \<and> (\<forall>j \<in> set (mc_jobs m). job_ok E es j)
     \<and> n \<le> length es \<and> announced m = base + mset (map entry_of (drop n es))"

text \<open>How log and heads may change: entries are only added, and a size that has a head keeps one with the same root.\<close>

definition heads_kept :: "signed_tree_head list \<Rightarrow> signed_tree_head list \<Rightarrow> bool" where
  "heads_kept hs hs' \<longleftrightarrow> (\<forall>s \<in> set hs. \<exists>s' \<in> set hs'. sth_tree_size s' = sth_tree_size s \<and> sth_root_hash s' = sth_root_hash s)"

fun evolves :: "log_entry list \<times> signed_tree_head list \<Rightarrow> log_entry list \<times> signed_tree_head list \<Rightarrow> bool" where
  "evolves (es, hs) (es', hs') \<longleftrightarrow> (\<exists>added. es' = es @ added) \<and> heads_kept hs hs'"

lemma heads_kept_refl [simp]: "heads_kept hs hs"
  by (auto simp: heads_kept_def)

lemma heads_kept_trans: "heads_kept a b \<Longrightarrow> heads_kept b c \<Longrightarrow> heads_kept a c"
  unfolding heads_kept_def by metis

text \<open>What one step can do to log and heads: add entries at the end, or store a head for a prefix.\<close>

inductive advances ::
  "'d env \<Rightarrow> log_entry list \<times> signed_tree_head list \<Rightarrow> log_entry list \<times> signed_tree_head list \<Rightarrow> bool" for E :: "'d env" where
  grow: "advances E (es, hs) (es @ added, hs)"
| sign: "root_ok E es s \<Longrightarrow> advances E (es, hs) (es, upd_by sth_tree_size s hs)"

lemma advances_refl [simp]: "advances E a a"
  using advances.grow [of E "fst a" "snd a" "[]"] by simp

lemma job_ok_mono: "job_ok E es j \<Longrightarrow> job_ok E (es @ added) j"
  by (cases j) auto

lemma announced_simps [simp]:
  "announced \<lparr>mc_st = st, mc_jobs = js @ j # js'\<rparr> = unsent j + announced \<lparr>mc_st = st, mc_jobs = js @ js'\<rparr>"
  "announced \<lparr>mc_st = st, mc_jobs = j # js\<rparr> = unsent j + announced \<lparr>mc_st = st, mc_jobs = js\<rparr>"
  by (simp_all add: announced_def)

lemma announced_watch: "st_watch st' = st_watch st \<Longrightarrow> announced \<lparr>mc_st = st', mc_jobs = js\<rparr> = announced \<lparr>mc_st = st, mc_jobs = js\<rparr>"
  by (simp add: announced_def)

lemma announced_publish: "announced \<lparr>mc_st = publish ens st, mc_jobs = js\<rparr> = mset ens + announced \<lparr>mc_st = st, mc_jobs = js\<rparr>"
  by (simp add: announced_def publish_def)

lemma distinct_submset:
  assumes "mset xs \<subseteq># mset ys" and "distinct ys"
  shows "distinct xs"
proof -
  have "count (mset xs) a = (if a \<in> set xs then 1 else 0)" for a
  proof -
    have "count (mset ys) a = (if a \<in> set ys then 1 else 0)"
      using assms(2) unfolding distinct_count_atmost_1 by blast
    with mset_subset_eq_count [OF assms(1), of a] have "count (mset xs) a \<le> 1" by (metis dual_order.trans le_numeral_extra(4) zero_le_one)
    moreover have "count (mset xs) a = 0 \<longleftrightarrow> a \<notin> set xs" by (simp add: count_eq_zero_iff)
    ultimately show ?thesis by (auto simp: le_Suc_eq)
  qed
  then show ?thesis by (simp add: distinct_count_atmost_1)
qed

section \<open>Every step keeps the invariant\<close>

lemma ks_put_frame:
  assumes laws: "rocks_laws R view" and run: "ks_put R C k db = (db', r)"
  shows "next_seq db' = next_seq db" and "c \<noteq> CfKeys \<Longrightarrow> view (db_rocks db') c = view (db_rocks db) c"
proof -
  have "next_seq db' = next_seq db \<and> (c \<noteq> CfKeys \<longrightarrow> view (db_rocks db') c = view (db_rocks db) c)"
  proof (cases "from_lib Encode (enc_key C (key_to_proto k))")
    case (Inl e)
    with run show ?thesis by (simp add: ks_put_def)
  next
    case (Inr buf)
    let ?ops = "[PutCf CfKeys (u32_key (kr_version k)) buf]"
    obtain d' w where w: "rdb_write R (db_rocks db) ?ops = (d', w)" by fastforce
    have "view d' = view (db_rocks db) \<or> view d' = fold apply_op ?ops (view (db_rocks db))"
      using rocks_writeD [OF laws] w by (cases w) auto
    with run Inr w show ?thesis by (auto simp: ks_put_def)
  qed
  then show "next_seq db' = next_seq db" and "c \<noteq> CfKeys \<Longrightarrow> view (db_rocks db') c = view (db_rocks db) c" by blast+
qed

lemma core_inv_put:
  assumes "core_inv E view st es hs" and "ks_put (e_rocks E) (e_codec E) k (st_db st) = (db', x)"
  shows "core_inv E view (st\<lparr>st_db := db'\<rparr>) es hs"
  using assms(1) ks_put_frame [OF core_invD(1) [OF assms(1)] assms(2)]
  by (simp add: core_inv_def log_rel_def log_fam_def heads_fam_def)

lemma core_inv_key_frame [simp]:
  "core_inv E view (st\<lparr>st_key_file := f\<rparr>) es hs = core_inv E view st es hs"
  "core_inv E view (st\<lparr>st_signer := sg\<rparr>) es hs = core_inv E view st es hs"
  by (simp_all add: core_inv_def)

lemma rotate_key_core:
  assumes inv: "core_inv E view st es hs" and run: "rotate_key E fresh wr st = (st', x)"
  shows "core_inv E view st' es hs"
proof (cases "st_poisoned st \<or> wr \<noteq> None")
  case True
  then have "st' = st \<or> (\<exists>f. st' = st\<lparr>st_key_file := f\<rparr>)"
    using run by (cases "st_poisoned st") (auto simp: rotate_key_def signer_rotate_def)
  with inv show ?thesis by auto
next
  case False
  then have np: "\<not> st_poisoned st" and wr: "wr = None" by blast+
  let ?v = "sg_version (st_signer st) + 1"
  let ?st1 = "st\<lparr>st_key_file := Some (to_vec fresh), st_signer := \<lparr>sg_key = fresh, sg_version = ?v\<rparr>\<rparr>"
  obtain db' w where w: "ks_put (e_rocks E) (e_codec E) \<lparr>kr_version = ?v, kr_public_key = ed_public (e_ed E) fresh,
      kr_activated_at_tree_size = mt_size (st_merkle st)\<rparr> (st_db ?st1) = (db', w)" by fastforce
  then have st': "st' = ?st1\<lparr>st_db := db'\<rparr>"
    using run np by (simp add: wr rotate_key_def signer_rotate_def Let_def)
  show ?thesis unfolding st' by (rule core_inv_put [OF _ w]) (simp add: inv)
qed

lemma sth_due_nonzero: "sth_due E n st = Inr True \<Longrightarrow> n \<noteq> 0"
  by (auto simp: sth_due_def)

lemma heads_kept_upd:
  assumes "core_inv E view st es hs" and "root_ok E es s"
  shows "heads_kept hs (upd_by sth_tree_size s hs)"
  unfolding heads_kept_def
proof
  fix x assume x: "x \<in> set hs"
  show "\<exists>s' \<in> set (upd_by sth_tree_size s hs). sth_tree_size s' = sth_tree_size x \<and> sth_root_hash s' = sth_root_hash x"
  proof (cases "sth_tree_size x = sth_tree_size s")
    case True
    then have "sth_root_hash s = sth_root_hash x"
      using core_invD(6) [OF assms(1) x] assms(2) by (simp add: root_ok_def)
    with True show ?thesis by (intro bexI [of _ s]) (simp_all add: set_upd_by)
  qed (use x in \<open>auto simp: set_upd_by\<close>)
qed

lemma sign_and_write_core:
  assumes inv: "core_inv E view st es hs" and job: "job_ok E es (Due n r sgs)"
    and run: "sign_and_write E now n r sg_sign sg_pk sg_ver st = (st', x)"
  shows "\<exists>hs'. core_inv E view st' es hs' \<and> advances E (es, hs) (es, hs') \<and> st_watch st' = st_watch st"
proof (cases "now < 0")
  case True
  with run job have "st' = st" by (auto simp: sign_and_write_def unwrap_def timestamp_of_def)
  with inv show ?thesis by auto
next
  case False
  note D = core_invD [OF inv]
  let ?root = "MTH (node_hash (e_sha E)) (map le_leaf_hash (take (unat n) es))"
  let ?s = "\<lparr>sth_tree_size = n, sth_root_hash = ?root, sth_timestamp_ns = word_of_int now,
    sth_signature = signer_sign E sg_sign (signing_payload n ?root (word_of_int now)),
    sth_public_key = signer_public_key E sg_pk, sth_key_version = sg_version sg_ver\<rparr>"
  obtain db' w where w: "hs_write (e_rocks E) (e_codec E) ?s (st_db st) = (db', w)" by fastforce
  have st': "st' = st\<lparr>st_db := db'\<rparr>"
    using run job w False by (auto simp: sign_and_write_def unwrap_def timestamp_of_def Let_def)
  have ok: "root_ok E es ?s" using job by (simp add: root_ok_def)
  show ?thesis
  proof (cases rule: hs_write_cases [OF D(1,2,5) w])
    case 1
    from core_inv_heads [OF inv ok 1(2,3,4)] advances.sign [OF ok] show ?thesis unfolding st' by auto
  next
    case (2 m)
    from core_inv_same_view [OF inv 2(2,3)] show ?thesis unfolding st' by auto
  qed
qed

text \<open>A head that was stored with success is read back.\<close>

lemma sign_and_write_readable:
  assumes inv: "core_inv E view st es hs" and now: "0 \<le> now"
    and run: "sign_and_write E now n (Some rh) sg_sign sg_pk sg_ver st = (st', Inr ())"
  shows "yields (hs_at_size (e_rocks E) (e_codec E) (st_db st') n)
    (Some \<lparr>sth_tree_size = n, sth_root_hash = rh, sth_timestamp_ns = word_of_int now,
      sth_signature = signer_sign E sg_sign (signing_payload n rh (word_of_int now)),
      sth_public_key = signer_public_key E sg_pk, sth_key_version = sg_version sg_ver\<rparr>)" (is "yields _ (Some ?s)")
proof -
  note D = core_invD [OF inv]
  obtain db' w where w: "hs_write (e_rocks E) (e_codec E) ?s (st_db st) = (db', w)" by fastforce
  have st': "st_db st' = db'" and r: "Inr () = lift_app w"
    using run now w by (auto simp: sign_and_write_def timestamp_of_def Let_def)
  show ?thesis
  proof (cases rule: hs_write_cases [OF D(1,2,5) w])
    case 1
    with hs_at_size_yields [OF D(1,2) 1(2), of n] st' show ?thesis by (simp add: find_upd_by)
  next
    case (2 m)
    with r show ?thesis by (simp add: lift_app_def)
  qed
qed

lemma snapshot_ok:
  assumes inv: "core_inv E view st es hs"
  shows "job_ok E es (Snapped (mt_size (st_merkle st)) (mt_root (e_sha E) (st_merkle st)))"
proof -
  note D = core_invD [OF inv]
  have len: "length es < 2 ^ 64" using D(7) by (simp add: mt_inv_def)
  have sz: "mt_size (st_merkle st) = of_nat (length es)" using mt.rel_size [OF D(7)] by simp
  then have n: "unat (mt_size (st_merkle st)) = length es" using len by (simp add: unat_of_nat)
  then have "mt_size (st_merkle st) = 0 \<longleftrightarrow> es = []" by (metis length_0_conv unat_eq_zero)
  with n mt.rel_root [OF D(7)] show ?thesis by simp
qed

lemma commit_append_machine:
  assumes inv: "core_inv E view st es hs" and t: "take_tokens f st = (st1, ok)" and room: "has_room 1 st"
    and run: "commit_append E now key data st1 = (st2, r)"
  shows "\<exists>added. core_inv E view st2 (es @ added) hs \<and> st_watch st2 = st_watch st
    \<and> (case r of Inl _ \<Rightarrow> added = [] | Inr en \<Rightarrow> map entry_of added = [en])"
proof -
  obtain b where st1: "st1 = st\<lparr>st_limiter := b\<rparr>" using take_tokens_frame [OF t] by blast
  have inv1: "core_inv E view st1 es hs" using inv by (simp add: st1)
  have room1: "unat (next_seq (st_db st1)) + 1 < 2 ^ 64" using room by (simp add: st1 has_room_def)
  have w: "st_watch st2 = st_watch st" using commit_append_watch [OF run] st1 by simp
  show ?thesis
  proof (cases rule: commit_append_cases [OF inv1 room1 run])
    case (1 e)
    with w show ?thesis by (intro exI [of _ "[e]"]) simp
  next
    case 2
    with w show ?thesis by (intro exI [of _ "[]"]) (auto simp: isl_def)
  qed
qed

lemma commit_batch_machine:
  assumes inv: "core_inv E view st es hs" and t: "take_tokens f st = (st1, ok)" and room: "has_room (length reqs) st"
    and run: "commit_batch E now reqs st1 = (st2, r)"
  shows "\<exists>added. core_inv E view st2 (es @ added) hs \<and> st_watch st2 = st_watch st
    \<and> (case r of Inl _ \<Rightarrow> added = [] | Inr res \<Rightarrow> map entry_of added = batch_message reqs res)"
proof -
  obtain b where st1: "st1 = st\<lparr>st_limiter := b\<rparr>" using take_tokens_frame [OF t] by blast
  have inv1: "core_inv E view st1 es hs" using inv by (simp add: st1)
  have room1: "unat (next_seq (st_db st1)) + length reqs < 2 ^ 64" using room by (simp add: st1 has_room_def)
  have w: "st_watch st2 = st_watch st" using commit_batch_watch [OF run] st1 by simp
  show ?thesis
  proof (cases rule: commit_batch_cases [OF inv1 room1 run])
    case (1 new)
    with w show ?thesis by (intro exI [of _ new]) (simp add: batch_response_entries)
  next
    case 2
    with w show ?thesis by (intro exI [of _ "[]"]) (auto simp: isl_def)
  qed
qed

lemma machine_grow:
  assumes "machine_inv E view base n \<lparr>mc_st = st, mc_jobs = js\<rparr> (es, hs)"
    and "core_inv E view st' (es @ added) hs'" and "advances E (es, hs) (es @ added, hs')"
    and "announced \<lparr>mc_st = st', mc_jobs = js'\<rparr> = announced \<lparr>mc_st = st, mc_jobs = js\<rparr> + mset (map entry_of added)"
    and "\<And>j. j \<in> set js' \<Longrightarrow> job_ok E (es @ added) j"
  shows "\<exists>a'. machine_inv E view base n \<lparr>mc_st = st', mc_jobs = js'\<rparr> a' \<and> advances E (es, hs) a'"
  using assms by (intro exI [of _ "(es @ added, hs')"]) auto

lemma mstep_advances:
  assumes "mstep E m m'" and "machine_inv E view base n m (es, hs)"
  shows "\<exists>a'. machine_inv E view base n m' a' \<and> advances E (es, hs) a'"
  using assms
proof (induction rule: mstep.induct)
  case (refused consume st st' js)
  then obtain b where "st' = st\<lparr>st_limiter := b\<rparr>" using take_tokens_frame by blast
  with refused.prems show ?case
    by (intro machine_grow [OF refused.prems, where added = "[]" and hs' = hs]) (auto simp: announced_def)
next
  case (append tick st st1 now key data st2 en js)
  then obtain added where "core_inv E view st2 (es @ added) hs" "st_watch st2 = st_watch st" "map entry_of added = [en]"
    using commit_append_machine [OF _ append.hyps(1,2,3)] by fastforce
  with append.prems show ?case
    by (intro machine_grow [OF append.prems, where added = added and hs' = hs])
      (auto simp: announced_watch [of st2 st] job_ok_mono intro: advances.grow)
next
  case (append_failed tick st st1 now key data st2 x js)
  then have "core_inv E view st2 es hs" "st_watch st2 = st_watch st"
    using commit_append_machine [OF _ append_failed.hyps(1,2,3)] by fastforce+
  with append_failed.prems show ?case
    by (intro machine_grow [OF append_failed.prems, where added = "[]" and hs' = hs]) (auto simp: announced_watch [of st2 st])
next
  case (batch tick reqs st st1 now st2 results js)
  then obtain added where "core_inv E view st2 (es @ added) hs" "st_watch st2 = st_watch st"
    "map entry_of added = batch_message reqs results"
    using commit_batch_machine [OF _ batch.hyps(1,2,3)] by fastforce
  with batch.prems show ?case
    by (intro machine_grow [OF batch.prems, where added = added and hs' = hs])
      (auto simp: announced_watch [of st2 st] job_ok_mono intro: advances.grow simp flip: mset_map)
next
  case (batch_failed tick reqs st st1 now st2 x js)
  then have "core_inv E view st2 es hs" "st_watch st2 = st_watch st"
    using commit_batch_machine [OF _ batch_failed.hyps(1,2,3)] by fastforce+
  with batch_failed.prems show ?case
    by (intro machine_grow [OF batch_failed.prems, where added = "[]" and hs' = hs]) (auto simp: announced_watch [of st2 st])
next
  case (broadcast st js en ens js')
  then show ?case
    by (intro machine_grow [OF broadcast.prems, where added = "[]" and hs' = hs])
      (auto simp: announced_publish, simp add: publish_def)
next
  case (snapshot st js)
  with snapshot_ok [of E view st es hs] show ?case
    by (intro machine_grow [OF snapshot.prems, where added = "[]" and hs' = hs]) auto
next
  case (check nn st js r js')
  with sth_due_nonzero [OF check.hyps] show ?case
    by (intro machine_grow [OF check.prems, where added = "[]" and hs' = hs]) (auto simp: word_gt_0)
next
  case (check_end nn st js r js')
  then show ?case
    by (intro machine_grow [OF check_end.prems, where added = "[]" and hs' = hs]) auto
next
  case (store now nn r sg_sign sg_pk sg_ver st st' x js js')
  then have "core_inv E view st es hs" "job_ok E es (Due nn r [sg_sign, sg_pk, sg_ver])" by auto
  from sign_and_write_core [OF this store.hyps] obtain hs' where
    "core_inv E view st' es hs'" "advances E (es, hs) (es, hs')" "st_watch st' = st_watch st" by blast
  with store.prems show ?case
    by (intro machine_grow [OF store.prems, where added = "[]" and hs' = hs']) (auto simp: announced_watch [of st' st])
next
  case (put_record v key a st db' x js js')
  with core_inv_put [OF _ put_record.hyps, of view es hs] show ?case
    by (intro machine_grow [OF put_record.prems, where added = "[]" and hs' = hs]) (auto simp: announced_watch [of "st\<lparr>st_db := db'\<rparr>" st])
next
  case (key_writing st js a v js' left fresh)
  then show ?case
    by (intro machine_grow [OF key_writing.prems, where added = "[]" and hs' = hs]) (auto simp: announced_watch [of "st\<lparr>st_key_file := left\<rparr>" st])
next
  case (key_written st js a v key js')
  then show ?case
    by (intro machine_grow [OF key_written.prems, where added = "[]" and hs' = hs])
      (auto simp: announced_watch [of "st\<lparr>st_key_file := Some (to_vec key)\<rparr>" st])
next
  case (swap st js a v key js')
  then show ?case
    by (intro machine_grow [OF swap.prems, where added = "[]" and hs' = hs])
      (auto simp: announced_watch [of "st\<lparr>st_signer := \<lparr>sg_key = key, sg_version = v\<rparr>\<rparr>" st])
qed (intro exI [of _ "(es, hs)"]; auto)+

text \<open>The undisturbed rotation of \<open>rotate_key\<close> is a run of the machine, whether or not its two writes succeed.\<close>

lemma rotate_key_run:
  assumes run: "rotate_key E fresh wr st = (st', x)"
  shows "(mstep E)\<^sup>*\<^sup>* \<lparr>mc_st = st, mc_jobs = js\<rparr> \<lparr>mc_st = st', mc_jobs = js\<rparr>"
proof (cases "st_poisoned st")
  case True
  with run show ?thesis by (simp add: rotate_key_def)
next
  case np: False
  let ?a = "mt_size (st_merkle st)" and ?v = "sg_version (st_signer st) + 1"
  have start: "(mstep E)\<^sup>*\<^sup>* \<lparr>mc_st = st, mc_jobs = js\<rparr> \<lparr>mc_st = st\<lparr>st_key_file := left\<rparr>, mc_jobs = KeyFile ?a ?v fresh # js\<rparr>" for left
    using mstep.rotate [OF np, of E js] mstep.rotate_version [of E st "[]" ?a js]
      mstep.key_writing [of E st "[]" ?a ?v js left fresh]
    by (simp add: converse_rtranclp_into_rtranclp [OF _ converse_rtranclp_into_rtranclp [OF _ r_into_rtranclp]])
  show ?thesis
  proof (cases wr)
    case (Some w)
    with run np have "st' = st\<lparr>st_key_file := snd w\<rparr>" by (cases w) (auto simp: rotate_key_def signer_rotate_def Let_def)
    with start [of "snd w"] mstep.key_failed [of E st' "[]" ?a ?v fresh js] show ?thesis
      by (auto intro: rtranclp.rtrancl_into_rtrancl)
  next
    case None
    let ?st1 = "st\<lparr>st_key_file := Some (to_vec fresh)\<rparr>" and ?sg = "\<lparr>sg_key = fresh, sg_version = ?v\<rparr>"
    obtain db' w where put: "ks_put (e_rocks E) (e_codec E) \<lparr>kr_version = ?v, kr_public_key = ed_public (e_ed E) fresh,
        kr_activated_at_tree_size = ?a\<rparr> (st_db (?st1\<lparr>st_signer := ?sg\<rparr>)) = (db', w)" by fastforce
    have st': "st' = ?st1\<lparr>st_signer := ?sg, st_db := db'\<rparr>"
      using run np put None by (simp add: rotate_key_def signer_rotate_def Let_def)
    have "mstep E \<lparr>mc_st = ?st1, mc_jobs = KeyFile ?a ?v fresh # js\<rparr> \<lparr>mc_st = ?st1, mc_jobs = KeyWritten ?a ?v fresh # js\<rparr>"
      using mstep.key_written [of E ?st1 "[]" ?a ?v fresh js] by simp
    moreover have "mstep E \<lparr>mc_st = ?st1, mc_jobs = KeyWritten ?a ?v fresh # js\<rparr> \<lparr>mc_st = ?st1\<lparr>st_signer := ?sg\<rparr>, mc_jobs = Swapped ?a ?v fresh # js\<rparr>"
      using mstep.swap [of E ?st1 "[]" ?a ?v fresh js] by simp
    moreover have "mstep E \<lparr>mc_st = ?st1\<lparr>st_signer := ?sg\<rparr>, mc_jobs = Swapped ?a ?v fresh # js\<rparr> \<lparr>mc_st = st', mc_jobs = js\<rparr>"
      using mstep.put_record [OF put, of "[]" js] by (simp add: st')
    ultimately show ?thesis using start [of "Some (to_vec fresh)"] by (meson rtranclp.rtrancl_into_rtrancl)
  qed
qed

text \<open>So is an undisturbed signing cycle.\<close>

lemma read_signers:
  "(mstep E)\<^sup>*\<^sup>* \<lparr>mc_st = st, mc_jobs = Due n r [] # js\<rparr> \<lparr>mc_st = st, mc_jobs = Due n r [st_signer st] # js\<rparr>"
  "(mstep E)\<^sup>*\<^sup>* \<lparr>mc_st = st, mc_jobs = Due n r [sg] # js\<rparr> \<lparr>mc_st = st, mc_jobs = Due n r [sg, st_signer st, st_signer st] # js\<rparr>"
  using mstep.read_signer [of "[]" E st "[]" n r js] mstep.read_signer [of "[sg]" E st "[]" n r js]
    mstep.read_signer [of "[sg, st_signer st]" E st "[]" n r js]
  by (auto intro: converse_rtranclp_into_rtranclp)

lemma snapshot_steps:
  assumes "\<not> st_poisoned st" and "sth_due E (mt_size (st_merkle st)) st = Inr True"
  shows "(mstep E)\<^sup>*\<^sup>* \<lparr>mc_st = st, mc_jobs = js\<rparr>
    \<lparr>mc_st = st, mc_jobs = Due (mt_size (st_merkle st)) (mt_root (e_sha E) (st_merkle st)) [st_signer st] # js\<rparr>"
proof -
  let ?n = "mt_size (st_merkle st)" and ?r = "mt_root (e_sha E) (st_merkle st)"
  have "mstep E \<lparr>mc_st = st, mc_jobs = Snapped ?n ?r # js\<rparr> \<lparr>mc_st = st, mc_jobs = Due ?n ?r [] # js\<rparr>"
    using mstep.check [OF assms(2), of "[]" ?r js] by simp
  from converse_rtranclp_into_rtranclp [OF this read_signers(1)] show ?thesis
    by (rule converse_rtranclp_into_rtranclp [where r = "mstep E", OF mstep.snapshot [OF assms(1), of E js]])
qed

lemma store_step:
  assumes "sign_and_write E now n r a b c st = (st', x)"
  shows "mstep E \<lparr>mc_st = st, mc_jobs = Due n r [a, b, c] # js\<rparr> \<lparr>mc_st = st', mc_jobs = js\<rparr>"
  using mstep.store [OF assms, of "[]" js] by simp

lemma sign_and_store_run:
  assumes "sign_and_store E now st = (st', x)"
  shows "(mstep E)\<^sup>*\<^sup>* \<lparr>mc_st = st, mc_jobs = js\<rparr> \<lparr>mc_st = st', mc_jobs = js\<rparr>"
proof (cases "st_poisoned st \<or> sth_due E (mt_size (st_merkle st)) st \<noteq> Inr True")
  case True
  with assms have "st' = st"
    by (auto simp: sign_and_store_def sign_snapshot_def Let_def split: sum.splits if_splits)
  then show ?thesis by simp
next
  case False
  let ?n = "mt_size (st_merkle st)" and ?r = "mt_root (e_sha E) (st_merkle st)" and ?sg = "st_signer st"
  from False assms have "sign_and_write E now ?n ?r ?sg ?sg ?sg st = (st', x)"
    by (simp add: sign_and_store_def sign_snapshot_def)
  from rtranclp.rtrancl_into_rtrancl [where r = "mstep E", OF read_signers(2) [of E st ?n ?r ?sg js] store_step [OF this, of js]]
  show ?thesis using False by (blast intro: rtranclp_trans [OF snapshot_steps [of st E js]])
qed

section \<open>Runs\<close>

text \<open>
  Simulation: every step of the system from a state that \<open>holds\<close> an abstract content is matched by an
  abstract step, which may be none, and so every run by an abstract run.
\<close>

locale simulation =
  fixes step :: "'s \<Rightarrow> 's \<Rightarrow> bool" and holds :: "'s \<Rightarrow> 'a \<Rightarrow> bool" and astep :: "'a \<Rightarrow> 'a \<Rightarrow> bool"
  assumes step_matched: "step s s' \<Longrightarrow> holds s a \<Longrightarrow> \<exists>a'. holds s' a' \<and> astep\<^sup>=\<^sup>= a a'"
begin

lemma run_matched: "step\<^sup>*\<^sup>* s s' \<Longrightarrow> holds s a \<Longrightarrow> \<exists>a'. holds s' a' \<and> astep\<^sup>*\<^sup>* a a'"
proof (induction rule: rtranclp_induct)
  case (step y z)
  then obtain b where b: "holds y b" "astep\<^sup>*\<^sup>* a b" by blast
  from step_matched [OF step.hyps(2) b(1)] obtain a' where "holds z a'" "astep\<^sup>=\<^sup>= b a'" by blast
  with b(2) show ?case by (auto intro: rtranclp.rtrancl_into_rtrancl)
qed blast

end

text \<open>A system whose abstract content only moves up in a preorder: then so it does along every run.\<close>

locale growing_system = simulation step holds le
  for step :: "'s \<Rightarrow> 's \<Rightarrow> bool" and holds :: "'s \<Rightarrow> 'a \<Rightarrow> bool" and le :: "'a \<Rightarrow> 'a \<Rightarrow> bool" +
  assumes le_refl: "le a a" and le_trans: "le a b \<Longrightarrow> le b c \<Longrightarrow> le a c"
begin

lemma run_climbs: "step\<^sup>*\<^sup>* s s' \<Longrightarrow> holds s a \<Longrightarrow> \<exists>a'. holds s' a' \<and> le a a'"
proof -
  have "le\<^sup>*\<^sup>* a b \<Longrightarrow> le a b" for a b
    by (induction rule: rtranclp_induct) (rule le_refl, rule le_trans)
  with run_matched show "step\<^sup>*\<^sup>* s s' \<Longrightarrow> holds s a \<Longrightarrow> \<exists>a'. holds s' a' \<and> le a a'" by meson
qed

end

lemma advances_evolves:
  assumes "advances E (es, hs) (es', hs')" and "core_inv E view st es hs"
  shows "evolves (es, hs) (es', hs')"
  using assms by (cases rule: advances.cases) (auto intro: heads_kept_upd)

interpretation server: growing_system "mstep E" "machine_inv E view base n" evolves for E view base n
proof
  show "\<exists>a'. machine_inv E view base n s' a' \<and> evolves\<^sup>=\<^sup>= a a'" if "mstep E s s'" "machine_inv E view base n s a" for s s' a
  proof -
    obtain es hs where a: "a = (es, hs)" by fastforce
    with mstep_advances [OF that(1), of view base n es hs] that(2) obtain es' hs' where
      "machine_inv E view base n s' (es', hs')" "advances E (es, hs) (es', hs')" by auto
    with that(2) a show ?thesis using advances_evolves by fastforce
  qed
  show "evolves a a" for a by (cases a) auto
  show "evolves a b \<Longrightarrow> evolves b c \<Longrightarrow> evolves a c" for a b c
    by (cases a; cases b; cases c) (auto intro: heads_kept_trans)
qed

lemma machine_reads:
  assumes inv: "machine_inv E view base n m (es, hs)"
  shows "hs_at_size (e_rocks E) (e_codec E) (st_db (mc_st m)) a = Inr (Some s) \<Longrightarrow> s \<in> set hs \<and> sth_tree_size s = a"
    and "ls_get_by_seq (e_rocks E) (e_codec E) (st_db (mc_st m)) a = Inr (Some e) \<Longrightarrow> e \<in> set es \<and> le_seq e = a"
proof -
  have core: "core_inv E view (mc_st m) es hs" using inv by simp
  note D = core_invD [OF core]
  show "s \<in> set hs \<and> sth_tree_size s = a" if "hs_at_size (e_rocks E) (e_codec E) (st_db (mc_st m)) a = Inr (Some s)"
    using hs_at_size_yields [OF D(1,2,5), of a] that by (auto simp: yields_Inr dest!: sym [of "Some s"] simp: find_Some_iff)
  show "e \<in> set es \<and> le_seq e = a" if "ls_get_by_seq (e_rocks E) (e_codec E) (st_db (mc_st m)) a = Inr (Some e)"
    using ls_get_by_seq_yields [OF D(1,2,4), of a] that by (auto simp: yields_Inr dest!: sym [of "Some e"] simp: find_Some_iff)
qed

lemma prefix_roots_consistent:
  assumes "0 < a" and "a \<le> b" and "unat b \<le> length xs" and "length xs < 2 ^ 64"
  shows "\<exists>p. consistency_proof sha (take (unat b) xs) a = Inr p
    \<and> verify_consistency sha a b p (MTH (node_hash sha) (take (unat a) xs)) (MTH (node_hash sha) (take (unat b) xs))"
proof (intro exI conjI)
  let ?ys = "take (unat b) xs" and ?nd = "node_hash sha"
  have le: "unat a \<le> unat b" using assms(2) by (simp add: word_le_nat_alt)
  have len: "length ?ys = unat b" using assms(3) by simp
  have lt: "length ?ys < 2 ^ 64" using assms(3,4) len by linarith
  show "consistency_proof sha ?ys a = Inr (SUBPROOF ?nd ?ys (unat a) True)"
    using assms(1) le len lt by (intro consistency_proof_SUBPROOF) simp_all
  have "verify_consistency sha (of_nat (unat a)) (of_nat (length ?ys)) (SUBPROOF ?nd ?ys (unat a) True)
      (MTH ?nd (take (unat a) ?ys)) (MTH ?nd ?ys)"
    by (rule core_cons.cons_complete) (use assms(1) le len lt in \<open>simp_all add: word_gt_0 unat_gt_0\<close>)
  moreover have "take (unat a) ?ys = take (unat a) xs" using le by (simp add: min_def)
  ultimately show "verify_consistency sha a b (SUBPROOF ?nd ?ys (unat a) True) (MTH ?nd (take (unat a) xs)) (MTH ?nd ?ys)"
    by (simp only: len of_nat_unat ucast_id)
qed

text \<open>
  C3. No two views of the log. Whatever happens between two reads of tree heads (appends, failures,
  signing cycles and rotations interleaved in any way), the two heads are consistent: the older size
  against the newer one has a consistency proof over the log, and the verifier accepts it against the
  two served roots. Two heads of the same size have the same root.
\<close>

theorem served_heads_consistent:
  assumes inv: "machine_inv E view base n m (es, hs)" and run: "(mstep E)\<^sup>*\<^sup>* m m'"
    and r1: "hs_at_size (e_rocks E) (e_codec E) (st_db (mc_st m)) a = Inr (Some s)"
    and r2: "hs_at_size (e_rocks E) (e_codec E) (st_db (mc_st m')) b = Inr (Some s')"
  shows "\<exists>es'. log_rel (e_codec E) (e_sha E) view (st_db (mc_st m')) es'
    \<and> (a \<le> b \<longrightarrow> (\<exists>p. consistency_proof (e_sha E) (map le_leaf_hash (take (unat b) es')) a = Inr p
         \<and> verify_consistency (e_sha E) a b p (sth_root_hash s) (sth_root_hash s')))
    \<and> (b \<le> a \<longrightarrow> (\<exists>p. consistency_proof (e_sha E) (map le_leaf_hash (take (unat a) es')) b = Inr p
         \<and> verify_consistency (e_sha E) b a p (sth_root_hash s') (sth_root_hash s)))
    \<and> (a = b \<longrightarrow> sth_root_hash s = sth_root_hash s')"
proof -
  obtain es' hs' where inv': "machine_inv E view base n m' (es', hs')" and ev: "evolves (es, hs) (es', hs')"
    using server.run_climbs [OF run inv] by (metis surj_pair)
  have core: "core_inv E view (mc_st m) es hs" "core_inv E view (mc_st m') es' hs'" using inv inv' by simp_all
  have s: "s \<in> set hs" "sth_tree_size s = a" "s' \<in> set hs'" "sth_tree_size s' = b"
    using machine_reads(1) [OF inv r1] machine_reads(1) [OF inv' r2] by simp_all
  obtain added where es': "es' = es @ added" using ev by auto
  have ok: "root_ok E es' s" "root_ok E es' s'"
    using core_invD(6) [OF core(1) s(1)] core_invD(6) [OF core(2) s(3)] by (simp_all add: es' root_ok_mono)
  have len: "length (map le_leaf_hash es') < 2 ^ 64" using core_invD(7) [OF core(2)] by (simp add: mt_inv_def)
  have a: "0 < a" "unat a \<le> length (map le_leaf_hash es')" and b: "0 < b" "unat b \<le> length (map le_leaf_hash es')"
    and roots: "sth_root_hash s = MTH (node_hash (e_sha E)) (take (unat a) (map le_leaf_hash es'))"
      "sth_root_hash s' = MTH (node_hash (e_sha E)) (take (unat b) (map le_leaf_hash es'))"
    using ok s by (simp_all add: root_ok_def take_map)
  note cons = prefix_roots_consistent [OF a(1) _ b(2) len, of "e_sha E", folded roots]
    prefix_roots_consistent [OF b(1) _ a(2) len, of "e_sha E", folded roots]
  show ?thesis
    using cons roots core_invD(4) [OF core(2)] by (intro exI [of _ es']) (simp add: take_map)
qed

text \<open>
  C4. Nothing stored is ever lost or changed: along every run, an entry that could be read by its number
  is read the same later, and a size that had a head still has one with the same root, unless RocksDB
  reports an error at the later read.
\<close>

theorem stored_data_permanent:
  assumes inv: "machine_inv E view base n m (es, hs)" and run: "(mstep E)\<^sup>*\<^sup>* m m'"
  shows "(ls_get_by_seq (e_rocks E) (e_codec E) (st_db (mc_st m)) i = Inr (Some e) \<longrightarrow>
       yields (ls_get_by_seq (e_rocks E) (e_codec E) (st_db (mc_st m')) i) (Some e))
    \<and> (hs_at_size (e_rocks E) (e_codec E) (st_db (mc_st m)) a = Inr (Some s) \<longrightarrow>
       (\<exists>s'. yields (hs_at_size (e_rocks E) (e_codec E) (st_db (mc_st m')) a) (Some s')
          \<and> sth_root_hash s' = sth_root_hash s))"
proof -
  obtain es' hs' where inv': "machine_inv E view base n m' (es', hs')" and ev: "evolves (es, hs) (es', hs')"
    using server.run_climbs [OF run inv] by (metis surj_pair)
  have core: "core_inv E view (mc_st m') es' hs'" using inv' by simp
  note D = core_invD [OF core]
  have "yields (ls_get_by_seq (e_rocks E) (e_codec E) (st_db (mc_st m')) i) (Some e)"
    if "ls_get_by_seq (e_rocks E) (e_codec E) (st_db (mc_st m)) i = Inr (Some e)"
  proof -
    have e: "e \<in> set es'" "le_seq e = i" using machine_reads(2) [OF inv that] ev by auto
    then show ?thesis
      using find_sorted_seq [OF log_rel_sorted [OF D(4)], of e] ls_get_by_seq_yields [OF D(1,2,4), of i] by simp
  qed
  moreover have "\<exists>s'. yields (hs_at_size (e_rocks E) (e_codec E) (st_db (mc_st m')) a) (Some s') \<and> sth_root_hash s' = sth_root_hash s"
    if read: "hs_at_size (e_rocks E) (e_codec E) (st_db (mc_st m)) a = Inr (Some s)"
  proof -
    obtain s' where s': "s' \<in> set hs'" "sth_tree_size s' = a" "sth_root_hash s' = sth_root_hash s"
      using machine_reads(1) [OF inv read] ev by (auto simp: heads_kept_def)
    then show ?thesis
      using find_head [OF core s'(1)] hs_at_size_yields [OF D(1,2,5), of a] by auto
  qed
  ultimately show ?thesis by blast
qed

text \<open>
  C17. Every committed entry is announced exactly once: in every run from a state in which nothing has
  been announced yet, what the watchers have been sent so far together with what the handlers still have
  to send is each entry added to the log since, once; no number is ever sent twice.
\<close>

theorem broadcast_exactly_once:
  assumes inv: "core_inv E view st es hs" and new: "st_watch st = []"
    and run: "(mstep E)\<^sup>*\<^sup>* \<lparr>mc_st = st, mc_jobs = []\<rparr> m'"
  shows "\<exists>added. log_rel (e_codec E) (e_sha E) view (st_db (mc_st m')) (es @ added)
    \<and> announced m' = mset (map entry_of added) \<and> distinct (map en_seq (st_watch (mc_st m')))"
proof -
  have "machine_inv E view {#} (length es) \<lparr>mc_st = st, mc_jobs = []\<rparr> (es, hs)"
    using inv new by (simp add: announced_def)
  from server.run_climbs [OF run this] obtain es' hs' where
    inv': "machine_inv E view {#} (length es) m' (es', hs')" and ev: "evolves (es, hs) (es', hs')" by (metis surj_pair)
  then obtain added where es': "es' = es @ added" by auto
  have rel: "log_rel (e_codec E) (e_sha E) view (st_db (mc_st m')) es'" using inv' core_invD(4) by auto
  have ann: "announced m' = mset (map entry_of added)" using inv' es' by simp
  have "sorted_wrt (\<lambda>a b. le_seq a < le_seq b) added"
    using log_rel_sorted [OF rel] by (simp add: es' sorted_wrt_append)
  then have "sorted_wrt (<) (map le_seq added)" by (simp add: sorted_wrt_map)
  then have "distinct (map le_seq added)" by (simp add: strict_sorted_iff)
  then have "distinct (map en_seq (map entry_of added))" by (simp add: entry_of_def o_def)
  moreover have "mset (map en_seq (st_watch (mc_st m'))) \<subseteq># mset (map en_seq (map entry_of added))"
    using ann by (metis announced_def image_mset_subseteq_mono mset_map mset_subset_eq_add_left)
  ultimately have "distinct (map en_seq (st_watch (mc_st m')))"
    using distinct_submset by blast
  with rel ann es' show ?thesis by blast
qed

section \<open>A rotation during a signing cycle\<close>

text \<open>
  C37. Rotation race: \<^verbatim>\<open>sign_and_store\<close> reads the signer once to sign and again for the public key and the
  version. In the run in which a rotation completes between the first and the second read, every step
  succeeds, and the head that is stored and served for the current size has the signature of the old key
  next to the public key and the version of the new one. It passes its own signature check only if the
  new key accepts a signature that the old key made.
\<close>

theorem rotation_race_stores_bad_head:
  assumes inv: "core_inv E view st es hs" and due: "sth_due E (of_nat (length es)) st = Inr True" and now: "0 \<le> now"
    and rotated: "rotate_key E fresh None st = (st1, Inr k)"
    and rh: "rh = MTH (node_hash (e_sha E)) (map le_leaf_hash es)"
    and stored: "sign_and_write E now (of_nat (length es)) (Some rh) (st_signer st) (st_signer st1) (st_signer st1) st1 = (st2, Inr ())"
  shows "(mstep E)\<^sup>*\<^sup>* \<lparr>mc_st = st, mc_jobs = []\<rparr> \<lparr>mc_st = st2, mc_jobs = []\<rparr>
    \<and> (\<exists>s. yields (hs_at_size (e_rocks E) (e_codec E) (st_db st2) (of_nat (length es))) (Some s)
        \<and> sth_root_hash s = rh \<and> sth_public_key s = kr_public_key k \<and> sth_key_version s = kr_version k
        \<and> sth_signature s = ed_sign (e_ed E) (sg_key (st_signer st)) (to_vec (signing_payload (of_nat (length es)) rh (sth_timestamp_ns s)))
        \<and> (verify_sth (e_ed E) s \<longleftrightarrow> ed_verify_strict (e_ed E) (ed_public (e_ed E) fresh)
              (to_vec (signing_payload (of_nat (length es)) rh (sth_timestamp_ns s))) (sth_signature s)))"
proof
  let ?n = "of_nat (length es) :: u64"
  have np: "\<not> st_poisoned st" using rotated by (auto simp: rotate_key_def)
  have ne: "es \<noteq> []" using due by (auto simp: sth_due_def)
  note t = tree_of_log [OF inv]
  have "(mstep E)\<^sup>*\<^sup>* \<lparr>mc_st = st, mc_jobs = []\<rparr> \<lparr>mc_st = st, mc_jobs = [Due ?n (Some rh) [st_signer st]]\<rparr>"
    using snapshot_steps [OF np, of E "[]"] due t ne by (simp add: rh)
  also have "(mstep E)\<^sup>*\<^sup>* \<dots> \<lparr>mc_st = st1, mc_jobs = [Due ?n (Some rh) [st_signer st]]\<rparr>"
    by (rule rotate_key_run [OF rotated])
  also have "(mstep E)\<^sup>*\<^sup>* \<dots> \<lparr>mc_st = st1, mc_jobs = [Due ?n (Some rh) [st_signer st, st_signer st1, st_signer st1]]\<rparr>"
    by (rule read_signers(2))
  also have "(mstep E)\<^sup>*\<^sup>* \<dots> \<lparr>mc_st = st2, mc_jobs = []\<rparr>" by (rule r_into_rtranclp, rule store_step [OF stored])
  finally show "(mstep E)\<^sup>*\<^sup>* \<lparr>mc_st = st, mc_jobs = []\<rparr> \<lparr>mc_st = st2, mc_jobs = []\<rparr>" .
  have key: "st_signer st1 = \<lparr>sg_key = fresh, sg_version = kr_version k\<rparr>" "kr_public_key k = ed_public (e_ed E) fresh"
    using rotated np by (auto simp: rotate_key_def signer_rotate_def Let_def bindR_def split: prod.splits sum.splits)
  have inv1: "core_inv E view st1 es hs" by (rule rotate_key_core [OF inv rotated])
  let ?s = "\<lparr>sth_tree_size = ?n, sth_root_hash = rh, sth_timestamp_ns = word_of_int now,
    sth_signature = signer_sign E (st_signer st) (signing_payload ?n rh (word_of_int now)),
    sth_public_key = signer_public_key E (st_signer st1), sth_key_version = sg_version (st_signer st1)\<rparr>"
  have "yields (hs_at_size (e_rocks E) (e_codec E) (st_db st2) ?n) (Some ?s)"
    by (rule sign_and_write_readable [OF inv1 now stored])
  then show "\<exists>s. yields (hs_at_size (e_rocks E) (e_codec E) (st_db st2) ?n) (Some s)
        \<and> sth_root_hash s = rh \<and> sth_public_key s = kr_public_key k \<and> sth_key_version s = kr_version k
        \<and> sth_signature s = ed_sign (e_ed E) (sg_key (st_signer st)) (to_vec (signing_payload ?n rh (sth_timestamp_ns s)))
        \<and> (verify_sth (e_ed E) s \<longleftrightarrow> ed_verify_strict (e_ed E) (ed_public (e_ed E) fresh)
              (to_vec (signing_payload ?n rh (sth_timestamp_ns s))) (sth_signature s))"
    by (intro exI [of _ ?s])
      (simp add: key verify_sth_def signer_sign_def signer_public_key_def ed_lawsD [OF core_invD(3) [OF inv]])
qed

section \<open>The theorems on a concrete run\<close>

text \<open>The sample server appends an entry, announces it, and signs a head while a second cycle takes its snapshot.\<close>

lemma sample_commit:
  "commit_append mem_env 5 [1] [2] sample_state = (sample_state1, Inr (entry_of (new_entry toy_sha 5 0 [1] [2])))"
proof -
  have "(mt_append toy_sha mt_new (leaf_hash toy_sha [2]) :: (status, merkle_tree \<times> u64) result) =
      Inr (\<lparr>frontier = [leaf_hash toy_sha [2]], mt_size = 1\<rparr>, 0)"
    by (simp add: mt_append_def mt_new_def append_loop.simps Let_def)
  then show ?thesis by (simp add: commit_append_def sample_eval entry_of_def new_entry_def)
qed

lemma sample_append_step:
  "mstep mem_env \<lparr>mc_st = sample_state, mc_jobs = []\<rparr>
     \<lparr>mc_st = sample_state1, mc_jobs = [Broadcast [entry_of (new_entry toy_sha 5 0 [1] [2])]]\<rparr>"
proof (rule mstep.append [OF _ _ sample_commit])
  show "take_tokens (try_consume (e_rnd mem_env) 0) sample_state = (sample_state, True)"
    by (simp add: take_tokens_def sample_state_def)
  show "has_room 1 sample_state" by (simp add: has_room_def sample_state_def)
qed

lemma sample_sign_steps:
  "(mstep mem_env)\<^sup>*\<^sup>* \<lparr>mc_st = sample_state1, mc_jobs = js\<rparr> \<lparr>mc_st = signed_state, mc_jobs = js\<rparr>"
  by (rule sign_and_store_run [OF signed_state_run])

lemma mem_no_error:
  "yields (hs_at_size mem_rocks C db n) x \<Longrightarrow> hs_at_size mem_rocks C db n = Inr x"
  "yields (ls_get_by_seq mem_rocks C db n) y \<Longrightarrow> ls_get_by_seq mem_rocks C db n = Inr y"
proof -
  have "hs_at_size mem_rocks C db n \<noteq> Inl (Err (RocksDb m))" for m
    by (auto simp: hs_at_size_def mem_rocks_def decode_sth_def from_lib_def sth_try_from_def corrupt_def bindR_def
        split: option.splits sum.splits)
  then show "yields (hs_at_size mem_rocks C db n) x \<Longrightarrow> hs_at_size mem_rocks C db n = Inr x" by (auto simp: yields_def)
  have "ls_get_by_seq mem_rocks C db n \<noteq> Inl (Err (RocksDb m))" for m
    by (auto simp: ls_get_by_seq_def mem_rocks_def decode_log_entry_def from_lib_def log_entry_try_from_def corrupt_def bindR_def
        split: option.splits sum.splits)
  then show "yields (ls_get_by_seq mem_rocks C db n) y \<Longrightarrow> ls_get_by_seq mem_rocks C db n = Inr y" by (auto simp: yields_def)
qed

definition signed_machine :: "families machine" where
  "signed_machine = \<lparr>mc_st = signed_state, mc_jobs = []\<rparr>"

lemma signed_machine_inv:
  "machine_inv mem_env (\<lambda>d. d) {#} 1 signed_machine ([new_entry toy_sha 5 0 [1] [2]], [sample_head])"
proof -
  have "st_watch signed_state = []"
    by (simp add: signed_state_def sample_eval)
  with signed_state_inv(1) show ?thesis by (simp add: signed_machine_def server_inv_core announced_def)
qed

lemma signed_machine_reads:
  "hs_at_size (e_rocks mem_env) (e_codec mem_env) (st_db (mc_st signed_machine)) 1 = Inr (Some sample_head)"
  "ls_get_by_seq (e_rocks mem_env) (e_codec mem_env) (st_db (mc_st signed_machine)) 0 = Inr (Some (new_entry toy_sha 5 0 [1] [2]))"
proof -
  note D = server_invD [OF signed_state_inv(1)]
  have R: "e_rocks mem_env = mem_rocks" by (simp add: mem_env_def)
  have "yields (hs_at_size mem_rocks (e_codec mem_env) (st_db signed_state) 1) (Some sample_head)"
    using hs_at_size_yields [where view = "\<lambda>d. d", OF D(1,2,5), of 1] sample_head_size by (simp add: R)
  then show "hs_at_size (e_rocks mem_env) (e_codec mem_env) (st_db (mc_st signed_machine)) 1 = Inr (Some sample_head)"
    by (simp add: R signed_machine_def mem_no_error)
  have "yields (ls_get_by_seq mem_rocks (e_codec mem_env) (st_db signed_state) 0) (Some (new_entry toy_sha 5 0 [1] [2]))"
    using ls_get_by_seq_yields [where view = "\<lambda>d. d", OF D(1,2,4), of 0] by (simp add: R)
  then show "ls_get_by_seq (e_rocks mem_env) (e_codec mem_env) (st_db (mc_st signed_machine)) 0 = Inr (Some (new_entry toy_sha 5 0 [1] [2]))"
    by (simp add: R signed_machine_def mem_no_error)
qed

text \<open>From there the second entry and the second head.\<close>

definition two_machine :: "families machine" where
  "two_machine = \<lparr>mc_st = two_state, mc_jobs = [Broadcast [entry_of second_entry]]\<rparr>"

lemma two_machine_run: "(mstep mem_env)\<^sup>*\<^sup>* signed_machine two_machine"
proof -
  have "mstep mem_env \<lparr>mc_st = signed_state, mc_jobs = []\<rparr> \<lparr>mc_st = two_state1, mc_jobs = [Broadcast [entry_of second_entry]]\<rparr>"
  proof (rule mstep.append [OF _ _ two_state1_run])
    show "take_tokens (try_consume (e_rnd mem_env) 0) signed_state = (signed_state, True)"
      by (simp add: take_tokens_def signed_state_def sample_eval)
    show "has_room 1 signed_state" using signed_state_inv(2) by (simp add: has_room_def dense_def)
  qed
  from converse_rtranclp_into_rtranclp [OF this sign_and_store_run [OF two_state_run]] show ?thesis
    by (simp add: signed_machine_def two_machine_def)
qed

lemma two_machine_head:
  "hs_at_size (e_rocks mem_env) (e_codec mem_env) (st_db (mc_st two_machine)) 2 = Inr (Some second_head)"
proof -
  note D = server_invD [OF two_state_inv(1)]
  have "yields (hs_at_size mem_rocks (e_codec mem_env) (st_db two_state) 2) (Some second_head)"
    using hs_at_size_yields [where view = "\<lambda>d. d", OF D(1,2,5), of 2]
    by (simp add: mem_env_def sample_head_size second_head_size)
  from mem_no_error(1) [OF this] show ?thesis by (simp add: mem_env_def two_machine_def)
qed

theorem served_heads_consistent_witness:
  "\<exists>es' p. log_rel (e_codec mem_env) (e_sha mem_env) (\<lambda>d. d) (st_db (mc_st two_machine)) es'
    \<and> consistency_proof (e_sha mem_env) (map le_leaf_hash (take (unat (2 :: u64)) es')) 1 = Inr p
    \<and> verify_consistency (e_sha mem_env) 1 2 p (sth_root_hash sample_head) (sth_root_hash second_head)"
  using served_heads_consistent [OF signed_machine_inv two_machine_run signed_machine_reads(1) two_machine_head]
  by auto

theorem stored_data_permanent_witness:
  "yields (ls_get_by_seq (e_rocks mem_env) (e_codec mem_env) (st_db (mc_st two_machine)) 0) (Some (new_entry toy_sha 5 0 [1] [2]))
    \<and> (\<exists>s'. yields (hs_at_size (e_rocks mem_env) (e_codec mem_env) (st_db (mc_st two_machine)) 1) (Some s')
          \<and> sth_root_hash s' = sth_root_hash sample_head)"
  using stored_data_permanent [OF signed_machine_inv two_machine_run, of 0 _ 1 sample_head] signed_machine_reads
  by blast

theorem broadcast_exactly_once_witness:
  "\<exists>added. log_rel (e_codec mem_env) (e_sha mem_env) (\<lambda>d. d) (st_db (mc_st
        \<lparr>mc_st = signed_state, mc_jobs = [Broadcast [entry_of (new_entry toy_sha 5 0 [1] [2])]]\<rparr>)) ([] @ added)
    \<and> announced \<lparr>mc_st = signed_state, mc_jobs = [Broadcast [entry_of (new_entry toy_sha 5 0 [1] [2])]]\<rparr> = mset (map entry_of added)
    \<and> distinct (map en_seq (st_watch (mc_st \<lparr>mc_st = signed_state, mc_jobs = [Broadcast [entry_of (new_entry toy_sha 5 0 [1] [2])]]\<rparr>)))"
proof (rule broadcast_exactly_once)
  show "core_inv mem_env (\<lambda>d. d) sample_state [] []" using sample_state_inv(1) by (simp add: server_inv_core)
  show "st_watch sample_state = []" by (simp add: sample_state_def)
  show "(mstep mem_env)\<^sup>*\<^sup>* \<lparr>mc_st = sample_state, mc_jobs = []\<rparr>
      \<lparr>mc_st = signed_state, mc_jobs = [Broadcast [entry_of (new_entry toy_sha 5 0 [1] [2])]]\<rparr>"
    by (rule converse_rtranclp_into_rtranclp [OF sample_append_step sample_sign_steps])
qed

text \<open>The rotation race on the sample server: the key file is written, the chain has both keys, and the head fails its check.\<close>

definition raced_state1 :: "families app_state" where
  "raced_state1 = fst (rotate_key mem_env (arr_of [8]) None sample_state1)"

definition raced_state :: "families app_state" where
  "raced_state = fst (sign_and_write mem_env 9 1 (Some (leaf_hash toy_sha [2])) (st_signer sample_state1) (st_signer raced_state1)
     (st_signer raced_state1) raced_state1)"

theorem rotation_race_stores_bad_head_witness:
  "(mstep mem_env)\<^sup>*\<^sup>* \<lparr>mc_st = sample_state1, mc_jobs = []\<rparr> \<lparr>mc_st = raced_state, mc_jobs = []\<rparr>
    \<and> (\<exists>s. yields (hs_at_size (e_rocks mem_env) (e_codec mem_env) (st_db raced_state) 1) (Some s)
        \<and> sth_public_key s = arr_of [8] \<and> sth_key_version s = 2 \<and> \<not> verify_sth (e_ed mem_env) s)"
proof -
  let ?es = "[new_entry toy_sha 5 0 [1] [2]]"
  have core: "core_inv mem_env (\<lambda>d. d) sample_state1 ?es []" using sample_state1_inv(1) by (simp add: server_inv_core)
  have due: "sth_due mem_env (of_nat (length ?es)) sample_state1 = Inr True" by (simp add: sample_eval)
  let ?k = "\<lparr>kr_version = 2, kr_public_key = arr_of [8], kr_activated_at_tree_size = 1\<rparr>"
  have rotated: "rotate_key mem_env (arr_of [8]) None sample_state1 = (raced_state1, Inr ?k)"
    unfolding raced_state1_def
    by (intro prod_eqI) (simp_all add: rotate_key_def signer_rotate_def ks_put_def sample_eval toy_ed_def)
  have rh: "leaf_hash toy_sha [2] = MTH (node_hash (e_sha mem_env)) (map le_leaf_hash ?es)"
    by (simp add: new_entry_def)
  have stored: "sign_and_write mem_env 9 (of_nat (length ?es)) (Some (leaf_hash toy_sha [2])) (st_signer sample_state1) (st_signer raced_state1)
      (st_signer raced_state1) raced_state1 = (raced_state, Inr ())"
    unfolding raced_state_def by (intro prod_eqI) (simp_all add: sign_and_write_def unwrap_def timestamp_of_def hs_write_def lift_app_def mem_env_def mem_rocks_def mem_codec_def Let_def)
  have differs: "to_vec (arr_of [7] :: signing_key) ! 0 \<noteq> to_vec (arr_of [8] :: signing_key) ! 0" by code_simp
  have "(arr_of (to_vec (arr_of [7] :: signing_key) @ m) :: signature) \<noteq> arr_of (to_vec (arr_of [8] :: signing_key) @ m)" for m
    using differs by (metis sig_prefix)
  then have "\<not> ed_verify_strict (e_ed mem_env) (ed_public (e_ed mem_env) (arr_of [8])) m (ed_sign (e_ed mem_env) (sg_key (st_signer sample_state1)) m)" for m
    by (simp add: mem_env_def toy_ed_def sample_state1_def sample_state_def)
  with rotation_race_stores_bad_head [OF core due _ rotated rh stored] show ?thesis by auto
qed

end
