(* ===== verification/Server_Watch.thy ===== *)
theory Server_Watch
  imports Server_Machine
begin

text \<open>
  The \<^verbatim>\<open>Watch\<close> stream of \<^verbatim>\<open>service.rs\<close>: a task that first replays the stored entries from a given number in
  pages of 200 and then forwards what the broadcast channel delivers, dropping what it has already sent.
  The task runs beside the rest of the server, so its \<open>i\<close>-th page reads the database \<open>dbs i\<close>; \<open>gone k\<close>
  says that the client has gone away when the \<open>k\<close>-th message (from 0) would be sent. What the channel delivers is a
  list of events. The replay loop is option-valued: not returning is \<open>None\<close>.
\<close>

type_synonym watch_item = "status + entry"

datatype watch_phase = Returned "watch_item list" | Going "watch_item list" "u64 option"

datatype recv = Got entry | Lagged u64 | Closed

definition send_status :: "(nat \<Rightarrow> bool) \<Rightarrow> status \<Rightarrow> watch_item list \<Rightarrow> watch_item list" where
  "send_status gone s out = (if gone (length out) then out else out @ [Inl s])"

fun send_page :: "(nat \<Rightarrow> bool) \<Rightarrow> log_entry list \<Rightarrow> watch_item list \<Rightarrow> u64 option \<Rightarrow> watch_phase" where
  "send_page gone [] out last_sent = Going out last_sent"
| "send_page gone (e # es) out last_sent =
     (if gone (length out) then Returned out
      else send_page gone es (out @ [Inr (entry_of e)]) (Some (le_seq e)))"

fun watch_failure :: "storage_error exn \<Rightarrow> status" where
  "watch_failure (Err e) = (CodeInternal, storage_error_string e)"
| "watch_failure (Panic p) = (CodeInternal, ''task panicked'')"

partial_function (option) replay_loop ::
  "'d env \<Rightarrow> (nat \<Rightarrow> bool) \<Rightarrow> (nat \<Rightarrow> 'd db) \<Rightarrow> nat \<Rightarrow> u64 \<Rightarrow> watch_item list \<Rightarrow> u64 option \<Rightarrow> watch_phase option" where
  "replay_loop E gone dbs i cursor out last_sent =
     (case ls_seq_range_paged (e_rocks E) (e_codec E) (dbs i) cursor 0 200 of
        Inl e \<Rightarrow> Some (Returned (send_status gone (watch_failure e) out))
      | Inr (entries, next) \<Rightarrow>
        (case send_page gone entries out last_sent of
           Returned out \<Rightarrow> Some (Returned out)
         | Going out last_sent \<Rightarrow>
             if next = 0 then Some (Going out last_sent)
             else replay_loop E gone dbs (Suc i) next out last_sent))"

definition lag_status :: "u64 \<Rightarrow> status" where
  "lag_status n = (CodeResourceExhausted, ''stream lagged by '' @ show_u64 n @ '' entries; reconnect with last seen seq'')"

fun live_loop :: "(nat \<Rightarrow> bool) \<Rightarrow> recv list \<Rightarrow> watch_item list \<Rightarrow> u64 option \<Rightarrow> watch_phase" where
  "live_loop gone [] out last_sent = Going out last_sent"
| "live_loop gone (Got en # evs) out last_sent =
     (if (case last_sent of None \<Rightarrow> False | Some l \<Rightarrow> en_seq en \<le> l) then live_loop gone evs out last_sent
      else if gone (length out) then Returned out
      else live_loop gone evs (out @ [Inr en]) (Some (en_seq en)))"
| "live_loop gone (Lagged n # evs) out last_sent = Returned (send_status gone (lag_status n) out)"
| "live_loop gone (Closed # evs) out last_sent = Returned out"

definition rpc_watch ::
  "'d env \<Rightarrow> (nat \<Rightarrow> bool) \<Rightarrow> (nat \<Rightarrow> 'd db) \<Rightarrow> u64 \<Rightarrow> recv list \<Rightarrow> watch_phase option" where
  "rpc_watch E gone dbs from_seq evs =
     (case (if 0 < from_seq then replay_loop E gone dbs 0 from_seq [] None else Some (Going [] None)) of
        None \<Rightarrow> None
      | Some (Returned out) \<Rightarrow> Some (Returned out)
      | Some (Going out last_sent) \<Rightarrow> Some (live_loop gone evs out last_sent))"

section \<open>The replay ends\<close>

lemma replay_page:
  assumes "rocks_laws R view" and "codec_laws C" and "log_rel C sha view db es"
  obtains m where "ls_seq_range_paged R C db cursor 0 200 = Inl (Err (RocksDb m))"
    | xs where "xs = filter (\<lambda>e. cursor \<le> le_seq e) es"
      and "ls_seq_range_paged R C db cursor 0 200 = Inr (take 200 xs, page_cursor 0 200 xs)"
      and "page_cursor 0 200 xs \<noteq> 0 \<Longrightarrow> cursor < page_cursor 0 200 xs"
proof -
  let ?xs = "filter (\<lambda>e. cursor \<le> le_seq e) es"
  have "yields (ls_seq_range_paged R C db cursor 0 200) (take 200 ?xs, page_cursor 0 200 ?xs)"
    by (rule ls_seq_range_paged_yields [OF assms]) simp_all
  moreover have "page_cursor 0 200 ?xs \<noteq> 0 \<Longrightarrow> cursor < page_cursor 0 200 ?xs"
    by (rule page_cursor_grows) auto
  ultimately show ?thesis using that by (auto simp: yields_def)
qed

text \<open>
  C20. The replay always ends, even when the log keeps growing while it runs: the cursor grows with every
  page, so the stream reaches its live phase (or reports a storage error, or stops because the client is
  gone).
\<close>

theorem watch_replay_returns:
  assumes laws: "rocks_laws (e_rocks E) view" "codec_laws (e_codec E)"
    and logs: "\<And>i. \<exists>es. log_rel (e_codec E) (e_sha E) view (dbs i) es"
  shows "\<exists>p. rpc_watch E gone dbs from_seq evs = Some p"
proof -
  have "\<exists>p. replay_loop E gone dbs i cursor out last_sent = Some p" for i cursor out last_sent
  proof (induction "2 ^ 64 - unat cursor" arbitrary: i cursor out last_sent rule: less_induct)
    case less
    obtain es where es: "log_rel (e_codec E) (e_sha E) view (dbs i) es" using logs by blast
    show ?case
    proof (cases rule: replay_page [OF laws es, of cursor])
      case (1 m)
      then show ?thesis by (subst replay_loop.simps) simp
    next
      case (2 xs)
      have "2 ^ 64 - unat (page_cursor 0 200 xs) < 2 ^ 64 - unat cursor" if "page_cursor 0 200 xs \<noteq> 0"
        using 2(3) [OF that] unat_lt2p [of cursor] by (simp add: word_less_nat_alt diff_less_mono2)
      with less 2(2) show ?thesis
        by (subst replay_loop.simps) (auto split: watch_phase.splits)
    qed
  qed
  then have "\<exists>q. (if 0 < from_seq then replay_loop E gone dbs 0 from_seq [] None else Some (Going [] None)) = Some q" by simp
  then show ?thesis by (auto simp: rpc_watch_def split: watch_phase.splits option.splits)
qed

section \<open>The stream is complete when broadcasts are in order\<close>

abbreviation items :: "log_entry list \<Rightarrow> watch_item list" where
  "items es \<equiv> map (\<lambda>e. Inr (entry_of e)) es"

definition last_seq :: "log_entry list \<Rightarrow> u64 option" where
  "last_seq es = (if es = [] then None else Some (le_seq (last es)))"

lemma last_seq_append: "last_seq (xs @ ys) = (if ys = [] then last_seq xs else last_seq ys)"
  by (simp add: last_seq_def)

lemma send_page_all:
  "send_page (\<lambda>_. False) es out l = Going (out @ items es) (if es = [] then l else last_seq es)"
  by (induction es arbitrary: out l) (simp_all add: last_seq_def)

text \<open>
  \<open>dbs i\<close> holds the first \<open>k i\<close> entries of the log \<open>es\<close>, where \<open>k\<close> grows: the log as it is seen by a task
  that runs while others append.
\<close>

definition growing_log :: "'d env \<Rightarrow> ('d \<Rightarrow> families) \<Rightarrow> (nat \<Rightarrow> 'd db) \<Rightarrow> (nat \<Rightarrow> nat) \<Rightarrow> log_entry list \<Rightarrow> bool" where
  "growing_log E view dbs k es \<longleftrightarrow> rocks_laws (e_rocks E) view \<and> codec_laws (e_codec E) \<and>
     sorted_wrt (\<lambda>a b. le_seq a < le_seq b) es \<and> mono k \<and> (\<forall>i. k i \<le> length es) \<and>
     (\<forall>i. log_rel (e_codec E) (e_sha E) view (dbs i) (take (k i) es))"

lemma filter_upto_cursor:
  assumes sorted: "sorted_wrt (\<lambda>a b. le_seq a < le_seq b) es" and y: "y \<in> set (take j es)" and "j \<le> j'" and nz: "le_seq y + 1 \<noteq> 0"
  shows "filter (\<lambda>e. P e \<and> le_seq e < le_seq y + 1) (take j' es) = filter (\<lambda>e. P e \<and> le_seq e < le_seq y + 1) (take j es)"
proof -
  have split: "take j' es = take j es @ drop j (take j' es)"
    using assms(3) by (metis append_take_drop_id min.absorb1 take_take)
  have "\<not> le_seq x < le_seq y + 1" if "x \<in> set (drop j (take j' es))" for x
  proof -
    have "x \<in> set (drop j es)" using that by (metis drop_take in_set_takeD)
    moreover have "sorted_wrt (\<lambda>a b. le_seq a < le_seq b) (take j es @ drop j es)" using sorted by simp
    ultimately have "le_seq y < le_seq x" using y by (auto simp: sorted_wrt_append simp del: append_take_drop_id)
    then show ?thesis using u64_Suc_le_iff [OF nz, of "le_seq x"] by auto
  qed
  then have "filter (\<lambda>e. P e \<and> le_seq e < le_seq y + 1) (drop j (take j' es)) = []" by (auto simp: filter_empty_conv)
  then show ?thesis by (subst split) (simp del: append_take_drop_id)
qed

lemma filter_split_at:
  assumes "sorted_wrt (\<lambda>a b. le_seq a < le_seq b) xs" and "from_seq \<le> cursor"
  shows "filter (\<lambda>e. from_seq \<le> le_seq e) xs =
    filter (\<lambda>e. from_seq \<le> le_seq e \<and> le_seq e < cursor) xs @ filter (\<lambda>e. cursor \<le> le_seq e) xs"
  using assms(1)
proof (induction xs)
  case (Cons x xs)
  show ?case
  proof (cases "le_seq x < cursor")
    case True
    with Cons show ?thesis by (auto simp: not_le)
  next
    case False
    then have "filter (\<lambda>e. from_seq \<le> le_seq e \<and> le_seq e < cursor) xs = []"
      using Cons.prems by (auto simp: filter_empty_conv)
    moreover have "from_seq \<le> le_seq x" using False assms(2) by simp
    ultimately show ?thesis using False Cons by simp
  qed
qed simp

text \<open>After a full page, what has been sent is what the log of the next read holds below the new cursor.\<close>

lemma page_sent:
  assumes sorted: "sorted_wrt (\<lambda>a b. le_seq a < le_seq b) es" and le: "n \<le> n'"
    and sent: "filter (\<lambda>e. from_seq \<le> le_seq e) (take n es) = sent @ xs"
    and xs: "xs = filter (\<lambda>e. cursor \<le> le_seq e) (take n es)"
    and c: "page_cursor 0 200 xs \<noteq> 0" "from_seq \<le> page_cursor 0 200 xs"
  shows "sent @ take 200 xs = filter (\<lambda>e. from_seq \<le> le_seq e \<and> le_seq e < page_cursor 0 200 xs) (take n' es)"
proof -
  let ?c = "page_cursor 0 200 xs"
  have sorted_n: "sorted_wrt (\<lambda>a b. le_seq a < le_seq b) (take n es)" using sorted by (rule sorted_wrt_take)
  have full: "200 \<le> length xs" and eq: "?c = le_seq (xs ! 199) + 1"
    using c(1) by (auto simp: page_cursor_def Let_def split: if_splits)
  have y: "xs ! 199 \<in> set (take n es)" using full xs nth_mem [of 199 xs] by auto
  have r: "drop 200 xs = filter (\<lambda>e. ?c \<le> le_seq e) (take n es)"
    using page_cursor_complete [OF sorted_n, of xs cursor 0 "\<lambda>_. True" 200] xs c(1) by simp
  have all1: "filter (\<lambda>e. from_seq \<le> le_seq e) (take n es) =
      filter (\<lambda>e. from_seq \<le> le_seq e \<and> le_seq e < ?c) (take n es) @ drop 200 xs"
    unfolding r by (rule filter_split_at [OF sorted_n c(2)])
  have "(sent @ take 200 xs) @ drop 200 xs = sent @ xs" by (simp only: append.assoc append_take_drop_id)
  from trans [OF trans [OF this sent [symmetric]] all1] have "sent @ take 200 xs = filter (\<lambda>e. from_seq \<le> le_seq e \<and> le_seq e < ?c) (take n es)"
    by (simp only: append_same_eq)
  also have "\<dots> = filter (\<lambda>e. from_seq \<le> le_seq e \<and> le_seq e < ?c) (take n' es)"
    using filter_upto_cursor [OF sorted y le] c(1) unfolding eq by simp
  finally show ?thesis .
qed

lemma replay_collects:
  assumes log: "growing_log E view dbs k es"
    and out: "sent = filter (\<lambda>e. from_seq \<le> le_seq e \<and> le_seq e < cursor) (take (k i) es)" and from_c: "from_seq \<le> cursor"
    and run: "replay_loop E (\<lambda>_. False) dbs i cursor (items sent) (last_seq sent) = Some p"
  shows "(\<exists>j. i \<le> j \<and> p = Going (items (filter (\<lambda>e. from_seq \<le> le_seq e) (take (k j) es)))
        (last_seq (filter (\<lambda>e. from_seq \<le> le_seq e) (take (k j) es))))
    \<or> (\<exists>j m sent'. p = Returned (items sent' @ [Inl (CodeInternal, ''RocksDB error: '' @ m)])
        \<and> (\<exists>rest. filter (\<lambda>e. from_seq \<le> le_seq e) (take (k j) es) = sent' @ rest))"
  using out from_c run
proof (induction "2 ^ 64 - unat cursor" arbitrary: i cursor sent rule: less_induct)
  case less
  have laws: "rocks_laws (e_rocks E) view" "codec_laws (e_codec E)" and sorted: "sorted_wrt (\<lambda>a b. le_seq a < le_seq b) es"
    and mono: "mono k" and rel: "log_rel (e_codec E) (e_sha E) view (dbs i) (take (k i) es)"
    using log by (simp_all add: growing_log_def)
  let ?all = "filter (\<lambda>e. from_seq \<le> le_seq e) (take (k i) es)"
  have sorted_i: "sorted_wrt (\<lambda>a b. le_seq a < le_seq b) (take (k i) es)" using sorted by (rule sorted_wrt_take)
  have all: "?all = sent @ filter (\<lambda>e. cursor \<le> le_seq e) (take (k i) es)"
    unfolding less.prems(1) using sorted_i less.prems(2) by (rule filter_split_at)
  show ?case
  proof (cases rule: replay_page [OF laws rel, of cursor])
    case (1 m)
    then have "p = Returned (items sent @ [Inl (CodeInternal, ''RocksDB error: '' @ m)])"
      using less.prems(3) by (subst (asm) replay_loop.simps) (simp add: send_status_def)
    with all show ?thesis by blast
  next
    case (2 xs)
    let ?c = "page_cursor 0 200 xs"
    let ?sent = "sent @ take 200 xs"
    have page: "send_page (\<lambda>_. False) (take 200 xs) (items sent) (last_seq sent) = Going (items ?sent) (last_seq ?sent)"
      unfolding send_page_all last_seq_append by simp
    have step: "(if ?c = 0 then Some (Going (items ?sent) (last_seq ?sent))
        else replay_loop E (\<lambda>_. False) dbs (Suc i) ?c (items ?sent) (last_seq ?sent)) = Some p"
      using less.prems(3) unfolding replay_loop.simps [of E _ dbs i] 2(2) by (simp add: page split: if_splits)
    have rest: "drop 200 xs = (if ?c = 0 then [] else filter (\<lambda>e. ?c \<le> le_seq e) (take (k i) es))"
      using page_cursor_complete [OF sorted_i, of xs cursor 0 "\<lambda>_. True" 200] 2(1) by simp
    show ?thesis
    proof (cases "?c = 0")
      case True
      with rest have "take 200 xs = xs" by (metis append_take_drop_id append.right_neutral)
      with True step all 2(1) show ?thesis by auto
    next
      case False
      have from_c: "from_seq \<le> ?c" using 2(3) [OF False] less.prems(2) by simp
      have "?sent = filter (\<lambda>e. from_seq \<le> le_seq e \<and> le_seq e < ?c) (take (k (Suc i)) es)"
        using all unfolding 2(1) [symmetric] by (intro page_sent [OF sorted _ _ 2(1) False from_c]) (simp_all add: monoD [OF mono])
      moreover note from_c
      moreover have "2 ^ 64 - unat ?c < 2 ^ 64 - unat cursor"
        using 2(3) [OF False] unat_lt2p [of cursor] by (simp add: word_less_nat_alt diff_less_mono2)
      ultimately have "(\<exists>j. Suc i \<le> j \<and> p = Going (items (filter (\<lambda>e. from_seq \<le> le_seq e) (take (k j) es)))
          (last_seq (filter (\<lambda>e. from_seq \<le> le_seq e) (take (k j) es))))
        \<or> (\<exists>j m sent'. p = Returned (items sent' @ [Inl (CodeInternal, ''RocksDB error: '' @ m)])
          \<and> (\<exists>rest. filter (\<lambda>e. from_seq \<le> le_seq e) (take (k j) es) = sent' @ rest))"
        using less.hyps [of ?c ?sent "Suc i"] step False by simp
      then show ?thesis using Suc_leD by blast
    qed
  qed
qed

abbreviation deliveries :: "log_entry list \<Rightarrow> recv list" where
  "deliveries es \<equiv> map (\<lambda>e. Got (entry_of e)) es"

lemma en_seq_entry_of [simp]: "en_seq (entry_of e) = le_seq e"
  by (simp add: entry_of_def)

lemma live_all:
  "sorted_wrt (\<lambda>a b. le_seq a < le_seq b) es \<Longrightarrow> (\<And>e s. e \<in> set es \<Longrightarrow> l = Some s \<Longrightarrow> s < le_seq e) \<Longrightarrow>
   live_loop (\<lambda>_. False) (deliveries es) out l = Going (out @ items es) (if es = [] then l else last_seq es)"
proof (induction es arbitrary: out l)
  case (Cons e es)
  have "\<not> (case l of None \<Rightarrow> False | Some s \<Rightarrow> le_seq e \<le> s)"
    using Cons.prems(2) [of e] by (auto split: option.splits)
  moreover have "live_loop (\<lambda>_. False) (deliveries es) (out @ [Inr (entry_of e)]) (Some (le_seq e)) =
      Going ((out @ [Inr (entry_of e)]) @ items es) (if es = [] then Some (le_seq e) else last_seq es)"
    using Cons.prems(1) by (intro Cons.IH) auto
  ultimately show ?case by (cases l) (simp_all add: last_seq_def)
qed simp

lemma live_skip:
  "(\<And>e. e \<in> set es \<Longrightarrow> le_seq e \<le> s) \<Longrightarrow>
   live_loop gone (deliveries es @ evs) out (Some s) = live_loop gone evs out (Some s)"
  by (induction es) simp_all

lemma sorted_take_drop:
  assumes "sorted_wrt (\<lambda>a b. le_seq a < le_seq b) es" and "x \<in> set (take j es)" and "y \<in> set (drop j es)"
  shows "le_seq x < le_seq y"
proof -
  have "sorted_wrt (\<lambda>a b. le_seq a < le_seq b) (take j es @ drop j es)" using assms(1) by simp
  with assms(2,3) show ?thesis by (auto simp: sorted_wrt_append simp del: append_take_drop_id)
qed

lemma live_after_replay:
  assumes sorted: "sorted_wrt (\<lambda>a b. le_seq a < le_seq b) es" and n: "n \<le> j"
    and new: "\<And>e. e \<in> set (drop n es) \<Longrightarrow> from_seq \<le> le_seq e"
    and sent: "sent = filter (\<lambda>e. from_seq \<le> le_seq e) (take j es)"
  shows "\<exists>l. live_loop (\<lambda>_. False) (deliveries (drop n es)) (items sent) (last_seq sent) =
    Going (items (filter (\<lambda>e. from_seq \<le> le_seq e) es)) l"
proof -
  have dsplit: "drop n es = drop n (take j es) @ drop j es"
  proof -
    have "drop n (take j es @ drop j es) = drop n (take j es) @ drop (n - length (take j es)) (drop j es)" by (rule drop_append)
    with n show ?thesis by (cases "j \<le> length es") (simp_all add: min_def)
  qed
  have later: "filter (\<lambda>e. from_seq \<le> le_seq e) (drop j es) = drop j es"
    using new dsplit by (auto simp: filter_id_conv)
  have target: "filter (\<lambda>e. from_seq \<le> le_seq e) es = sent @ drop j es"
  proof -
    have "filter (\<lambda>e. from_seq \<le> le_seq e) es =
        filter (\<lambda>e. from_seq \<le> le_seq e) (take j es) @ filter (\<lambda>e. from_seq \<le> le_seq e) (drop j es)"
      by (metis append_take_drop_id filter_append)
    then show ?thesis by (simp only: sent later)
  qed
  have mid: "e \<in> set sent" if "e \<in> set (drop n (take j es))" for e
    using that new [of e] in_set_dropD [OF that] dsplit by (auto simp: sent)
  have sd: "sorted_wrt (\<lambda>a b. le_seq a < le_seq b) (drop j es)" using sorted by (rule sorted_wrt_drop)
  show ?thesis
  proof (cases "sent = []")
    case True
    then have "drop n (take j es) = []" using mid by (metis list.set_intros(1) list.set(1) empty_iff neq_Nil_conv)
    with True target dsplit live_all [OF sd, of None "[]"] show ?thesis by (simp add: last_seq_def)
  next
    case False
    let ?s = "le_seq (last sent)"
    have ss: "sorted_wrt (\<lambda>a b. le_seq a < le_seq b) sent" using sorted by (simp add: sent sorted_wrt_filter sorted_wrt_take)
    have "le_seq e \<le> ?s" if "e \<in> set (drop n (take j es))" for e by (rule sorted_last_max [OF ss mid [OF that]])
    then have "live_loop (\<lambda>_. False) (deliveries (drop n es)) (items sent) (Some ?s) =
        live_loop (\<lambda>_. False) (deliveries (drop j es)) (items sent) (Some ?s)"
      unfolding dsplit map_append by (rule live_skip)
    moreover have "last sent \<in> set (take j es)" using last_in_set [OF False] by (simp add: sent)
    then have "?s < le_seq e" if "e \<in> set (drop j es)" for e using sorted_take_drop [OF sorted _ that] by blast
    then have "live_loop (\<lambda>_. False) (deliveries (drop j es)) (items sent) (Some ?s) =
        Going (items sent @ items (drop j es)) (if drop j es = [] then Some ?s else last_seq (drop j es))"
      by (intro live_all [OF sd]) auto
    ultimately show ?thesis using False target by (simp add: last_seq_def)
  qed
qed

text \<open>
  C19. The stream is complete: suppose the broadcasts arrive in log order, one for each entry appended
  since the subscription (the entries of \<open>es\<close> from the \<open>n\<close>-th on), and the client stays. With
  \<open>from_seq = 0\<close> the client receives exactly the new entries; with a positive \<open>from_seq\<close> not beyond the end
  of the log it receives every entry numbered \<open>from_seq\<close> or above exactly once and in order, across the change
  from replay to live. The only other outcome is a prefix of that followed by a storage error.
\<close>

theorem watch_complete:
  assumes log: "growing_log E view dbs k es" and sub: "n \<le> k 0"
    and new: "\<forall>e \<in> set (drop n es). from_seq \<le> le_seq e"
    and run: "rpc_watch E (\<lambda>_. False) dbs from_seq (deliveries (drop n es)) = Some p"
    and all: "all = (if from_seq = 0 then drop n es else filter (\<lambda>e. from_seq \<le> le_seq e) es)"
  shows "(\<exists>l. p = Going (items all) l)
    \<or> (\<exists>m sent rest. p = Returned (items sent @ [Inl (CodeInternal, ''RocksDB error: '' @ m)]) \<and> all = sent @ rest)"
proof (cases "from_seq = 0")
  case True
  have "sorted_wrt (\<lambda>a b. le_seq a < le_seq b) (drop n es)" using log by (simp add: growing_log_def sorted_wrt_drop)
  with True run all live_all [of "drop n es" None "[]"] show ?thesis by (auto simp: rpc_watch_def)
next
  case False
  let ?P = "\<lambda>e. from_seq \<le> le_seq e"
  have sorted: "sorted_wrt (\<lambda>a b. le_seq a < le_seq b) es" and mono: "mono k" using log by (simp_all add: growing_log_def)
  from False run obtain q where q: "replay_loop E (\<lambda>_. False) dbs 0 from_seq [] None = Some q"
    and p: "p = (case q of Returned out \<Rightarrow> Returned out | Going out l \<Rightarrow> live_loop (\<lambda>_. False) (deliveries (drop n es)) out l)"
    by (auto simp: rpc_watch_def word_gt_0 split: option.splits watch_phase.splits)
  have "[] = filter (\<lambda>e. from_seq \<le> le_seq e \<and> le_seq e < from_seq) (take (k 0) es)"
    by (rule sym) (auto simp: filter_empty_conv)
  then have "(\<exists>j. 0 \<le> j \<and> q = Going (items (filter ?P (take (k j) es))) (last_seq (filter ?P (take (k j) es))))
    \<or> (\<exists>j m sent'. q = Returned (items sent' @ [Inl (CodeInternal, ''RocksDB error: '' @ m)])
        \<and> (\<exists>rest. filter ?P (take (k j) es) = sent' @ rest))"
    by (rule replay_collects [OF log]) (use q in \<open>simp_all add: last_seq_def\<close>)
  then show ?thesis
  proof (elim disjE exE conjE)
    fix j assume j: "q = Going (items (filter ?P (take (k j) es))) (last_seq (filter ?P (take (k j) es)))"
    have "n \<le> k j" using sub monoD [OF mono, of 0 j] by simp
    from live_after_replay [OF sorted this _ refl] new j p all False show ?thesis by auto
  next
    fix j m sent' rest assume j: "q = Returned (items sent' @ [Inl (CodeInternal, ''RocksDB error: '' @ m)])"
      and r: "filter ?P (take (k j) es) = sent' @ rest"
    have "filter ?P es = sent' @ (rest @ filter ?P (drop (k j) es))"
      by (metis append.assoc append_take_drop_id filter_append r)
    with p j all False show ?thesis by auto
  qed
qed

section \<open>Out-of-order broadcasts are lost\<close>

lemma commit_append_limiter: "commit_append E now key data st = (st', r) \<Longrightarrow> st_limiter st' = st_limiter st"
  by (auto simp: commit_append_def Let_def split: prod.splits sum.splits exn.splits if_splits)

text \<open>
  C39. Lost entries: two handlers commit one after the other but broadcast in the opposite order, which
  the code allows because the broadcast happens after the lock is released. A watcher that follows the
  live stream then receives the second entry and never the first, although both are in the log.
\<close>

theorem watch_drops_out_of_order:
  assumes inv: "core_inv E view st es hs" and room: "has_room 2 st" and free: "st_limiter st = None"
    and c1: "commit_append E now1 k1 d1 st = (st1, Inr en1)" and c2: "commit_append E now2 k2 d2 st1 = (st2, Inr en2)"
  shows "\<exists>m e1 e2. (mstep E)\<^sup>*\<^sup>* \<lparr>mc_st = st, mc_jobs = []\<rparr> m \<and> st_watch (mc_st m) = st_watch st @ [en2, en1]
    \<and> log_rel (e_codec E) (e_sha E) view (st_db (mc_st m)) (es @ [e1, e2]) \<and> en1 = entry_of e1 \<and> en2 = entry_of e2
    \<and> live_loop (\<lambda>_. False) [Got en2, Got en1] [] None = Going [Inr en2] (Some (en_seq en2))"
proof -
  let ?n = "next_seq (st_db st)"
  have r1: "unat ?n + 1 < 2 ^ 64" using room by (simp add: has_room_def)
  obtain e1 where e1: "e1 = new_entry (e_sha E) (word_of_int now1) ?n k1 d1" "en1 = entry_of e1"
    and inv1: "core_inv E view st1 (es @ [e1]) hs" and n1: "next_seq (st_db st1) = ?n + 1"
    by (cases rule: commit_append_cases [OF inv r1 c1]) auto
  have un: "unat (?n + 1) = unat ?n + 1" using unat_next_seq_add [of ?n 1] r1 by simp
  then have r2: "unat (next_seq (st_db st1)) + 1 < 2 ^ 64" using room n1 by (simp add: has_room_def)
  obtain e2 where e2: "e2 = new_entry (e_sha E) (word_of_int now2) (next_seq (st_db st1)) k2 d2" "en2 = entry_of e2"
    and inv2: "core_inv E view st2 ((es @ [e1]) @ [e2]) hs"
    by (cases rule: commit_append_cases [OF inv1 r2 c2]) auto
  have lt: "en_seq en1 < en_seq en2" using e1 e2 n1 un by (simp add: word_less_nat_alt)
  have free1: "st_limiter st1 = None" using commit_append_limiter [OF c1] free by simp
  let ?pub = "publish [en1] (publish [en2] st2)"
  have "mstep E \<lparr>mc_st = st, mc_jobs = []\<rparr> \<lparr>mc_st = st1, mc_jobs = [Broadcast [en1]]\<rparr>"
    by (rule mstep.append [OF _ _ c1]) (use free r1 in \<open>simp_all add: take_tokens_def has_room_def\<close>)
  moreover have "mstep E \<lparr>mc_st = st1, mc_jobs = [Broadcast [en1]]\<rparr> \<lparr>mc_st = st2, mc_jobs = [] @ Broadcast [en2] # [Broadcast [en1]]\<rparr>"
    unfolding append_Nil by (rule mstep.append [OF _ _ c2]) (use free1 r2 in \<open>simp_all add: take_tokens_def has_room_def\<close>)
  moreover have "mstep E \<lparr>mc_st = st2, mc_jobs = [] @ Broadcast [en2] # [Broadcast [en1]]\<rparr>
      \<lparr>mc_st = publish [en2] st2, mc_jobs = [] @ Broadcast [] # [Broadcast [en1]]\<rparr>" by (rule mstep.broadcast)
  moreover have "mstep E \<lparr>mc_st = publish [en2] st2, mc_jobs = [Broadcast []] @ Broadcast [en1] # []\<rparr>
      \<lparr>mc_st = ?pub, mc_jobs = [Broadcast []] @ Broadcast [] # []\<rparr>" by (rule mstep.broadcast)
  ultimately have "(mstep E)\<^sup>*\<^sup>* \<lparr>mc_st = st, mc_jobs = []\<rparr> \<lparr>mc_st = ?pub, mc_jobs = [Broadcast []] @ Broadcast [] # []\<rparr>"
    by (metis (no_types, lifting) append_Cons append_Nil converse_rtranclp_into_rtranclp rtranclp.rtrancl_refl)
  moreover have "st_watch ?pub = st_watch st @ [en2, en1]"
    using commit_append_watch [OF c1] commit_append_watch [OF c2] by (simp add: publish_def)
  moreover have "log_rel (e_codec E) (e_sha E) view (st_db ?pub) (es @ [e1, e2])"
    using core_invD(4) [OF inv2] by (simp add: publish_def)
  moreover have "live_loop (\<lambda>_. False) [Got en2, Got en1] [] None = Going [Inr en2] (Some (en_seq en2))"
    using lt by simp
  ultimately show ?thesis using e1(2) e2(2) by (metis machine.select_convs(1))
qed

section \<open>The theorems on concrete inputs\<close>

lemma sample_growing_log:
  "growing_log mem_env (\<lambda>d. d) (\<lambda>_. st_db sample_state1) (\<lambda>_. 1) [new_entry toy_sha 5 0 [1] [2]]"
  using server_invD(1,2,4) [OF sample_state1_inv(1)] by (simp add: growing_log_def mono_def)

theorem watch_replay_returns_witness:
  "\<exists>p. rpc_watch mem_env (\<lambda>k. k = 3) (\<lambda>_. st_db sample_state1) 1 [Got (entry_of (new_entry toy_sha 5 0 [1] [2]))] = Some p"
  by (rule watch_replay_returns [of mem_env "\<lambda>d. d"])
    (use server_invD(1,2,4) [OF sample_state1_inv(1)] in auto)

lemma sample_watch_run:
  "rpc_watch mem_env (\<lambda>_. False) (\<lambda>_. st_db sample_state1) 0 (deliveries (drop 0 [new_entry toy_sha 5 0 [1] [2]])) =
    Some (Going [Inr (entry_of (new_entry toy_sha 5 0 [1] [2]))] (Some 0))"
  by (simp add: rpc_watch_def)

theorem watch_complete_witness:
  "(\<exists>l. Going [Inr (entry_of (new_entry toy_sha 5 0 [1] [2]))] (Some 0) = Going (items (drop 0 [new_entry toy_sha 5 0 [1] [2]])) l)
    \<or> (\<exists>m sent rest. Going [Inr (entry_of (new_entry toy_sha 5 0 [1] [2]))] (Some 0) =
         Returned (items sent @ [Inl (CodeInternal, ''RocksDB error: '' @ m)]) \<and> drop 0 [new_entry toy_sha 5 0 [1] [2]] = sent @ rest)"
  by (rule watch_complete [OF sample_growing_log _ _ sample_watch_run]) simp_all

lemma sample_commit2:
  "\<exists>st2 en2. commit_append mem_env 6 [3] [4] sample_state1 = (st2, Inr en2)"
proof -
  have inv: "core_inv mem_env (\<lambda>d. d) sample_state1 [new_entry toy_sha 5 0 [1] [2]] []"
    using sample_state1_inv(1) by (simp add: server_inv_core)
  have sha: "e_sha mem_env = toy_sha" by (simp add: mem_env_def)
  from mt.rel_append [OF core_invD(7) [OF inv, unfolded sha], of "leaf_hash toy_sha [4]"]
  obtain m i where m: "(mt_append toy_sha (st_merkle sample_state1) (leaf_hash toy_sha [4]) :: (status, merkle_tree \<times> u64) result) = Inr (m, i)"
    by auto
  obtain db' n where l: "ls_append mem_rocks mem_codec toy_sha 6 [3] [4] (st_db sample_state1) = (db', Inr (n, 6))"
    by (simp add: ls_append_def mem_rocks_def mem_codec_def timestamp_of_def Let_def)
  have np: "\<not> st_poisoned sample_state1" by (simp add: sample_state1_def sample_state_def)
  show ?thesis using m l np by (simp add: commit_append_def mem_env_def Let_def)
qed

theorem watch_drops_out_of_order_witness:
  "\<exists>en1 en2 m e1 e2. (mstep mem_env)\<^sup>*\<^sup>* \<lparr>mc_st = sample_state, mc_jobs = []\<rparr> m \<and> st_watch (mc_st m) = st_watch sample_state @ [en2, en1]
    \<and> log_rel (e_codec mem_env) (e_sha mem_env) (\<lambda>d. d) (st_db (mc_st m)) ([] @ [e1, e2]) \<and> en1 = entry_of e1 \<and> en2 = entry_of e2
    \<and> live_loop (\<lambda>_. False) [Got en2, Got en1] [] None = Going [Inr en2] (Some (en_seq en2))"
proof -
  have inv: "core_inv mem_env (\<lambda>d. d) sample_state [] []" using sample_state_inv(1) by (simp add: server_inv_core)
  have room: "has_room 2 sample_state" and free: "st_limiter sample_state = None"
    by (simp_all add: has_room_def sample_state_def)
  from sample_commit2 obtain st2 en2 where "commit_append mem_env 6 [3] [4] sample_state1 = (st2, Inr en2)" by blast
  from watch_drops_out_of_order [OF inv room free sample_commit this] show ?thesis by blast
qed

end
