(* ===== verification/Server_Refine.thy ===== *)
theory Server_Refine
  imports Server_Machine
begin

text \<open>
  What the server promises, as a specification without storage, signing or concurrency: a transparent log
  is a list of records to which records are added at the end, and a table of certified roots, in which
  only the root of a prefix of the list can be entered. The server, with all its handlers and signing
  cycles interleaved, is a refinement of it.
\<close>

section \<open>The specification\<close>

record tlog =
  tl_data :: "(bytes \<times> bytes) list"
  tl_roots :: "u64 \<rightharpoonup> hash"

definition prefix_root :: "sha256 \<Rightarrow> (bytes \<times> bytes) list \<Rightarrow> u64 \<Rightarrow> hash" where
  "prefix_root sha data n = MTH (node_hash sha) (map (\<lambda>(key, data). leaf_hash sha data) (take (unat n) data))"

inductive tstep :: "sha256 \<Rightarrow> tlog \<Rightarrow> tlog \<Rightarrow> bool" for sha :: sha256 where
  accept: "tstep sha t (t\<lparr>tl_data := tl_data t @ new\<rparr>)"
| certify: "0 < n \<Longrightarrow> unat n \<le> length (tl_data t) \<Longrightarrow>
    tstep sha t (t\<lparr>tl_roots := (tl_roots t)(n \<mapsto> prefix_root sha (tl_data t) n)\<rparr>)"

text \<open>A certified root is the root of the prefix, and stays so; the list and the table only grow.\<close>

definition tlog_ok :: "sha256 \<Rightarrow> tlog \<Rightarrow> bool" where
  "tlog_ok sha t \<longleftrightarrow> (\<forall>n r. tl_roots t n = Some r \<longrightarrow>
     0 < n \<and> unat n \<le> length (tl_data t) \<and> r = prefix_root sha (tl_data t) n)"

definition tlog_le :: "tlog \<Rightarrow> tlog \<Rightarrow> bool" where
  "tlog_le t t' \<longleftrightarrow> (\<exists>new. tl_data t' = tl_data t @ new) \<and> tl_roots t \<subseteq>\<^sub>m tl_roots t'"

lemma prefix_root_append: "unat n \<le> length data \<Longrightarrow> prefix_root sha (data @ new) n = prefix_root sha data n"
  by (simp add: prefix_root_def)

lemma tstep_ok: "tstep sha t t' \<Longrightarrow> tlog_ok sha t \<Longrightarrow> tlog_ok sha t' \<and> tlog_le t t'"
  by (induction rule: tstep.induct)
    (auto simp: tlog_ok_def tlog_le_def prefix_root_append map_le_def intro: trans_le_add1 split: if_splits)

interpretation spec: growing_system "tstep sha" "\<lambda>s t. s = t \<and> tlog_ok sha t" tlog_le for sha
proof
  show "\<exists>a'. (s' = a' \<and> tlog_ok sha a') \<and> tlog_le\<^sup>=\<^sup>= a a'" if "tstep sha s s'" "s = a \<and> tlog_ok sha a" for s s' a
    using tstep_ok [OF that(1)] that(2) by auto
  show "tlog_le a a" for a by (auto simp: tlog_le_def)
  show "tlog_le a b \<Longrightarrow> tlog_le b c \<Longrightarrow> tlog_le a c" for a b c
    by (auto simp: tlog_le_def intro: map_le_trans)
qed

section \<open>The abstraction\<close>

definition tlog_of :: "log_entry list \<Rightarrow> signed_tree_head list \<Rightarrow> tlog" where
  "tlog_of es hs = \<lparr>tl_data = map (\<lambda>e. (le_key e, le_data e)) es,
     tl_roots = (\<lambda>n. map_option sth_root_hash (find (\<lambda>s. sth_tree_size s = n) hs))\<rparr>"

lemma prefix_root_of:
  assumes "core_inv E view st es hs" and "unat n \<le> length es"
  shows "prefix_root (e_sha E) (map (\<lambda>e. (le_key e, le_data e)) es) n = MTH (node_hash (e_sha E)) (map le_leaf_hash (take (unat n) es))"
proof -
  have "map le_leaf_hash (take (unat n) es) = map (leaf_hash (e_sha E) \<circ> le_data) (take (unat n) es)"
    using stored_leaf [OF assms(1)] assms(2) by (intro nth_equalityI) simp_all
  then show ?thesis by (simp only: prefix_root_def take_map map_map comp_def case_prod_conv)
qed

lemma advances_tstep:
  assumes adv: "advances E (es, hs) (es', hs')" and core: "core_inv E view st es hs"
  shows "tstep (e_sha E) (tlog_of es hs) (tlog_of es' hs')"
  using adv
proof (cases rule: advances.cases)
  case (grow added)
  then show ?thesis using tstep.accept [of "e_sha E" "tlog_of es hs" "map (\<lambda>e. (le_key e, le_data e)) added"] by (simp add: tlog_of_def)
next
  case (sign s)
  have ok: "0 < sth_tree_size s" "unat (sth_tree_size s) \<le> length es"
    "sth_root_hash s = prefix_root (e_sha E) (tl_data (tlog_of es hs)) (sth_tree_size s)"
    using sign(3) prefix_root_of [OF core] by (simp_all add: root_ok_def tlog_of_def)
  have "tlog_of es' hs' = (tlog_of es hs)\<lparr>tl_roots := (tl_roots (tlog_of es hs))(sth_tree_size s \<mapsto> sth_root_hash s)\<rparr>"
    using sign(1,2) by (auto simp: tlog_of_def find_upd_by fun_eq_iff)
  with tstep.certify [of "sth_tree_size s" "tlog_of es hs" "e_sha E"] ok show ?thesis by (simp add: tlog_of_def)
qed

interpretation refined: simulation "mstep E"
  "\<lambda>m t. \<exists>es hs. machine_inv E view base n m (es, hs) \<and> t = tlog_of es hs" "tstep (e_sha E)" for E view base n
proof
  fix s s' t
  assume step: "mstep E s s'" and "\<exists>es hs. machine_inv E view base n s (es, hs) \<and> t = tlog_of es hs"
  then obtain es hs where inv: "machine_inv E view base n s (es, hs)" and t: "t = tlog_of es hs" by blast
  from mstep_advances [OF step inv] obtain es' hs' where "machine_inv E view base n s' (es', hs')" "advances E (es, hs) (es', hs')" by auto
  with advances_tstep [of E es hs es' hs' view "mc_st s"] inv t
  show "\<exists>t'. (\<exists>es hs. machine_inv E view base n s' (es, hs) \<and> t' = tlog_of es hs) \<and> (tstep (e_sha E))\<^sup>=\<^sup>= t t'" by auto
qed

lemma tlog_of_ok:
  assumes "core_inv E view st es hs"
  shows "tlog_ok (e_sha E) (tlog_of es hs)"
  using core_invD(6) [OF assms] prefix_root_of [OF assms]
  by (auto simp: tlog_ok_def tlog_of_def find_Some_iff root_ok_def)

section \<open>Property\<close>

text \<open>
  C5. The server refines the transparent log: every run of the server, with any interleaving of requests,
  signing cycles and rotations, is a run of the specification from the abstraction of the first state
  to the abstraction of the last one. The certified roots are those of prefixes and are never withdrawn or
  replaced, and what the store returns for a size or a number is what the specification has, unless
  RocksDB reports an error.
\<close>

theorem server_refines_tlog:
  assumes core: "core_inv E view (mc_st m) es hs" and idle: "mc_jobs m = []" and run: "(mstep E)\<^sup>*\<^sup>* m m'"
  shows "\<exists>es' hs'. core_inv E view (mc_st m') es' hs'
    \<and> (tstep (e_sha E))\<^sup>*\<^sup>* (tlog_of es hs) (tlog_of es' hs')
    \<and> tlog_ok (e_sha E) (tlog_of es' hs') \<and> tlog_le (tlog_of es hs) (tlog_of es' hs')
    \<and> (\<forall>a. \<exists>x. yields (hs_at_size (e_rocks E) (e_codec E) (st_db (mc_st m')) a) x
        \<and> map_option sth_root_hash x = tl_roots (tlog_of es' hs') a)
    \<and> (\<forall>i < length es'. \<exists>e. yields (ls_get_by_seq (e_rocks E) (e_codec E) (st_db (mc_st m')) (le_seq (es' ! i))) (Some e)
        \<and> (le_key e, le_data e) = tl_data (tlog_of es' hs') ! i)"
proof -
  have "machine_inv E view (announced m) (length es) m (es, hs)" using core idle by (simp add: announced_def)
  then obtain es' hs' where inv': "machine_inv E view (announced m) (length es) m' (es', hs')"
    and run': "(tstep (e_sha E))\<^sup>*\<^sup>* (tlog_of es hs) (tlog_of es' hs')"
    using refined.run_matched [OF run, of view "announced m" "length es" "tlog_of es hs"] by blast
  have core': "core_inv E view (mc_st m') es' hs'" using inv' by simp
  note D = core_invD [OF core']
  have "tlog_ok (e_sha E) (tlog_of es' hs') \<and> tlog_le (tlog_of es hs) (tlog_of es' hs')"
    using spec.run_climbs [OF run'] tlog_of_ok [OF core] by auto
  moreover have "\<exists>x. yields (hs_at_size (e_rocks E) (e_codec E) (st_db (mc_st m')) a) x
      \<and> map_option sth_root_hash x = tl_roots (tlog_of es' hs') a" for a
    using hs_at_size_yields [OF D(1,2,5), of a] by (auto simp: tlog_of_def)
  moreover have "yields (ls_get_by_seq (e_rocks E) (e_codec E) (st_db (mc_st m')) (le_seq (es' ! i))) (Some (es' ! i))"
    if "i < length es'" for i
    using ls_get_by_seq_yields [OF D(1,2,4), of "le_seq (es' ! i)"] find_sorted_seq [OF log_rel_sorted [OF D(4)] nth_mem [OF that]] by simp
  ultimately show ?thesis using core' run' by (intro exI [of _ es'] exI [of _ hs']) (auto simp: tlog_of_def)
qed

theorem server_refines_tlog_witness:
  "\<exists>es' hs'. core_inv mem_env (\<lambda>d. d) signed_state es' hs'
    \<and> (tstep (e_sha mem_env))\<^sup>*\<^sup>* (tlog_of [] []) (tlog_of es' hs') \<and> tlog_ok (e_sha mem_env) (tlog_of es' hs')"
proof -
  have core: "core_inv mem_env (\<lambda>d. d) (mc_st \<lparr>mc_st = sample_state, mc_jobs = []\<rparr>) [] []"
    using sample_state_inv(1) by (simp add: server_inv_core)
  have "(mstep mem_env)\<^sup>*\<^sup>* \<lparr>mc_st = sample_state, mc_jobs = []\<rparr>
      \<lparr>mc_st = signed_state, mc_jobs = [Broadcast [entry_of (new_entry toy_sha 5 0 [1] [2])]]\<rparr>"
    by (rule converse_rtranclp_into_rtranclp [OF sample_append_step sample_sign_steps])
  from server_refines_tlog [OF core _ this] show ?thesis by auto
qed

end
