(* ===== verification/Server_Admin.thy ===== *)
theory Server_Admin
  imports Server_Machine
begin

text \<open>
  The HTTP admin API (\<^verbatim>\<open>settled-server/src/admin.rs\<close>) and the loop of the signing task (\<open>run\<close> in
  \<^verbatim>\<open>sth_task.rs\<close>). A handler returns the value it would serialise to JSON, or a status code. The crate
  \<^verbatim>\<open>hex\<close> is a parameter. The loop is a function of what wakes it: each wake-up comes with the requests the
  server has handled since the last one. It returns the state, the errors it has logged and how it
  ended: still waiting, finished after the shutdown, or dead of a panic.
\<close>

type_synonym hex = "bytes \<Rightarrow> string"

record key_record_json =
  kj_version :: u32
  kj_public_key :: string
  kj_activated_at_tree_size :: u64

record sth_json =
  sj_tree_size :: u64
  sj_root_hash :: string
  sj_timestamp_ns :: i64
  sj_signature :: string
  sj_public_key :: string
  sj_key_version :: u32

record stats_json =
  sj_entry_count :: u64
  sj_stats_tree_size :: u64
  sj_last_sth_timestamp_ns :: "i64 option"

definition key_record_json_from :: "hex \<Rightarrow> key_record \<Rightarrow> key_record_json" where
  "key_record_json_from hex r = \<lparr>kj_version = kr_version r, kj_public_key = hex (to_vec (kr_public_key r)),
     kj_activated_at_tree_size = kr_activated_at_tree_size r\<rparr>"

definition sth_json_of :: "hex \<Rightarrow> signed_tree_head \<Rightarrow> sth_json" where
  "sth_json_of hex s = \<lparr>sj_tree_size = sth_tree_size s, sj_root_hash = hex (to_vec (sth_root_hash s)),
     sj_timestamp_ns = sth_timestamp_ns s, sj_signature = hex (to_vec (sth_signature s)),
     sj_public_key = hex (to_vec (sth_public_key s)), sj_key_version = sth_key_version s\<rparr>"

definition or_500 :: "('e, 'a) result \<Rightarrow> (http_status, 'a) result" where
  "or_500 r = map_err (\<lambda>_. InternalServerError) r"

section \<open>Handlers\<close>

definition health :: http_status where
  "health = StatusOk"

definition list_keys :: "hex \<Rightarrow> 'd env \<Rightarrow> 'd app_state \<Rightarrow> (http_status, key_record_json list) result" where
  "list_keys hex E st =
     bindR (or_500 (ks_all (e_rocks E) (e_codec E) (st_db st))) (\<lambda>records.
       Inr (map (key_record_json_from hex) records))"

definition rotate_key_json ::
  "hex \<Rightarrow> 'd env \<Rightarrow> signing_key \<Rightarrow> (string \<times> bytes option) option \<Rightarrow> 'd app_state \<Rightarrow>
   'd app_state \<times> (http_status, key_record_json) result" where
  "rotate_key_json hex E fresh wr st =
     (let (st, r) = rotate_key E fresh wr st in (st, bindR r (\<lambda>record. Inr (key_record_json_from hex record))))"

definition admin_get_sth :: "hex \<Rightarrow> 'd env \<Rightarrow> 'd app_state \<Rightarrow> (http_status, sth_json) result" where
  "admin_get_sth hex E st =
     bindR (or_500 (hs_latest (e_rocks E) (e_codec E) (st_db st))) (\<lambda>latest. case latest of
       None \<Rightarrow> Inl (Err NoContent)
     | Some sth \<Rightarrow> Inr (sth_json_of hex sth))"

definition stats :: "'d env \<Rightarrow> 'd app_state \<Rightarrow> (http_status, stats_json) result" where
  "stats E st =
     (let entry_count = ls_count (st_db st) in
      if st_poisoned st then Inl (Panic UnwrapFailed)
      else let tree_size = mt_size (st_merkle st) in
        bindR (or_500 (hs_latest (e_rocks E) (e_codec E) (st_db st))) (\<lambda>latest.
          Inr \<lparr>sj_entry_count = entry_count, sj_stats_tree_size = tree_size,
               sj_last_sth_timestamp_ns = map_option sth_timestamp_ns latest\<rparr>))"

definition force_sth :: "hex \<Rightarrow> 'd env \<Rightarrow> int \<Rightarrow> 'd app_state \<Rightarrow> 'd app_state \<times> (http_status, sth_json) result" where
  "force_sth hex E now st =
     (case sign_and_store E now st of (st, r) \<Rightarrow>
      (st, bindR (or_500 r) (\<lambda>_. admin_get_sth hex E st)))"

section \<open>The signing task\<close>

datatype request =
    ReqAppend int nat bytes bytes
  | ReqBatch int nat "(bytes \<times> bytes) list"
  | ReqRotate signing_key "(string \<times> bytes option) option"
  | ReqForce int

fun serve :: "hex \<Rightarrow> 'd env \<Rightarrow> request \<Rightarrow> 'd app_state \<Rightarrow> 'd app_state" where
  "serve hex E (ReqAppend now tick key data) st = fst (rpc_append E now tick key data st)"
| "serve hex E (ReqBatch now tick reqs) st = fst (rpc_batch_append E now tick reqs st)"
| "serve hex E (ReqRotate fresh wr) st = fst (rotate_key_json hex E fresh wr st)"
| "serve hex E (ReqForce now) st = fst (force_sth hex E now st)"

datatype wake = Elapsed int | ShutdownChanged int

datatype task_log = SigningFailed app_error | SigningFailedOnShutdown app_error

datatype task_end = Waiting | Finished | Died panic

fun sth_run ::
  "hex \<Rightarrow> 'd env \<Rightarrow> (request list \<times> wake) list \<Rightarrow> 'd app_state \<Rightarrow> task_log list \<Rightarrow> 'd app_state \<times> task_log list \<times> task_end" where
  "sth_run hex E [] st logged = (st, logged, Waiting)"
| "sth_run hex E ((reqs, Elapsed now) # ws) st logged =
     (case sign_and_store E now (fold (serve hex E) reqs st) of
        (st, Inl (Panic p)) \<Rightarrow> (st, logged, Died p)
      | (st, Inl (Err e)) \<Rightarrow> sth_run hex E ws st (logged @ [SigningFailed e])
      | (st, Inr _) \<Rightarrow> sth_run hex E ws st logged)"
| "sth_run hex E ((reqs, ShutdownChanged now) # ws) st logged =
     (case sign_and_store E now (fold (serve hex E) reqs st) of
        (st, Inl (Panic p)) \<Rightarrow> (st, logged, Died p)
      | (st, Inl (Err e)) \<Rightarrow> (st, logged @ [SigningFailedOnShutdown e], Finished)
      | (st, Inr _) \<Rightarrow> (st, logged, Finished))"

section \<open>What the admin API reports\<close>

lemma or_500_yields:
  assumes "yields r x"
  shows "or_500 r = Inr x \<or> or_500 r = Inl (Err InternalServerError)"
  using assms by (auto simp: yields_def or_500_def)

lemma last_head:
  assumes "core_inv E view st es hs" and "s \<in> set hs" and "sth_tree_size s = of_nat (length es)"
  shows "last hs = s"
proof -
  have "sth_tree_size s \<le> sth_tree_size (last hs)"
    by (rule sorted_last_max [OF heads_sorted [OF core_invD(5) [OF assms(1)]] assms(2)])
  moreover have "last hs \<in> set hs" using assms(2) by (cases hs) auto
  moreover from this have "sth_tree_size (last hs) \<le> of_nat (length es)" by (rule heads_below [OF assms(1)])
  ultimately have "sth_tree_size (last hs) = sth_tree_size s" using assms(3) by simp
  then show ?thesis using find_head [OF assms(1)] assms(2) \<open>last hs \<in> set hs\<close> by (metis option.inject)
qed

lemma no_heads_of_empty:
  assumes "core_inv E view st [] hs"
  shows "hs = []"
proof (rule ccontr)
  assume "hs \<noteq> []"
  then have "root_ok E [] (hd hs)" by (intro core_invD(6) [OF assms]) simp
  then show False by (auto simp: root_ok_def word_less_nat_alt)
qed

text \<open>
  The read-only admin handlers report the state: the key list is the key chain in ascending version
  order, \<^verbatim>\<open>/api/sth\<close> the head with the largest size or no content, and \<^verbatim>\<open>/api/stats\<close> the length of the log,
  twice, and the time of that head. Only an error of RocksDB makes them fail.
\<close>

theorem admin_reads_correct:
  assumes inv: "server_inv E view st es hs ks" and dense: "dense (st_db st) es" and np: "\<not> st_poisoned st"
  shows "(list_keys hex E st = Inr (map (key_record_json_from hex) ks) \<or> list_keys hex E st = Inl (Err InternalServerError))
    \<and> sorted_wrt (\<lambda>a b. kj_version a < kj_version b) (map (key_record_json_from hex) ks)
    \<and> (admin_get_sth hex E st = (if hs = [] then Inl (Err NoContent) else Inr (sth_json_of hex (last hs)))
       \<or> admin_get_sth hex E st = Inl (Err InternalServerError))
    \<and> (stats E st = Inr \<lparr>sj_entry_count = of_nat (length es), sj_stats_tree_size = of_nat (length es),
           sj_last_sth_timestamp_ns = (if hs = [] then None else Some (sth_timestamp_ns (last hs)))\<rparr>
       \<or> stats E st = Inl (Err InternalServerError))"
proof -
  note D = server_invD [OF inv]
  have keys: "or_500 (ks_all (e_rocks E) (e_codec E) (st_db st)) = Inr ks
      \<or> or_500 (ks_all (e_rocks E) (e_codec E) (st_db st)) = Inl (Err InternalServerError)"
    by (rule or_500_yields [OF ks_all_yields [OF D(1,2,6)]])
  have head: "or_500 (hs_latest (e_rocks E) (e_codec E) (st_db st)) = Inr (if hs = [] then None else Some (last hs))
      \<or> or_500 (hs_latest (e_rocks E) (e_codec E) (st_db st)) = Inl (Err InternalServerError)"
    by (rule or_500_yields [OF hs_latest_yields [OF D(1,2,5)]])
  have "list_keys hex E st = Inr (map (key_record_json_from hex) ks) \<or> list_keys hex E st = Inl (Err InternalServerError)"
    using keys by (auto simp: list_keys_def)
  moreover have "sorted_wrt (\<lambda>a b. kj_version a < kj_version b) (map (key_record_json_from hex) ks)"
    using keys_sorted [OF D(6)] by (simp add: sorted_wrt_map key_record_json_from_def)
  moreover have "admin_get_sth hex E st = (if hs = [] then Inl (Err NoContent) else Inr (sth_json_of hex (last hs)))
       \<or> admin_get_sth hex E st = Inl (Err InternalServerError)"
    using head by (auto simp: admin_get_sth_def)
  moreover have "mt_size (st_merkle st) = of_nat (length es)" using mt.rel_size [OF D(8)] by simp
  moreover have "next_seq (st_db st) = of_nat (length es)" using dense by (metis dense_def of_nat_unat ucast_id)
  ultimately show ?thesis using head np by (auto simp: stats_def ls_count_def Let_def)
qed

lemma force_sth_state: "fst (force_sth hex E now st) = fst (sign_and_store E now st)"
  by (simp add: force_sth_def split: prod.splits)

text \<open>
  C31. A forced signing cycle: it either fails with status 500, or finds the log empty and answers 204, or
  answers with a head that covers the whole log and that clients accept, directly and through the key
  chain. When the log is already covered the answer is the existing head, never 204.
\<close>

theorem force_sth_outcome:
  assumes inv: "server_inv E view st es hs ks" and ok: "\<not> st_poisoned st" "0 \<le> now"
    and run: "force_sth hex E now st = (st', r)"
  shows "\<exists>hs'. server_inv E view st' es hs' ks \<and> (\<exists>added. hs' = hs @ added) \<and>
    (r = Inl (Err InternalServerError) \<or> es = [] \<and> r = Inl (Err NoContent)
     \<or> (\<exists>s \<in> set hs'. r = Inr (sth_json_of hex s) \<and> sth_tree_size s = of_nat (length es)
          \<and> head_checks E ks (sth_root_hash s) (sth_to_proto s)))"
proof -
  obtain c where c: "sign_and_store E now st = (st', c)" and r: "r = bindR (or_500 c) (\<lambda>_. admin_get_sth hex E st')"
    using run by (auto simp: force_sth_def split: prod.splits)
  have core: "core_inv E view st es hs" using inv by (simp add: server_inv_core)
  obtain hs' where hs': "server_inv E view st' es hs' ks" "\<exists>added. hs' = hs @ added"
    and cover: "c = Inr () \<Longrightarrow> es \<noteq> [] \<Longrightarrow> \<exists>s \<in> set hs'. sth_tree_size s = of_nat (length es)"
    using sign_and_store_inv [OF inv c] by blast
  have core': "core_inv E view st' es hs'" using hs'(1) by (simp add: server_inv_core)
  note D = server_invD [OF hs'(1)]
  have "c = Inr () \<or> (\<exists>m. c = Inl (Err (AppStorage (RocksDb m))))"
    by (cases rule: sign_and_store_cases [OF core c]) (use ok in auto)
  moreover have "admin_get_sth hex E st' = (if hs' = [] then Inl (Err NoContent) else Inr (sth_json_of hex (last hs')))
      \<or> admin_get_sth hex E st' = Inl (Err InternalServerError)"
    using or_500_yields [OF hs_latest_yields [OF D(1,2,5)]] by (auto simp: admin_get_sth_def)
  ultimately consider "r = Inl (Err InternalServerError)"
    | "c = Inr ()" "r = (if hs' = [] then Inl (Err NoContent) else Inr (sth_json_of hex (last hs')))"
    using r by (auto simp: or_500_def)
  then show ?thesis
  proof cases
    case 1
    with hs' show ?thesis by blast
  next
    case 2
    show ?thesis
    proof (cases "es = []")
      case True
      then have "hs' = []" using no_heads_of_empty core' by simp
      with True hs' 2(2) show ?thesis by (intro exI [of _ hs']) simp
    next
      case False
      with cover 2(1) obtain s where s: "s \<in> set hs'" "sth_tree_size s = of_nat (length es)" by blast
      then have "r = Inr (sth_json_of hex s)" using last_head [OF core'] 2(2) by auto
      with hs' s served_head_checks [OF hs'(1) s(1)] show ?thesis by blast
    qed
  qed
qed

section \<open>The signing task ends with the whole log signed\<close>

fun clock_ok :: "request \<Rightarrow> bool" where
  "clock_ok (ReqAppend now tick key data) \<longleftrightarrow> 0 \<le> now"
| "clock_ok (ReqBatch now tick reqs) \<longleftrightarrow> 0 \<le> now"
| "clock_ok (ReqRotate fresh wr) \<longleftrightarrow> True"
| "clock_ok (ReqForce now) \<longleftrightarrow> 0 \<le> now"

fun cost :: "request \<Rightarrow> nat" where
  "cost (ReqAppend now tick key data) = 1"
| "cost (ReqBatch now tick reqs) = length reqs"
| "cost _ = 0"

definition running :: "'d env \<Rightarrow> ('d \<Rightarrow> families) \<Rightarrow> 'd app_state \<Rightarrow> log_entry list \<Rightarrow> signed_tree_head list \<Rightarrow> bool" where
  "running E view st es hs \<longleftrightarrow> core_inv E view st es hs \<and> \<not> st_poisoned st \<and> (\<forall>s \<in> set hs. verify_sth (e_ed E) s)"

definition fully_signed :: "'d env \<Rightarrow> log_entry list \<Rightarrow> signed_tree_head list \<Rightarrow> bool" where
  "fully_signed E es hs \<longleftrightarrow> es = [] \<or> (\<exists>s \<in> set hs. unat (sth_tree_size s) = length es
     \<and> sth_root_hash s = MTH (node_hash (e_sha E)) (map le_leaf_hash es) \<and> verify_sth (e_ed E) s)"

lemma fully_signed_Nil [simp]: "fully_signed E [] hs"
  by (simp add: fully_signed_def)

lemma fully_signedI:
  assumes inv: "running E view st es hs" and s: "s \<in> set hs" and size: "sth_tree_size s = of_nat (length es)"
  shows "fully_signed E es hs"
proof -
  have core: "core_inv E view st es hs" using inv by (simp add: running_def)
  have "length es < 2 ^ 64" using core_invD(7) [OF core] by (simp add: mt_inv_def)
  then have "unat (sth_tree_size s) = length es" unfolding size by (rule unat_of_nat_u64)
  moreover from this core_invD(6) [OF core s] have "sth_root_hash s = MTH (node_hash (e_sha E)) (map le_leaf_hash es)"
    by (simp add: root_ok_def)
  ultimately show ?thesis using inv s by (auto simp: fully_signed_def running_def)
qed

lemma sign_running:
  assumes inv: "running E view st es hs" and now: "0 \<le> now" and run: "sign_and_store E now st = (st', r)"
  obtains hs' where "running E view st' es hs'" and "next_seq (st_db st') = next_seq (st_db st)"
    and "set hs \<subseteq> set hs'"
    and "r = Inr () \<and> fully_signed E es hs' \<or> (\<exists>m. r = Inl (Err (AppStorage (RocksDb m))))"
proof -
  have core: "core_inv E view st es hs" and np: "\<not> st_poisoned st" and ver: "\<forall>s \<in> set hs. verify_sth (e_ed E) s"
    using inv by (simp_all add: running_def)
  show ?thesis
  proof (cases rule: sign_and_store_cases [OF core run])
    case (1 db')
    let ?s = "new_sth E now (st_signer st) es"
    have "verify_sth (e_ed E) ?s"
      using verify_sth_signed [OF core_invD(3) [OF core]]
      by (simp add: new_sth_def Let_def signer_sign_def signer_public_key_def)
    then have "running E view st' es (hs @ [?s])" using 1(2,4) np ver by (auto simp: running_def)
    moreover from this have "fully_signed E es (hs @ [?s])" by (rule fully_signedI [of _ _ _ _ _ ?s]) (simp_all add: new_sth_def Let_def)
    ultimately show ?thesis using 1(1,2,6) by (intro that) auto
  next
    case (2 db')
    then have "running E view st' es hs" using np ver by (auto simp: running_def)
    moreover from this have "fully_signed E es hs" if "r = Inr ()"
      using 2(5) [OF that] fully_signedI by auto
    ultimately show ?thesis using 2(1,3,6) np now by (intro that [of hs]) auto
  qed
qed

lemma running_frame [simp]:
  "running E view (st\<lparr>st_limiter := b\<rparr>) es hs = running E view st es hs"
  "running E view (publish ens st) es hs = running E view st es hs"
  by (simp_all add: running_def publish_def)

text \<open>\<open>progress\<close>: the state still runs, its log has only grown, and at most \<open>k\<close> numbers are used up.\<close>

definition progress ::
  "'d env \<Rightarrow> ('d \<Rightarrow> families) \<Rightarrow> nat \<Rightarrow> 'd app_state \<Rightarrow> log_entry list \<Rightarrow> 'd app_state \<Rightarrow> bool" where
  "progress E view k st es st' \<longleftrightarrow> (\<exists>added hs'. running E view st' (es @ added) hs')
     \<and> unat (next_seq (st_db st')) \<le> unat (next_seq (st_db st)) + k"

lemma progressI:
  assumes "running E view st' (es @ added) hs'" and "unat (next_seq (st_db st')) \<le> unat (next_seq (st_db st)) + k"
  shows "progress E view k st es st'"
  using assms by (auto simp: progress_def)

lemma progress_trans:
  assumes "progress E view k st es st1" and "\<And>added hs1. running E view st1 (es @ added) hs1 \<Longrightarrow> progress E view k' st1 (es @ added) st2"
  shows "progress E view (k + k') st es st2"
proof -
  obtain added hs1 where one: "running E view st1 (es @ added) hs1"
    and le: "unat (next_seq (st_db st1)) \<le> unat (next_seq (st_db st)) + k" using assms(1) by (auto simp: progress_def)
  obtain more hs2 where "running E view st2 (es @ added @ more) hs2"
    and "unat (next_seq (st_db st2)) \<le> unat (next_seq (st_db st1)) + k'"
    using assms(2) [OF one] by (auto simp: progress_def)
  with le show ?thesis by (intro progressI [of _ _ _ _ "added @ more" hs2]) simp_all
qed

lemma append_running:
  assumes inv: "running E view st es hs" and now: "0 \<le> now" and room: "unat (next_seq (st_db st)) + 1 < 2 ^ 64"
  shows "progress E view 1 st es (fst (rpc_append E now tick key data st))"
proof -
  obtain st1 ok where t: "take_tokens (try_consume (e_rnd E) tick) st = (st1, ok)" by fastforce
  then obtain b where st1: "st1 = st\<lparr>st_limiter := b\<rparr>" using take_tokens_frame by blast
  obtain st2 c where c: "commit_append E now key data st1 = (st2, c)" by fastforce
  have core1: "core_inv E view st1 es hs" and np: "\<not> st_poisoned st1" and ver: "\<forall>s \<in> set hs. verify_sth (e_ed E) s"
    and room1: "unat (next_seq (st_db st1)) + 1 < 2 ^ 64"
    using inv room by (simp_all add: running_def st1)
  have st': "fst (rpc_append E now tick key data st) = (if ok then (case c of Inl _ \<Rightarrow> st2 | Inr en \<Rightarrow> publish [en] st2) else st1)"
    using t c by (simp add: rpc_append_def split: sum.splits)
  have next1: "unat (next_seq (st_db st) + 1) = unat (next_seq (st_db st)) + 1" using room by (simp add: unat_word_ariths)
  have "progress E view 1 st es st2"
  proof (cases rule: commit_append_cases [OF core1 room1 c])
    case (1 e)
    then show ?thesis using ver next1 by (intro progressI [of _ _ _ _ "[e]" hs]) (auto simp: running_def st1)
  next
    case 2
    then show ?thesis using np ver now next1 by (intro progressI [of _ _ _ _ "[]" hs]) (auto simp: running_def st1)
  qed
  moreover have "progress E view 1 st es st1"
    using inv by (intro progressI [of _ _ _ _ "[]" hs]) (simp_all add: st1)
  ultimately show ?thesis unfolding st' by (auto simp: progress_def publish_def running_def split: sum.splits)
qed

lemma batch_running:
  assumes inv: "running E view st es hs" and now: "0 \<le> now" and room: "unat (next_seq (st_db st)) + length reqs < 2 ^ 64"
  shows "progress E view (length reqs) st es (fst (rpc_batch_append E now tick reqs st))"
proof (cases "reqs = [] \<or> 1000 < length reqs")
  case True
  then have "fst (rpc_batch_append E now tick reqs st) = st" by (auto simp: rpc_batch_append_def Let_def)
  then show ?thesis using inv by (intro progressI [of _ _ _ _ "[]" hs]) simp_all
next
  case False
  obtain st1 ok where t: "take_tokens (try_consume_n (e_rnd E) tick (of_nat (length reqs))) st = (st1, ok)" by fastforce
  then obtain b where st1: "st1 = st\<lparr>st_limiter := b\<rparr>" using take_tokens_frame by blast
  obtain st2 c where c: "commit_batch E now reqs st1 = (st2, c)" by fastforce
  have core1: "core_inv E view st1 es hs" and np: "\<not> st_poisoned st1" and ver: "\<forall>s \<in> set hs. verify_sth (e_ed E) s"
    and room1: "unat (next_seq (st_db st1)) + length reqs < 2 ^ 64"
    using inv room by (simp_all add: running_def st1)
  have st': "fst (rpc_batch_append E now tick reqs st) =
      (if ok then (case c of Inl _ \<Rightarrow> st2 | Inr results \<Rightarrow> publish (batch_message reqs results) st2) else st1)"
    using t c False by (simp add: rpc_batch_append_def Let_def split: sum.splits)
  have nexts: "unat (next_seq (st_db st) + of_nat (length reqs)) = unat (next_seq (st_db st)) + length reqs"
    using room by (simp add: unat_word_ariths unat_of_nat)
  have "progress E view (length reqs) st es st2"
  proof (cases rule: commit_batch_cases [OF core1 room1 c])
    case (1 new)
    then show ?thesis using ver nexts by (intro progressI [of _ _ _ _ new hs]) (auto simp: running_def st1)
  next
    case 2
    then show ?thesis using np ver now nexts by (intro progressI [of _ _ _ _ "[]" hs]) (auto simp: running_def st1)
  qed
  moreover have "progress E view (length reqs) st es st1"
    using inv by (intro progressI [of _ _ _ _ "[]" hs]) (simp_all add: st1)
  ultimately show ?thesis unfolding st' by (auto simp: progress_def publish_def running_def split: sum.splits)
qed

lemma rotate_rest:
  assumes "rotate_key E fresh wr st = (st', r)"
  shows "st_poisoned st' = st_poisoned st" and "next_seq (st_db st') = next_seq (st_db st)"
  using assms by (auto simp: rotate_key_def signer_rotate_def ks_put_def Let_def split: if_splits prod.splits option.splits sum.splits)

lemma serve_running:
  assumes inv: "running E view st es hs" and "clock_ok req" and "unat (next_seq (st_db st)) + cost req < 2 ^ 64"
  shows "progress E view (cost req) st es (serve hex E req st)"
proof (cases req)
  case (ReqRotate fresh wr)
  obtain st' r where run: "rotate_key E fresh wr st = (st', r)" by fastforce
  then have "running E view st' es hs"
    using inv rotate_key_core [of E view st es hs fresh wr st' r] rotate_rest(1) [OF run] by (simp add: running_def)
  then show ?thesis using run rotate_rest(2) [OF run]
    by (intro progressI [of _ _ _ _ "[]" hs]) (simp_all add: ReqRotate rotate_key_json_def)
next
  case (ReqForce now)
  obtain st' r where run: "sign_and_store E now st = (st', r)" by fastforce
  have "0 \<le> now" using assms(2) ReqForce by simp
  from sign_running [OF inv this run] obtain hs' where "running E view st' es hs'" "next_seq (st_db st') = next_seq (st_db st)"
    by blast
  then show ?thesis using run by (intro progressI [of _ _ _ _ "[]" hs']) (simp_all add: ReqForce force_sth_state)
qed (use assms append_running batch_running in auto)

definition total_cost :: "request list \<Rightarrow> nat" where
  "total_cost reqs = sum_list (map cost reqs)"

lemma serve_all_running:
  assumes "running E view st es hs" and "list_all clock_ok reqs" and "unat (next_seq (st_db st)) + total_cost reqs < 2 ^ 64"
  shows "progress E view (total_cost reqs) st es (fold (serve hex E) reqs st)"
  using assms
proof (induction reqs arbitrary: st es hs)
  case Nil
  then show ?case by (intro progressI [of _ _ _ _ "[]" hs]) (simp_all add: total_cost_def)
next
  case (Cons req reqs)
  let ?st = "serve hex E req st"
  have step: "progress E view (cost req) st es ?st"
    using Cons.prems by (intro serve_running [OF Cons.prems(1)]) (simp_all add: total_cost_def)
  then have le: "unat (next_seq (st_db ?st)) \<le> unat (next_seq (st_db st)) + cost req" by (simp add: progress_def)
  have "progress E view (total_cost reqs) ?st (es @ added) (fold (serve hex E) reqs ?st)"
    if "running E view ?st (es @ added) hs1" for added hs1
    using that Cons.prems le by (intro Cons.IH) (simp_all add: total_cost_def)
  from progress_trans [OF step this] show ?case by (simp add: total_cost_def)
qed

text \<open>One wake-up: the requests since the last one, then a signing cycle.\<close>

lemma wake_running:
  assumes inv: "running E view st es hs" and reqs: "list_all clock_ok reqs" and now: "0 \<le> now"
    and room: "unat (next_seq (st_db st)) + total_cost reqs < 2 ^ 64"
    and run: "sign_and_store E now (fold (serve hex E) reqs st) = (st', r)"
  obtains added hs' where "running E view st' (es @ added) hs'"
    and "unat (next_seq (st_db st')) \<le> unat (next_seq (st_db st)) + total_cost reqs"
    and "r = Inr () \<and> fully_signed E (es @ added) hs' \<or> (\<exists>m. r = Inl (Err (AppStorage (RocksDb m))))"
proof -
  from serve_all_running [OF inv reqs room, of hex] obtain added hs1 where
    one: "running E view (fold (serve hex E) reqs st) (es @ added) hs1"
    and le: "unat (next_seq (st_db (fold (serve hex E) reqs st))) \<le> unat (next_seq (st_db st)) + total_cost reqs"
    by (auto simp: progress_def)
  show ?thesis by (rule sign_running [OF one now run]) (use le that in metis)
qed

lemma shutdown_running:
  assumes inv: "running E view st es hs" and w: "list_all clock_ok reqs" "0 \<le> now"
    and room: "unat (next_seq (st_db st)) + total_cost reqs < 2 ^ 64"
  shows "\<exists>st' logged' added hs'. sth_run hex E [(reqs, ShutdownChanged now)] st logged = (st', logged', Finished)
    \<and> running E view st' (es @ added) hs'
    \<and> (fully_signed E (es @ added) hs' \<or> (\<exists>earlier m. logged' = earlier @ [SigningFailedOnShutdown (AppStorage (RocksDb m))]))"
proof -
  obtain st' r where run: "sign_and_store E now (fold (serve hex E) reqs st) = (st', r)" by fastforce
  show ?thesis
  proof (rule wake_running [OF inv w room run])
    fix added hs'
    assume run': "running E view st' (es @ added) hs'"
      and "r = Inr () \<and> fully_signed E (es @ added) hs' \<or> (\<exists>m. r = Inl (Err (AppStorage (RocksDb m))))"
    then consider "r = Inr ()" "fully_signed E (es @ added) hs'" | m where "r = Inl (Err (AppStorage (RocksDb m)))" by blast
    then show ?thesis by cases (use run run' in \<open>auto intro!: exI [of _ added] exI [of _ hs']\<close>)
  qed
qed

text \<open>The wake-ups of the timer before the shutdown.\<close>

definition timed :: "(request list \<times> int) list \<Rightarrow> (request list \<times> wake) list" where
  "timed ws = map (\<lambda>(reqs, now). (reqs, Elapsed now)) ws"

lemma sth_run_timed:
  "sth_run hex E (timed ws @ vs) st logged =
    (case sth_run hex E (timed ws) st logged of (st', logged', e) \<Rightarrow>
       if e = Waiting then sth_run hex E vs st' logged' else (st', logged', e))"
proof (induction ws arbitrary: st logged)
  case Nil
  then show ?case by (simp add: timed_def)
next
  case (Cons v ws)
  obtain reqs now where v: "v = (reqs, now)" by fastforce
  obtain st1 r where run: "sign_and_store E now (fold (serve hex E) reqs st) = (st1, r)" by fastforce
  note IH = Cons.IH [unfolded timed_def]
  show ?case
  proof (cases r)
    case (Inl x)
    with run IH show ?thesis by (cases x) (simp_all add: v timed_def)
  next
    case (Inr u)
    with run IH show ?thesis by (simp add: v timed_def)
  qed
qed

lemma timed_running:
  assumes "running E view st es hs" and "\<forall>(reqs, now) \<in> set ws. list_all clock_ok reqs \<and> 0 \<le> now"
    and "unat (next_seq (st_db st)) + total_cost (concat (map fst ws)) < 2 ^ 64"
  shows "\<exists>st' logged'. sth_run hex E (timed ws) st logged = (st', logged', Waiting)
    \<and> progress E view (total_cost (concat (map fst ws))) st es st'"
  using assms
proof (induction ws arbitrary: st es hs logged)
  case Nil
  then show ?case using progressI [of E view st es "[]" hs st 0] by (simp add: timed_def total_cost_def)
next
  case (Cons v ws)
  obtain reqs now where v: "v = (reqs, now)" by fastforce
  obtain st1 r where run: "sign_and_store E now (fold (serve hex E) reqs st) = (st1, r)" by fastforce
  have ok: "list_all clock_ok reqs" "0 \<le> now" "\<forall>(reqs, now) \<in> set ws. list_all clock_ok reqs \<and> 0 \<le> now"
    using Cons.prems(2) by (auto simp: v)
  have room: "unat (next_seq (st_db st)) + total_cost reqs < 2 ^ 64" using Cons.prems(3) by (simp add: v total_cost_def)
  obtain added hs1 where one: "running E view st1 (es @ added) hs1"
    and le: "unat (next_seq (st_db st1)) \<le> unat (next_seq (st_db st)) + total_cost reqs"
    and r: "r = Inr () \<or> (\<exists>m. r = Inl (Err (AppStorage (RocksDb m))))"
    by (rule wake_running [OF Cons.prems(1) ok(1,2) room run]) blast
  have room1: "unat (next_seq (st_db st1)) + total_cost (concat (map fst ws)) < 2 ^ 64"
    using Cons.prems(3) le by (simp add: v total_cost_def)
  obtain logged1 where step: "sth_run hex E (timed (v # ws)) st logged = sth_run hex E (timed ws) st1 logged1"
    using run r by (auto simp: v timed_def)
  from Cons.IH [OF one ok(3) room1, of logged1] obtain st' logged' where
    run': "sth_run hex E (timed ws) st1 logged1 = (st', logged', Waiting)"
    and more: "progress E view (total_cost (concat (map fst ws))) st1 (es @ added) st'" by blast
  then obtain added' hs' where "running E view st' (es @ added @ added') hs'"
    "unat (next_seq (st_db st')) \<le> unat (next_seq (st_db st1)) + total_cost (concat (map fst ws))"
    by (auto simp: progress_def)
  with le have "progress E view (total_cost (concat (map fst (v # ws)))) st es st'"
    by (intro progressI [of _ _ _ _ "added @ added'" hs']) (simp_all add: v total_cost_def)
  with step run' show ?case by simp
qed

text \<open>
  Clean shutdown. Whatever appends, batches, rotations and forced cycles the server handles and
  however often the timer fires, the signing task survives and returns after the shutdown signal, and
  then the head store covers the whole log with a correctly signed root, unless that last cycle failed
  in RocksDB and the error was logged. Assumed is that the clock is past the epoch and that the numbers
  do not run out.
\<close>

theorem shutdown_signs_everything:
  assumes inv: "running E view st es hs" and clocks: "\<forall>(reqs, now) \<in> set (ws @ [w]). list_all clock_ok reqs \<and> 0 \<le> now"
    and room: "unat (next_seq (st_db st)) + total_cost (concat (map fst (ws @ [w]))) < 2 ^ 64"
  shows "\<exists>st' logged' added hs'.
    sth_run hex E (timed ws @ [(fst w, ShutdownChanged (snd w))]) st logged = (st', logged', Finished)
    \<and> running E view st' (es @ added) hs'
    \<and> (fully_signed E (es @ added) hs'
       \<or> (\<exists>earlier m. logged' = earlier @ [SigningFailedOnShutdown (AppStorage (RocksDb m))]))"
proof -
  have ws: "\<forall>(reqs, now) \<in> set ws. list_all clock_ok reqs \<and> 0 \<le> now" and w: "list_all clock_ok (fst w)" "0 \<le> snd w"
    using clocks by (auto split: prod.splits)
  have "unat (next_seq (st_db st)) + total_cost (concat (map fst ws)) < 2 ^ 64" using room by (simp add: total_cost_def)
  from timed_running [OF inv ws this, of hex logged] obtain st1 logged1 added hs1 where
    run: "sth_run hex E (timed ws) st logged = (st1, logged1, Waiting)" and one: "running E view st1 (es @ added) hs1"
    and le: "unat (next_seq (st_db st1)) \<le> unat (next_seq (st_db st)) + total_cost (concat (map fst ws))"
    by (auto simp: progress_def)
  have "unat (next_seq (st_db st1)) + total_cost (fst w) < 2 ^ 64" using le room by (simp add: total_cost_def)
  from shutdown_running [OF one w this, of hex logged1] show ?thesis
    unfolding sth_run_timed run by (simp only: prod.case simp_thms if_True append.assoc) blast
qed

section \<open>Witnesses\<close>

definition toy_hex :: hex where
  "toy_hex bs = map (\<lambda>b. char_of (unat b)) bs"

lemma sample_unpoisoned: "\<not> st_poisoned sample_state" "\<not> st_poisoned sample_state1" "\<not> st_poisoned signed_state"
  by (simp_all add: sample_state_def sample_state1_def signed_state_def sample_eval)

theorem admin_reads_correct_witness:
  "(list_keys toy_hex mem_env signed_state = Inr [key_record_json_from toy_hex sample_key]
      \<or> list_keys toy_hex mem_env signed_state = Inl (Err InternalServerError))
    \<and> (admin_get_sth toy_hex mem_env signed_state = Inr (sth_json_of toy_hex sample_head)
      \<or> admin_get_sth toy_hex mem_env signed_state = Inl (Err InternalServerError))
    \<and> (stats mem_env signed_state = Inr \<lparr>sj_entry_count = 1, sj_stats_tree_size = 1,
          sj_last_sth_timestamp_ns = Some (sth_timestamp_ns sample_head)\<rparr>
      \<or> stats mem_env signed_state = Inl (Err InternalServerError))"
  using admin_reads_correct [OF signed_state_inv sample_unpoisoned(3), of toy_hex] by simp

theorem force_sth_outcome_witness:
  "\<exists>hs'. server_inv mem_env (\<lambda>d. d) signed_state [new_entry toy_sha 5 0 [1] [2]] hs' [sample_key]
    \<and> (admin_get_sth toy_hex mem_env signed_state = Inl (Err InternalServerError)
      \<or> (\<exists>s \<in> set hs'. admin_get_sth toy_hex mem_env signed_state = Inr (sth_json_of toy_hex s) \<and> sth_tree_size s = 1
          \<and> head_checks mem_env [sample_key] (sth_root_hash s) (sth_to_proto s)))"
proof -
  have "force_sth toy_hex mem_env 9 sample_state1 = (signed_state, admin_get_sth toy_hex mem_env signed_state)"
    by (simp add: force_sth_def signed_state_run or_500_def)
  from force_sth_outcome [OF sample_state1_inv(1) sample_unpoisoned(2) _ this] show ?thesis by auto
qed

theorem shutdown_signs_everything_witness:
  "\<exists>st' logged' added hs'.
    sth_run toy_hex mem_env [([ReqAppend 5 0 [1] [2]], Elapsed 9), ([ReqAppend 7 0 [3] [4]], ShutdownChanged 11)] sample_state [] =
      (st', logged', Finished)
    \<and> running mem_env (\<lambda>d. d) st' added hs'
    \<and> (fully_signed mem_env added hs'
       \<or> (\<exists>earlier m. logged' = earlier @ [SigningFailedOnShutdown (AppStorage (RocksDb m))]))"
proof -
  have inv: "running mem_env (\<lambda>d. d) sample_state [] []"
    using sample_state_inv(1) sample_unpoisoned(1) by (simp add: running_def server_inv_core)
  have room: "unat (next_seq (st_db sample_state)) + 2 < 2 ^ 64" using sample_state_inv(2) by (simp add: dense_def)
  from shutdown_signs_everything [OF inv, where ws = "[([ReqAppend 5 0 [1] [2]], 9)]" and w = "([ReqAppend 7 0 [3] [4]], 11)"
      and hex = toy_hex and logged = "[]"] room
  show ?thesis by (simp add: total_cost_def timed_def)
qed

end
