(* ===== verification/Server_Main.thy ===== *)
theory Server_Main
  imports Server_Admin
begin

text \<open>
  The life of a server process, \<^verbatim>\<open>settled-server/src/main.rs\<close>: the configuration from the arguments, start-up,
  the signing task until the shutdown signal, and what a restart finds after the process has been killed
  at any moment of any run, in the middle of a rotation too. Not modelled: listening sockets, signals and
  log output; an address that cannot be bound and a signing task that misses its deadline are parameters.
\<close>

section \<open>Kill and restart\<close>

text \<open>What a restart needs of the disk besides the log and the heads: a schema version it knows and a readable key chain.\<close>

definition restartable :: "'d env \<Rightarrow> ('d \<Rightarrow> families) \<Rightarrow> 'd app_state \<Rightarrow> bool" where
  "restartable E view st \<longleftrightarrow>
     fmlookup (view (db_rocks (st_db st)) CfDefault) SCHEMA_VERSION_KEY \<in> {None, Some (u32_key CURRENT_SCHEMA_VERSION)} \<and>
     (\<exists>ks. keys_fam (e_codec E) (view (db_rocks (st_db st))) ks)"

lemma restartable_same:
  assumes "restartable E view st" and "view (db_rocks (st_db st')) CfKeys = view (db_rocks (st_db st)) CfKeys"
    and "view (db_rocks (st_db st')) CfDefault = view (db_rocks (st_db st)) CfDefault"
  shows "restartable E view st'"
  using assms by (simp add: restartable_def keys_fam_def)

lemma restartable_frame [simp]:
  "restartable E view (st\<lparr>st_limiter := b\<rparr>) = restartable E view st"
  "restartable E view (publish ens st) = restartable E view st"
  "restartable E view (st\<lparr>st_key_file := f\<rparr>) = restartable E view st"
  "restartable E view (st\<lparr>st_signer := sg\<rparr>) = restartable E view st"
  by (simp_all add: restartable_def publish_def)

lemma restartable_writer: "restartable E view st \<Longrightarrow> same_keys view st st' \<Longrightarrow> restartable E view st'"
  by (rule restartable_same) (simp_all add: same_keys_def)

lemma restartable_append:
  assumes "core_inv E view st es hs" and "restartable E view st" and "has_room 1 st"
    and "take_tokens f st = (st1, ok)" and run: "commit_append E now key data st1 = (st2, r)"
  shows "restartable E view st2"
proof -
  obtain b where st1: "st1 = st\<lparr>st_limiter := b\<rparr>" using take_tokens_frame [OF assms(4)] by blast
  have pre: "core_inv E view st1 es hs" "unat (next_seq (st_db st1)) + 1 < 2 ^ 64" "restartable E view st1"
    using assms(1-3) by (simp_all add: st1 has_room_def)
  show ?thesis by (cases rule: commit_append_cases [OF pre(1,2) run]) (use pre(3) in \<open>auto intro: restartable_writer\<close>)
qed

lemma restartable_batch:
  assumes "core_inv E view st es hs" and "restartable E view st" and "has_room (length reqs) st"
    and "take_tokens f st = (st1, ok)" and run: "commit_batch E now reqs st1 = (st2, r)"
  shows "restartable E view st2"
proof -
  obtain b where st1: "st1 = st\<lparr>st_limiter := b\<rparr>" using take_tokens_frame [OF assms(4)] by blast
  have pre: "core_inv E view st1 es hs" "unat (next_seq (st_db st1)) + length reqs < 2 ^ 64" "restartable E view st1"
    using assms(1-3) by (simp_all add: st1 has_room_def)
  show ?thesis by (cases rule: commit_batch_cases [OF pre(1,2) run]) (use pre(3) in \<open>auto intro: restartable_writer\<close>)
qed

lemma restartable_store:
  assumes inv: "core_inv E view st es hs" and ok: "restartable E view st"
    and run: "sign_and_write E now n r sg_sign sg_pk sg_ver st = (st', x)"
  shows "restartable E view st'"
proof -
  from run have "st' = st \<or> (\<exists>s db' w. hs_write (e_rocks E) (e_codec E) s (st_db st) = (db', w) \<and> st' = st\<lparr>st_db := db'\<rparr>)"
    by (auto simp: sign_and_write_def Let_def split: sum.splits prod.splits)
  then show ?thesis
  proof (elim disjE exE conjE)
    fix s db' w
    assume w: "hs_write (e_rocks E) (e_codec E) s (st_db st) = (db', w)" and st': "st' = st\<lparr>st_db := db'\<rparr>"
    show ?thesis
      by (cases rule: hs_write_cases [OF core_invD(1,2,5) [OF inv] w]) (auto simp: st' intro: restartable_same [OF ok])
  qed (use ok in simp)
qed

lemma restartable_put:
  assumes inv: "core_inv E view st es hs" and ok: "restartable E view st"
    and w: "ks_put (e_rocks E) (e_codec E) k (st_db st) = (db', x)"
  shows "restartable E view (st\<lparr>st_db := db'\<rparr>)"
proof -
  obtain ks where ks: "keys_fam (e_codec E) (view (db_rocks (st_db st))) ks" using ok by (auto simp: restartable_def)
  show ?thesis
    by (cases rule: ks_put_cases [OF core_invD(1,2) [OF inv] ks w]) (use ok ks in \<open>auto simp: restartable_def\<close>)
qed

lemma mstep_restartable:
  assumes "mstep E m m'" and "core_inv E view (mc_st m) es hs" and "restartable E view (mc_st m)"
  shows "restartable E view (mc_st m')"
  using assms
proof (induction rule: mstep.induct)
  case (refused consume st st' js)
  then show ?case using take_tokens_frame by fastforce
qed (auto intro: restartable_append restartable_batch restartable_store restartable_put)

interpretation killed: growing_system "mstep E" "\<lambda>m a. machine_inv E view base n m a \<and> restartable E view (mc_st m)" evolves for E view base n
proof
  show "\<exists>a'. (machine_inv E view base n s' a' \<and> restartable E view (mc_st s')) \<and> evolves\<^sup>=\<^sup>= a a'"
    if "mstep E s s'" "machine_inv E view base n s a \<and> restartable E view (mc_st s)" for s s' a
    using server.step_matched [OF that(1), of view base n a] mstep_restartable [OF that(1), of view "fst a" "snd a"] that(2)
    by (cases a) auto
qed (rule server.le_refl server.le_trans; assumption)+

lemma numbers_below:
  assumes "log_rel C sha view db es"
  shows "\<forall>e \<in> set es. le_seq e < - 1"
  using assms by (auto simp: log_rel_def intro: less_le_trans word_order.extremum)

lemma same_tree:
  assumes "mt_inv sha m xs" and "mt_inv sha m' xs"
  shows "mt_size m' = mt_size m" and "mt_root sha m' = mt_root sha m"
  using assms mt.rel_size mt.rel_root by metis+

text \<open>What start-up makes of the key file: the key, or an error.\<close>

lemma key_file_cases:
  obtains (usable) sk where "file = Some (Inr (to_vec (sk :: signing_key))) \<or> file = None \<and> wr = None \<and> fresh = sk"
    | (damaged) bs where "file = Some (Inr bs)" "length bs \<noteq> 32"
        "\<And>v. load_or_generate file fresh wr v = Inl (Err (AppMsg ''signing key file must be exactly 32 bytes''))"
    | (unreadable) e where "file = Some (Inl e) \<or> file = None \<and> wr = Some e" "\<And>v. load_or_generate file fresh wr v = Inl (Err (AppIo e))"
proof (cases "file")
  case None
  then show ?thesis using usable [of fresh] unreadable by (cases wr) (auto simp: load_or_generate_def)
next
  case (Some c)
  show ?thesis
  proof (cases c)
    case (Inl e)
    with Some show ?thesis using unreadable by (simp add: load_or_generate_def)
  next
    case (Inr bs)
    show ?thesis
    proof (cases "length bs = 32")
      case True
      with Some Inr show ?thesis using usable [of "arr_of bs"] by (simp add: to_vec_arr_of)
    next
      case False
      with Some Inr show ?thesis using damaged by (simp add: load_or_generate_def try_into_def)
    qed
  qed
qed

text \<open>
  C15. Kill and restart. Stop the process at any moment of any interleaving of requests, signing cycles and
  rotations, in the middle of a rotation too, and start it again on the disk as it is. Either RocksDB reports an
  error; or the key file cannot be used and that is the error reported (it is not 32 bytes long, as a write
  that was interrupted or failed can leave it, or it is missing and a new one cannot be written); or the new
  state has exactly the log and the heads of the old one and the same tree size and root. Entries and heads from before the run are still there. The log may have gaps and the
  key file need not match the key chain.
\<close>

theorem restart_recovers:
  assumes core: "core_inv E view st es hs" and ok: "restartable E view st"
    and run: "(mstep E)\<^sup>*\<^sup>* \<lparr>mc_st = st, mc_jobs = []\<rparr> m"
    and restart: "built = build E cfg (DbOpen (Inr (db_rocks (st_db (mc_st m))))) (map_option Inr (st_key_file (mc_st m))) fresh wr tick"
  shows "\<exists>es' hs'. core_inv E view (mc_st m) es' hs' \<and> evolves (es, hs) (es', hs')
    \<and> ((\<exists>msg. built = Inl (Err (AppStorage (RocksDb msg))))
      \<or> (\<exists>bs. st_key_file (mc_st m) = Some bs \<and> length bs \<noteq> 32
          \<and> built = Inl (Err (AppMsg ''signing key file must be exactly 32 bytes'')))
      \<or> (\<exists>e. st_key_file (mc_st m) = None \<and> wr = Some e \<and> built = Inl (Err (AppIo e)))
      \<or> (\<exists>st'. built = Inr st' \<and> core_inv E view st' es' hs' \<and> (gapfree es' \<longrightarrow> dense (st_db st') es')
          \<and> mt_size (st_merkle st') = mt_size (st_merkle (mc_st m))
          \<and> mt_root (e_sha E) (st_merkle st') = mt_root (e_sha E) (st_merkle (mc_st m)) \<and> st_config st' = cfg))"
proof -
  have "machine_inv E view (mset (st_watch st)) (length es) \<lparr>mc_st = st, mc_jobs = []\<rparr> (es, hs)"
    using core by (simp add: announced_def)
  then obtain es' hs' where inv': "machine_inv E view (mset (st_watch st)) (length es) m (es', hs')"
    and ok': "restartable E view (mc_st m)" and ev: "evolves (es, hs) (es', hs')"
    using killed.run_climbs [OF run, of view "mset (st_watch st)" "length es" "(es, hs)"] ok by auto
  have core': "core_inv E view (mc_st m) es' hs'" using inv' by simp
  note D = core_invD [OF core']
  obtain ks where ks: "keys_fam (e_codec E) (view (db_rocks (st_db (mc_st m)))) ks"
    and schema: "fmlookup (view (db_rocks (st_db (mc_st m))) CfDefault) SCHEMA_VERSION_KEY \<in> {None, Some (u32_key CURRENT_SCHEMA_VERSION)}"
    using ok' by (auto simp: restartable_def)
  have laws: "env_laws E view" and log: "log_fam (e_codec E) (e_sha E) (view (db_rocks (st_db (mc_st m)))) es'"
    using core' D(4) by (simp_all add: core_inv_def log_rel_def)
  note numbers = numbers_below [OF D(4)]
  let ?file = "map_option Inr (st_key_file (mc_st m)) :: (string + bytes) option"
  show ?thesis
  proof (cases rule: key_file_cases [of ?file wr fresh])
    case (usable sk)
    have roots: "\<forall>s \<in> set hs'. root_ok E es' s" using D(6) by blast
    note start = build_core [OF laws log D(5) roots ks schema numbers usable refl, of cfg tick, folded restart]
    have "mt_size (st_merkle st') = mt_size (st_merkle (mc_st m)) \<and> mt_root (e_sha E) (st_merkle st') = mt_root (e_sha E) (st_merkle (mc_st m))"
      if "core_inv E view st' es' hs'" for st'
      using same_tree [OF D(7) core_invD(7) [OF that]] by blast
    with start core' ev show ?thesis unfolding rocks_or_def by blast
  next
    case (damaged bs)
    from build_bad_key [OF laws log ks schema numbers damaged(3), of cfg tick, folded restart] damaged(1,2) core' ev
    show ?thesis by (intro exI [of _ es'] exI [of _ hs']) auto
  next
    case (unreadable e)
    from build_bad_key [OF laws log ks schema numbers unreadable(2), of cfg tick, folded restart] unreadable(1) core' ev
    show ?thesis by (intro exI [of _ es'] exI [of _ hs']) auto
  qed
qed

section \<open>The whole process\<close>

record server_args =
  sa_data_dir :: string
  sa_key_path :: "string option"
  sa_listen :: string
  sa_admin_listen :: string
  sa_sth_interval_secs :: u64
  sa_api_key :: "string option"
  sa_max_appends_per_sec :: "u32 option"
  sa_max_get_latest :: u32
  sa_max_message_bytes :: u64

text \<open>\<^verbatim>\<open>Path::join\<close> with a relative name.\<close>

definition path_join :: "string \<Rightarrow> string \<Rightarrow> string" where
  "path_join dir name = (if dir = [] then name else if last dir = CHR ''/'' then dir @ name else dir @ ''/'' @ name)"

definition config_of_args :: "server_args \<Rightarrow> config" where
  "config_of_args args =
     (let key_path = (case sa_key_path args of Some p \<Rightarrow> p | None \<Rightarrow> path_join (sa_data_dir args) ''signing.key'')
      in \<lparr>cfg_data_dir = sa_data_dir args, cfg_key_path = key_path, cfg_listen = sa_listen args,
          cfg_admin_listen = sa_admin_listen args, cfg_sth_interval_secs = sa_sth_interval_secs args,
          cfg_api_key = sa_api_key args, cfg_max_appends_per_sec = sa_max_appends_per_sec args,
          cfg_max_get_latest = sa_max_get_latest args, cfg_max_message_bytes = sa_max_message_bytes args\<rparr>)"

datatype main_error = StartUp app_error | BindAdmin string | ServeGrpc string

text \<open>
  \<open>admin_err\<close> and \<open>grpc_err\<close> are the errors of binding the two addresses. \<open>ws\<close> is what happens to the
  signing task: the requests served before each of its wake-ups. The last wake-up \<open>w\<close> is the shutdown, which
  \<^verbatim>\<open>main\<close> signals when the gRPC server has drained. \<^verbatim>\<open>main\<close> then waits ten seconds for the task: either it ends
  \<open>InTime\<close>, or the wait has \<open>TimedOut\<close> and \<^verbatim>\<open>main\<close> returns with a warning; the flag says whether the last
  cycle still ran to its end before the process was gone. The result has the state at the end, what the
  task has logged, how the task ended, and whether the warning was given.
\<close>

datatype grace = InTime | TimedOut bool

definition start_server ::
  "'d env \<Rightarrow> config \<Rightarrow> 'd data_dir \<Rightarrow> (string + bytes) option \<Rightarrow> signing_key \<Rightarrow> string option \<Rightarrow> nat \<Rightarrow> string option \<Rightarrow>
   (main_error, 'd app_state) result" where
  "start_server E config dir file fresh wr tick admin_err =
     bindR (map_err StartUp (build E config dir file fresh wr tick)) (\<lambda>state.
       case admin_err of Some e \<Rightarrow> Inl (Err (BindAdmin e)) | None \<Rightarrow> Inr state)"

definition serve_until_shutdown ::
  "hex \<Rightarrow> 'd env \<Rightarrow> string option \<Rightarrow> (request list \<times> int) list \<Rightarrow> request list \<times> int \<Rightarrow> grace \<Rightarrow> 'd app_state \<Rightarrow>
   (main_error, ('d app_state \<times> task_log list \<times> task_end) \<times> bool) result" where
  "serve_until_shutdown hex E grpc_err ws w grace state =
     (case grpc_err of
        Some e \<Rightarrow> Inl (Err (ServeGrpc e))
      | None \<Rightarrow>
        (let last_cycle = [(fst w, ShutdownChanged (snd w))] in
         Inr (case grace of
           InTime \<Rightarrow> (sth_run hex E (timed ws @ last_cycle) state [], False)
         | TimedOut True \<Rightarrow> (sth_run hex E (timed ws @ last_cycle) state [], True)
         | TimedOut False \<Rightarrow>
             (case sth_run hex E (timed ws) state [] of
                (st, logged, e) \<Rightarrow> ((fold (serve hex E) (fst w) st, logged, e), True)))))"

definition server_main ::
  "hex \<Rightarrow> 'd env \<Rightarrow> server_args \<Rightarrow> 'd data_dir \<Rightarrow> (string + bytes) option \<Rightarrow> signing_key \<Rightarrow> string option \<Rightarrow> nat \<Rightarrow>
   string option \<Rightarrow> string option \<Rightarrow> (request list \<times> int) list \<Rightarrow> request list \<times> int \<Rightarrow> grace \<Rightarrow>
   (main_error, ('d app_state \<times> task_log list \<times> task_end) \<times> bool) result" where
  "server_main hex E args dir file fresh wr tick admin_err grpc_err ws w grace =
     bindR (start_server E (config_of_args args) dir file fresh wr tick admin_err)
       (serve_until_shutdown hex E grpc_err ws w grace)"

lemmas server_main_eqs = server_main_def start_server_def serve_until_shutdown_def

lemma gapfree_below:
  assumes "gapfree es" and "length es < 2 ^ 64"
  shows "\<forall>e \<in> set es. le_seq e < - 1"
proof
  fix e assume "e \<in> set es"
  then have "unat (le_seq e) \<in> set (map (\<lambda>e. unat (le_seq e)) es)" by auto
  then have "unat (le_seq e) < length es" unfolding assms(1) [unfolded gapfree_def] by simp
  with assms(2) show "le_seq e < - 1" by (simp add: word_less_nat_alt unsigned_minus_1_eq_mask mask_eq_exp_minus_1)
qed

text \<open>What remains when the deadline is missed and the last cycle never ran: all requests, without a head of their own.\<close>

lemma timed_out_running:
  assumes inv: "running E view st es hs" and clocks: "\<forall>(reqs, now) \<in> set (ws @ [w]). list_all clock_ok reqs \<and> 0 \<le> now"
    and room: "unat (next_seq (st_db st)) + total_cost (concat (map fst (ws @ [w]))) < 2 ^ 64"
  shows "\<exists>st' logged added hs'. sth_run hex E (timed ws) st [] = (st', logged, Waiting)
    \<and> running E view (fold (serve hex E) (fst w) st') (es @ added) hs'"
proof -
  have ws: "\<forall>(reqs, now) \<in> set ws. list_all clock_ok reqs \<and> 0 \<le> now" and w: "list_all clock_ok (fst w)"
    using clocks by (auto split: prod.splits)
  have "unat (next_seq (st_db st)) + total_cost (concat (map fst ws)) < 2 ^ 64" using room by (simp add: total_cost_def)
  from timed_running [OF inv ws this, of hex "[]"] obtain st1 logged added hs1 where
    run: "sth_run hex E (timed ws) st [] = (st1, logged, Waiting)" and one: "running E view st1 (es @ added) hs1"
    and le: "unat (next_seq (st_db st1)) \<le> unat (next_seq (st_db st)) + total_cost (concat (map fst ws))"
    by (auto simp: progress_def)
  have "unat (next_seq (st_db st1)) + total_cost (fst w) < 2 ^ 64" using le room by (simp add: total_cost_def)
  from serve_all_running [OF one w this, of hex] obtain more hs2 where
    "running E view (fold (serve hex E) (fst w) st1) (es @ added @ more) hs2" by (auto simp: progress_def)
  with run show ?thesis by blast
qed

text \<open>
  C18. The life of a server process from start-up to shutdown: on a disk with a gap-free log and correctly
  signed heads, a usable key file, addresses that can be bound and requests that come one after another,
  the process either reports a RocksDB error at start-up, or serves all requests and returns with every
  entry still in the log and nothing but the new entries added. If the signing task ends within the ten
  seconds \<^verbatim>\<open>main\<close> gives it, there is a correctly signed head over the whole log, unless the last cycle failed
  in RocksDB and the error was logged. If it does not, \<^verbatim>\<open>main\<close> returns with a warning and that head is only
  there when the last cycle still ran.
\<close>

theorem server_lifetime:
  assumes laws: "env_laws E view" and disk: "log_fam (e_codec E) (e_sha E) (view d) es" "heads_fam (e_codec E) (view d) hs"
      "\<forall>s \<in> set hs. root_ok E es s" "keys_fam (e_codec E) (view d) ks"
    and signed: "\<forall>s \<in> set hs. verify_sth (e_ed E) s"
    and schema: "fmlookup (view d CfDefault) SCHEMA_VERSION_KEY \<in> {None, Some (u32_key CURRENT_SCHEMA_VERSION)}"
    and gapfree: "gapfree es" and room: "length es + total_cost (concat (map fst (ws @ [w]))) < 2 ^ 64"
    and keyfile: "file = Some (Inr (to_vec sk)) \<or> file = None \<and> wr = None \<and> fresh = sk"
    and clocks: "\<forall>(reqs, now) \<in> set (ws @ [w]). list_all clock_ok reqs \<and> 0 \<le> now"
  shows "(\<exists>m. server_main hex E args (DbOpen (Inr d)) file fresh wr tick None None ws w grace = Inl (Err (StartUp (AppStorage (RocksDb m)))))
    \<or> (\<exists>st' logged e added hs'.
        server_main hex E args (DbOpen (Inr d)) file fresh wr tick None None ws w grace = Inr ((st', logged, e), grace \<noteq> InTime)
        \<and> running E view st' (es @ added) hs'
        \<and> (grace = TimedOut False \<and> e = Waiting
           \<or> e = Finished \<and> (fully_signed E (es @ added) hs'
                \<or> (\<exists>earlier m. logged = earlier @ [SigningFailedOnShutdown (AppStorage (RocksDb m))]))))"
proof -
  have len: "length es < 2 ^ 64" using room by linarith
  note start = build_core [OF laws disk schema gapfree_below [OF gapfree len] keyfile refl, of "config_of_args args" tick]
  from start consider m where "build E (config_of_args args) (DbOpen (Inr d)) file fresh wr tick = Inl (Err (AppStorage (RocksDb m)))"
    | st where "build E (config_of_args args) (DbOpen (Inr d)) file fresh wr tick = Inr st" "core_inv E view st es hs"
        "dense (st_db st) es" "\<not> st_poisoned st"
    using gapfree unfolding rocks_or_def by blast
  then show ?thesis
  proof cases
    case 1
    then show ?thesis by (simp add: server_main_eqs)
  next
    case 2
    then have run: "running E view st es hs" using signed by (simp add: running_def)
    have room': "unat (next_seq (st_db st)) + total_cost (concat (map fst (ws @ [w]))) < 2 ^ 64"
      using room dense_next [OF 2(3)] by simp
    show ?thesis
    proof (cases "grace = TimedOut False")
      case True
      from timed_out_running [OF run clocks room', of hex] 2(1) show ?thesis
        by (simp add: server_main_eqs True) fastforce
    next
      case False
      obtain st' logged added hs' where fin: "sth_run hex E (timed ws @ [(fst w, ShutdownChanged (snd w))]) st [] = (st', logged, Finished)"
        "running E view st' (es @ added) hs'" "fully_signed E (es @ added) hs'
           \<or> (\<exists>earlier m. logged = earlier @ [SigningFailedOnShutdown (AppStorage (RocksDb m))])"
        using shutdown_signs_everything [OF run clocks room', of hex "[]"] by blast
      have "server_main hex E args (DbOpen (Inr d)) file fresh wr tick None None ws w grace = Inr ((st', logged, Finished), grace \<noteq> InTime)"
        using fin(1) 2(1) False by (cases grace) (auto simp: server_main_eqs Let_def split: bool.splits)
      with fin(2,3) show ?thesis by blast
    qed
  qed
qed

text \<open>
  C34. No request can break the state: whatever sequence of appends, batches, rotations and forced signing
  cycles the server handles, failing or not, the state keeps its invariant (log, heads and Merkle tree
  agree, every head verifies, the append lock is not poisoned), the log keeps its entries, and the
  sequence counter moves by at most the number of entries requested.
\<close>

theorem requests_keep_invariant:
  assumes "running E view st es hs" and "list_all clock_ok reqs" and "unat (next_seq (st_db st)) + total_cost reqs < 2 ^ 64"
  shows "\<exists>added hs'. running E view (fold (serve hex E) reqs st) (es @ added) hs'
    \<and> unat (next_seq (st_db (fold (serve hex E) reqs st))) \<le> unat (next_seq (st_db st)) + total_cost reqs"
  using serve_all_running [OF assms, of hex] by (auto simp: progress_def)

section \<open>Witnesses\<close>

lemma sample_restartable: "restartable mem_env (\<lambda>d. d) sample_state"
  using sample_state_inv(1) by (auto simp: restartable_def server_inv_core sample_state_def)

lemma sample_running: "running mem_env (\<lambda>d. d) sample_state [] []"
  using sample_state_inv(1) sample_unpoisoned(1) by (simp add: running_def server_inv_core)

text \<open>A rotation of the sample server is killed while the new key file is being written: two of its bytes are there.\<close>

definition torn_machine :: "families machine" where
  "torn_machine = \<lparr>mc_st = signed_state\<lparr>st_key_file := Some [8, 0]\<rparr>, mc_jobs = [KeyFile 1 2 (arr_of [8])]\<rparr>"

lemma torn_machine_run: "(mstep mem_env)\<^sup>*\<^sup>* \<lparr>mc_st = signed_state, mc_jobs = []\<rparr> torn_machine"
proof -
  have "mt_size (st_merkle signed_state) = 1" "sg_version (st_signer signed_state) = 1"
    by (simp_all add: signed_state_def sample_eval)
  then show ?thesis
    using mstep.rotate [OF sample_unpoisoned(3), of mem_env "[]"] mstep.rotate_version [of mem_env signed_state "[]" 1 "[]"]
      mstep.key_writing [of mem_env signed_state "[]" 1 2 "[]" "Some [8, 0]" "arr_of [8]"]
    by (auto simp: torn_machine_def intro: converse_rtranclp_into_rtranclp)
qed

theorem restart_recovers_witness:
  "\<exists>es' hs'. core_inv mem_env (\<lambda>d. d) (mc_st torn_machine) es' hs' \<and> evolves ([new_entry toy_sha 5 0 [1] [2]], [sample_head]) (es', hs')
    \<and> ((\<exists>msg. build mem_env sample_config (DbOpen (Inr (db_rocks (st_db (mc_st torn_machine))))) (Some (Inr [8, 0])) (arr_of [9]) None 0 =
          Inl (Err (AppStorage (RocksDb msg))))
      \<or> build mem_env sample_config (DbOpen (Inr (db_rocks (st_db (mc_st torn_machine))))) (Some (Inr [8, 0])) (arr_of [9]) None 0 =
          Inl (Err (AppMsg ''signing key file must be exactly 32 bytes'')))"
proof -
  have core: "core_inv mem_env (\<lambda>d. d) signed_state [new_entry toy_sha 5 0 [1] [2]] [sample_head]"
    using signed_state_inv(1) by (simp add: server_inv_core)
  have ok: "restartable mem_env (\<lambda>d. d) signed_state"
    using signed_state_inv(1) by (auto simp: restartable_def server_inv_core signed_state_def sample_eval)
  have torn: "st_key_file (mc_st torn_machine) = Some [8, 0]" by (simp add: torn_machine_def)
  have bad: "build mem_env sample_config (DbOpen (Inr d)) (Some (Inr [8, 0])) (arr_of [9]) None 0 \<noteq> Inr st'" for d st'
    by (auto simp: build_def load_or_generate_def try_into_def bindR_def split: sum.splits)
  from restart_recovers [OF core ok torn_machine_run refl, of sample_config "arr_of [9]" None 0] torn bad show ?thesis
    by (simp del: split_paired_Ex)
qed

definition sample_args :: server_args where
  "sample_args = \<lparr>sa_data_dir = ''/data'', sa_key_path = None, sa_listen = ''a'', sa_admin_listen = ''b'',
     sa_sth_interval_secs = 60, sa_api_key = None, sa_max_appends_per_sec = None, sa_max_get_latest = 1000, sa_max_message_bytes = 4194304\<rparr>"

theorem server_lifetime_witness:
  "(\<exists>m. server_main toy_hex mem_env sample_args (DbOpen (Inr (\<lambda>_. fmempty))) None (arr_of [7]) None 0 None None
        [([ReqAppend 5 0 [1] [2]], 9)] ([ReqAppend 7 0 [3] [4]], 11) InTime = Inl (Err (StartUp (AppStorage (RocksDb m)))))
    \<or> (\<exists>st' logged added hs'. server_main toy_hex mem_env sample_args (DbOpen (Inr (\<lambda>_. fmempty))) None (arr_of [7]) None 0 None None
          [([ReqAppend 5 0 [1] [2]], 9)] ([ReqAppend 7 0 [3] [4]], 11) InTime = Inr ((st', logged, Finished), False)
        \<and> running mem_env (\<lambda>d. d) st' added hs'
        \<and> (fully_signed mem_env added hs'
           \<or> (\<exists>earlier m. logged = earlier @ [SigningFailedOnShutdown (AppStorage (RocksDb m))])))"
proof -
  have disk: "log_fam (e_codec mem_env) (e_sha mem_env) (\<lambda>_. fmempty) []" "heads_fam (e_codec mem_env) (\<lambda>_. fmempty) []"
    "keys_fam (e_codec mem_env) (\<lambda>_. fmempty) []"
    using empty_disk [of mem_env] by (simp_all add: disk_inv_def)
  have schema: "fmlookup fmempty SCHEMA_VERSION_KEY \<in> {None, Some (u32_key CURRENT_SCHEMA_VERSION)}" by simp
  have keyfile: "(None :: (string + bytes) option) = Some (Inr (to_vec (arr_of [7] :: signing_key)))
      \<or> (None :: (string + bytes) option) = None \<and> (None :: string option) = None \<and> (arr_of [7] :: signing_key) = arr_of [7]" by simp
  from server_lifetime [where view = "\<lambda>d. d" and d = "\<lambda>_. fmempty" and grace = InTime and args = sample_args and hex = toy_hex and tick = 0
      and ws = "[([ReqAppend 5 0 [1] [2]], 9)]" and w = "([ReqAppend 7 0 [3] [4]], 11)" and fresh = "arr_of [7]" and sk = "arr_of [7]",
      OF mem_env_laws disk(1,2) _ disk(3) _ schema _ _ keyfile]
  show ?thesis by (simp add: gapfree_def total_cost_def) blast
qed

theorem requests_keep_invariant_witness:
  "\<exists>added hs'. running mem_env (\<lambda>d. d) (fold (serve toy_hex mem_env) [ReqAppend 5 0 [1] [2], ReqForce 9] sample_state) ([] @ added) hs'
    \<and> unat (next_seq (st_db (fold (serve toy_hex mem_env) [ReqAppend 5 0 [1] [2], ReqForce 9] sample_state)))
      \<le> unat (next_seq (st_db sample_state)) + total_cost [ReqAppend 5 0 [1] [2], ReqForce 9]"
  by (rule requests_keep_invariant [OF sample_running])
    (use sample_state_inv(2) in \<open>simp_all add: total_cost_def dense_def\<close>)

end
