(* ===== verification/Sdk_Client.thy ===== *)
theory Sdk_Client
  imports Server_Serve
begin

text \<open>
  The Rust SDK's client, \<^verbatim>\<open>sdks/rust/src/client.rs\<close>. The stub that tonic generates from the protobuf
  file is a parameter: the record \<open>stub\<close> has one function per RPC, from the metadata and the request to a
  status or a response, over a state \<open>'n\<close> of the network and the server behind it. A sub-message of a
  response may be missing on the wire, so it is an option, and the client replaces a missing one by the
  default message. The conversion of a string to a header value (\<^verbatim>\<open>MetadataValue\<close>) is a parameter too:
  \<open>None\<close> stands for a string that tonic refuses.
\<close>

datatype client_error = InvalidAddress string | Transport string | Rpc status

record client_sth =
  cs_tree_size :: u64
  cs_root_hash :: bytes
  cs_timestamp_ns :: i64
  cs_signature :: bytes
  cs_public_key :: bytes
  cs_key_version :: u32

record append_result =
  res_seq :: u64
  res_timestamp_ns :: i64
  res_leaf_hash :: bytes
  res_key :: bytes

record client_entry =
  ce_seq :: u64
  ce_timestamp_ns :: i64
  ce_key :: bytes
  ce_data :: bytes
  ce_leaf_hash :: bytes

record inclusion_proof_result =
  ipr_leaf_index :: u64
  ipr_tree_size :: u64
  ipr_proof :: "bytes list"
  ipr_sth :: client_sth

record consistency_proof_result =
  cpr_old_size :: u64
  cpr_new_size :: u64
  cpr_proof :: "bytes list"
  cpr_old_sth :: client_sth
  cpr_new_sth :: client_sth

record get_latest_result =
  glr_entries :: "client_entry list"
  glr_total_available :: u64

record page_result =
  pg_entries :: "client_entry list"
  pg_next_cursor :: u64

section \<open>Messages on the wire\<close>

type_synonym metadata = "string \<rightharpoonup> bytes"

record pb_inclusion =
  pbi_leaf_index :: u64
  pbi_tree_size :: u64
  pbi_proof :: "bytes list"
  pbi_sth :: "signed_tree_head_proto option"

record pb_consistency =
  pbc_old_size :: u64
  pbc_new_size :: u64
  pbc_proof :: "bytes list"
  pbc_old_sth :: "signed_tree_head_proto option"
  pbc_new_sth :: "signed_tree_head_proto option"

record 'n stub =
  call_append :: "metadata \<Rightarrow> bytes \<times> bytes \<Rightarrow> 'n \<Rightarrow> 'n \<times> (status + append_response)"
  call_batch_append :: "metadata \<Rightarrow> (bytes \<times> bytes) list \<Rightarrow> 'n \<Rightarrow> 'n \<times> (status + append_response list)"
  call_get :: "metadata \<Rightarrow> u64 \<Rightarrow> 'n \<Rightarrow> 'n \<times> (status + entry option)"
  call_get_latest :: "metadata \<Rightarrow> u32 \<Rightarrow> 'n \<Rightarrow> 'n \<times> (status + entry list \<times> u64)"
  call_get_sth :: "metadata \<Rightarrow> u64 \<Rightarrow> 'n \<Rightarrow> 'n \<times> (status + signed_tree_head_proto option)"
  call_inclusion_proof :: "metadata \<Rightarrow> u64 \<times> u64 \<Rightarrow> 'n \<Rightarrow> 'n \<times> (status + pb_inclusion)"
  call_watch :: "metadata \<Rightarrow> u64 \<Rightarrow> 'n \<Rightarrow> 'n \<times> (status + (status + entry) list)"
  call_list_entries :: "metadata \<Rightarrow> u64 \<times> u64 \<times> u64 \<times> u32 \<Rightarrow> 'n \<Rightarrow> 'n \<times> (status + entry list \<times> u64)"
  call_get_by_key :: "metadata \<Rightarrow> bytes \<times> u64 \<times> u32 \<Rightarrow> 'n \<Rightarrow> 'n \<times> (status + entry list \<times> u64)"
  call_consistency_proof :: "metadata \<Rightarrow> u64 \<times> u64 \<Rightarrow> 'n \<Rightarrow> 'n \<times> (status + pb_consistency)"

text \<open>The default messages of proto3: zeros and empty strings.\<close>

definition default_sth :: signed_tree_head_proto where
  "default_sth = \<lparr>sp_tree_size = 0, sp_root_hash = [], sp_timestamp_ns = 0, sp_signature = [], sp_public_key = [],
     sp_key_version = 0\<rparr>"

definition default_entry :: entry where
  "default_entry = \<lparr>en_seq = 0, en_timestamp_ns = 0, en_key = [], en_data = [], en_leaf_hash = []\<rparr>"

definition unwrap_or :: "'a \<Rightarrow> 'a option \<Rightarrow> 'a" where
  "unwrap_or d x = (case x of None \<Rightarrow> d | Some a \<Rightarrow> a)"

lemma unwrap_or_simps [simp]: "unwrap_or d None = d" "unwrap_or d (Some a) = a"
  by (simp_all add: unwrap_or_def)

section \<open>The client\<close>

definition from_pb_sth :: "signed_tree_head_proto \<Rightarrow> client_sth" where
  "from_pb_sth s = \<lparr>cs_tree_size = sp_tree_size s, cs_root_hash = sp_root_hash s, cs_timestamp_ns = sp_timestamp_ns s,
     cs_signature = sp_signature s, cs_public_key = sp_public_key s, cs_key_version = sp_key_version s\<rparr>"

definition from_pb_entry :: "entry \<Rightarrow> client_entry" where
  "from_pb_entry e = \<lparr>ce_seq = en_seq e, ce_timestamp_ns = en_timestamp_ns e, ce_key = en_key e, ce_data = en_data e,
     ce_leaf_hash = en_leaf_hash e\<rparr>"

record settled_client =
  cl_auth_header :: "bytes option"

text \<open>
  \<open>valid\<close>: does the channel accept the address; \<open>dialled\<close>: the error of connecting, if any; \<open>mv\<close>: the
  header value of a string.
\<close>

definition client_build ::
  "(string \<Rightarrow> bool) \<Rightarrow> string option \<Rightarrow> (string \<Rightarrow> bytes option) \<Rightarrow> string \<Rightarrow> string option \<Rightarrow>
   (client_error, settled_client) result" where
  "client_build valid dialled mv addr api_key =
     (if \<not> valid addr then Inl (Err (InvalidAddress addr))
      else case dialled of
        Some e \<Rightarrow> Inl (Err (Transport e))
      | None \<Rightarrow>
        (case api_key of
           None \<Rightarrow> Inr \<lparr>cl_auth_header = None\<rparr>
         | Some k \<Rightarrow> bindR (unwrap (mv (''Bearer '' @ k))) (\<lambda>v. Inr \<lparr>cl_auth_header = Some v\<rparr>)))"

definition client_connect ::
  "(string \<Rightarrow> bool) \<Rightarrow> string option \<Rightarrow> (string \<Rightarrow> bytes option) \<Rightarrow> string \<Rightarrow> (client_error, settled_client) result" where
  "client_connect valid dialled mv addr = client_build valid dialled mv addr None"

definition client_connect_with_api_key ::
  "(string \<Rightarrow> bool) \<Rightarrow> string option \<Rightarrow> (string \<Rightarrow> bytes option) \<Rightarrow> string \<Rightarrow> string \<Rightarrow>
   (client_error, settled_client) result" where
  "client_connect_with_api_key valid dialled mv addr api_key = client_build valid dialled mv addr (Some api_key)"

text \<open>The metadata of a request: the only header the client sets.\<close>

definition make_request :: "settled_client \<Rightarrow> metadata" where
  "make_request c = (case cl_auth_header c of None \<Rightarrow> Map.empty | Some v \<Rightarrow> Map.empty(''authorization'' \<mapsto> v))"

text \<open>The tail of every call: a status becomes \<^verbatim>\<open>ClientError::Rpc\<close>, a response is converted.\<close>

definition finish :: "('a \<Rightarrow> 'b) \<Rightarrow> 'n \<times> (status + 'a) \<Rightarrow> 'n \<times> (client_error, 'b) result" where
  "finish f = (\<lambda>(n, r). (n, case r of Inl s \<Rightarrow> Inl (Err (Rpc s)) | Inr a \<Rightarrow> Inr (f a)))"

lemma finish_simps [simp]: "finish f (n, Inl s) = (n, Inl (Err (Rpc s)))" "finish f (n, Inr a) = (n, Inr (f a))"
  by (simp_all add: finish_def)

definition append_result_of :: "append_response \<Rightarrow> append_result" where
  "append_result_of r = \<lparr>res_seq = ar_seq r, res_timestamp_ns = ar_timestamp_ns r, res_leaf_hash = ar_leaf_hash r, res_key = ar_key r\<rparr>"

definition client_append ::
  "'n stub \<Rightarrow> settled_client \<Rightarrow> bytes \<Rightarrow> bytes \<Rightarrow> 'n \<Rightarrow> 'n \<times> (client_error, append_result) result" where
  "client_append S c key data n = finish append_result_of (call_append S (make_request c) (key, data) n)"

definition client_batch_append ::
  "'n stub \<Rightarrow> settled_client \<Rightarrow> (bytes \<times> bytes) list \<Rightarrow> 'n \<Rightarrow> 'n \<times> (client_error, append_result list) result" where
  "client_batch_append S c entries n = finish (map append_result_of) (call_batch_append S (make_request c) entries n)"

definition client_get :: "'n stub \<Rightarrow> settled_client \<Rightarrow> u64 \<Rightarrow> 'n \<Rightarrow> 'n \<times> (client_error, client_entry) result" where
  "client_get S c seq n = finish (\<lambda>r. from_pb_entry (unwrap_or default_entry r)) (call_get S (make_request c) seq n)"

definition client_get_latest ::
  "'n stub \<Rightarrow> settled_client \<Rightarrow> u32 \<Rightarrow> 'n \<Rightarrow> 'n \<times> (client_error, get_latest_result) result" where
  "client_get_latest S c k n =
     finish (\<lambda>(es, total). \<lparr>glr_entries = map from_pb_entry es, glr_total_available = total\<rparr>)
       (call_get_latest S (make_request c) k n)"

definition client_get_sth :: "'n stub \<Rightarrow> settled_client \<Rightarrow> u64 \<Rightarrow> 'n \<Rightarrow> 'n \<times> (client_error, client_sth) result" where
  "client_get_sth S c tree_size n =
     finish (\<lambda>r. from_pb_sth (unwrap_or default_sth r)) (call_get_sth S (make_request c) tree_size n)"

definition client_inclusion_proof ::
  "'n stub \<Rightarrow> settled_client \<Rightarrow> u64 \<Rightarrow> u64 \<Rightarrow> 'n \<Rightarrow> 'n \<times> (client_error, inclusion_proof_result) result" where
  "client_inclusion_proof S c seq tree_size n =
     finish (\<lambda>r. \<lparr>ipr_leaf_index = pbi_leaf_index r, ipr_tree_size = pbi_tree_size r, ipr_proof = pbi_proof r,
         ipr_sth = from_pb_sth (unwrap_or default_sth (pbi_sth r))\<rparr>)
       (call_inclusion_proof S (make_request c) (seq, tree_size) n)"

definition client_list_entries ::
  "'n stub \<Rightarrow> settled_client \<Rightarrow> u64 \<Rightarrow> u64 \<Rightarrow> u64 \<Rightarrow> u32 \<Rightarrow> 'n \<Rightarrow> 'n \<times> (client_error, page_result) result" where
  "client_list_entries S c from_seq to_seq cursor limit n =
     finish (\<lambda>(es, next). \<lparr>pg_entries = map from_pb_entry es, pg_next_cursor = next\<rparr>)
       (call_list_entries S (make_request c) (from_seq, to_seq, cursor, limit) n)"

definition client_get_by_key ::
  "'n stub \<Rightarrow> settled_client \<Rightarrow> bytes \<Rightarrow> u64 \<Rightarrow> u32 \<Rightarrow> 'n \<Rightarrow> 'n \<times> (client_error, page_result) result" where
  "client_get_by_key S c key cursor limit n =
     finish (\<lambda>(es, next). \<lparr>pg_entries = map from_pb_entry es, pg_next_cursor = next\<rparr>)
       (call_get_by_key S (make_request c) (key, cursor, limit) n)"

definition client_consistency_proof ::
  "'n stub \<Rightarrow> settled_client \<Rightarrow> u64 \<Rightarrow> u64 \<Rightarrow> 'n \<Rightarrow> 'n \<times> (client_error, consistency_proof_result) result" where
  "client_consistency_proof S c old_size new_size n =
     finish (\<lambda>r. \<lparr>cpr_old_size = pbc_old_size r, cpr_new_size = pbc_new_size r, cpr_proof = pbc_proof r,
         cpr_old_sth = from_pb_sth (unwrap_or default_sth (pbc_old_sth r)),
         cpr_new_sth = from_pb_sth (unwrap_or default_sth (pbc_new_sth r))\<rparr>)
       (call_consistency_proof S (make_request c) (old_size, new_size) n)"

text \<open>A stream of entries: the messages that are still to come.\<close>

record entry_stream =
  es_inner :: "(status + entry) list"

definition client_watch_entries ::
  "'n stub \<Rightarrow> settled_client \<Rightarrow> u64 \<Rightarrow> 'n \<Rightarrow> 'n \<times> (client_error, entry_stream) result" where
  "client_watch_entries S c from_seq n =
     finish (\<lambda>msgs. \<lparr>es_inner = msgs\<rparr>) (call_watch S (make_request c) from_seq n)"

definition stream_next :: "entry_stream \<Rightarrow> entry_stream \<times> (client_error + client_entry) option" where
  "stream_next s = (case es_inner s of
     [] \<Rightarrow> (s, None)
   | Inr e # msgs \<Rightarrow> (s\<lparr>es_inner := msgs\<rparr>, Some (Inr (from_pb_entry e)))
   | Inl st # msgs \<Rightarrow> (s\<lparr>es_inner := msgs\<rparr>, Some (Inl (Rpc st))))"

end
