(* ===== verification/Server_Front.thy ===== *)
theory Server_Front
  imports Sdk_Client
begin

text \<open>
  From the SDK client to the handlers: the authentication layer in front of the gRPC service (the
  interceptor of \<^verbatim>\<open>settled-server/src/main.rs\<close>) and the stub that reaches the handlers of \<open>Server_Rpc\<close> through
  it. \<open>server_stub\<close> is the server with one client: the calls of this client are all that happens, at one reading
  of the clocks. \<open>answers st r y\<close> says that a call returns \<open>y\<close> and leaves the server state \<open>st\<close> alone, unless
  RocksDB reports an error.
\<close>

section \<open>Authentication\<close>

text \<open>The bytes of a string; a character of the model is a byte.\<close>

definition string_bytes :: "string \<Rightarrow> bytes" where
  "string_bytes s = map (\<lambda>c. of_nat (of_char c)) s"

definition unauthenticated :: status where
  "unauthenticated = (CodeUnauthenticated, ''missing or invalid api key'')"

definition interceptor :: "config \<Rightarrow> metadata \<Rightarrow> (status, unit) result" where
  "interceptor cfg md = (case cfg_api_key cfg of
     Some expected \<Rightarrow>
       (let ok = (case md ''authorization'' of None \<Rightarrow> False | Some v \<Rightarrow> v = string_bytes (''Bearer '' @ expected))
        in if ok then Inr () else Inl (Err unauthenticated))
   | None \<Rightarrow> Inr ())"

section \<open>The server behind the stub\<close>

text \<open>What the client sees of a handler's result; \<open>crash\<close> is the status of a call whose handler panics.\<close>

definition reply :: "status \<Rightarrow> (status, 'a) result \<Rightarrow> status + 'a" where
  "reply crash r = (case r of Inl (Err s) \<Rightarrow> Inl s | Inl (Panic _) \<Rightarrow> Inl crash | Inr a \<Rightarrow> Inr a)"

definition guarded ::
  "status \<Rightarrow> metadata \<Rightarrow> ('d app_state \<Rightarrow> 'd app_state \<times> (status, 'a) result) \<Rightarrow> 'd app_state \<Rightarrow> 'd app_state \<times> (status + 'a)" where
  "guarded crash md h st = (case interceptor (st_config st) md of
     Inl e \<Rightarrow> (st, reply crash (Inl e))
   | Inr _ \<Rightarrow> (case h st of (st, r) \<Rightarrow> (st, reply crash r)))"

definition pb_inclusion_of :: "inclusion_response \<Rightarrow> pb_inclusion" where
  "pb_inclusion_of r = \<lparr>pbi_leaf_index = ip_leaf_index r, pbi_tree_size = ip_tree_size r, pbi_proof = ip_proof r,
     pbi_sth = Some (ip_sth r)\<rparr>"

definition pb_consistency_of :: "consistency_response \<Rightarrow> pb_consistency" where
  "pb_consistency_of r = \<lparr>pbc_old_size = cp_old_size r, pbc_new_size = cp_new_size r, pbc_proof = cp_proof r,
     pbc_old_sth = Some (cp_old_sth r), pbc_new_sth = Some (cp_new_sth r)\<rparr>"

definition server_stub ::
  "'d env \<Rightarrow> status \<Rightarrow> int \<Rightarrow> nat \<Rightarrow> (u64 \<Rightarrow> 'd app_state \<Rightarrow> (status + entry) list) \<Rightarrow> 'd app_state stub" where
  "server_stub E crash now tick stream = \<lparr>
     call_append = (\<lambda>md (key, data). guarded crash md (rpc_append E now tick key data)),
     call_batch_append = (\<lambda>md reqs. guarded crash md (rpc_batch_append E now tick reqs)),
     call_get = (\<lambda>md seq. guarded crash md (\<lambda>st. (st, bindR (rpc_get E seq st) (\<lambda>e. Inr (Some e))))),
     call_get_latest = (\<lambda>md n. guarded crash md (\<lambda>st. (st, rpc_get_latest E n st))),
     call_get_sth = (\<lambda>md size. guarded crash md (\<lambda>st. (st, bindR (rpc_get_sth E size st) (\<lambda>s. Inr (Some s))))),
     call_inclusion_proof = (\<lambda>md (seq, size). guarded crash md (\<lambda>st.
       (st, bindR (rpc_inclusion_proof E seq size st) (\<lambda>r. Inr (pb_inclusion_of r))))),
     call_watch = (\<lambda>md from_seq. guarded crash md (\<lambda>st. (st, Inr (stream from_seq st)))),
     call_list_entries = (\<lambda>md (from_seq, to_seq, cursor, limit). guarded crash md (\<lambda>st.
       (st, rpc_list_entries E from_seq to_seq limit cursor st))),
     call_get_by_key = (\<lambda>md (key, cursor, limit). guarded crash md (\<lambda>st. (st, rpc_get_by_key E key limit cursor st))),
     call_consistency_proof = (\<lambda>md (old, new). guarded crash md (\<lambda>st.
       (st, bindR (rpc_consistency_proof E old new st) (\<lambda>r. Inr (pb_consistency_of r)))))\<rparr>"

section \<open>What the calls of the client return\<close>

lemma interceptor_open: "cfg_api_key cfg = None \<Longrightarrow> interceptor cfg md = Inr ()"
  by (simp add: interceptor_def)

definition answers :: "'n \<Rightarrow> 'n \<times> (client_error, 'a) result \<Rightarrow> 'a \<Rightarrow> bool" where
  "answers st r y \<longleftrightarrow> r = (st, Inr y) \<or> (\<exists>m. r = (st, Inl (Err (Rpc (CodeInternal, ''RocksDB error: '' @ m)))))"

lemma finish_served:
  assumes "served r (Inr x)" and "interceptor (st_config st) md = Inr ()"
  shows "answers st (finish f (guarded crash md (\<lambda>st. (st, bindR r (\<lambda>x. Inr (g x)))) st)) (f (g x))"
  using assms by (auto simp: answers_def guarded_def reply_def served_def)

lemma bindR_Inr_right [simp]: "bindR r Inr = r"
  by (cases r) simp_all

lemma get_answers:
  assumes "yields (ls_get_by_seq (e_rocks E) (e_codec E) (st_db st) seq) (Some e)"
    and "interceptor (st_config st) (make_request c) = Inr ()"
  shows "answers st (client_get (server_stub E crash now tick stream) c seq st) (from_pb_entry (entry_of e))"
proof -
  have "served (rpc_get E seq st) (Inr (entry_of e))"
    unfolding rpc_get_def by (rule served_bind [OF served_storage(1) [OF assms(1)]]) (simp add: ok_or_def)
  from finish_served [OF this assms(2), where g = Some and f = "\<lambda>r. from_pb_entry (unwrap_or default_entry r)" and crash = crash]
  show ?thesis by (simp add: client_get_def server_stub_def guarded_def)
qed

lemma get_sth_answers:
  assumes "core_inv E view st es hs" and "hs \<noteq> []" and "interceptor (st_config st) (make_request c) = Inr ()"
  shows "answers st (client_get_sth (server_stub E crash now tick stream) c 0 st) (from_pb_sth (sth_to_proto (last hs)))"
proof -
  have "served (rpc_get_sth E 0 st) (Inr (sth_to_proto (last hs)))"
    unfolding rpc_get_sth_def using latest_head_served [OF assms(1)] assms(2) by (intro served_bind [where x = "last hs"]) simp_all
  from finish_served [OF this assms(3), where g = Some and f = "\<lambda>r. from_pb_sth (unwrap_or default_sth r)" and crash = crash]
  show ?thesis by (simp add: client_get_sth_def server_stub_def guarded_def)
qed

lemma inclusion_answers:
  assumes "served (rpc_inclusion_proof E seq k st)
      (Inr \<lparr>ip_leaf_index = seq, ip_tree_size = n, ip_proof = map to_vec p, ip_sth = s\<rparr>)"
    and "interceptor (st_config st) (make_request c) = Inr ()"
  shows "answers st (client_inclusion_proof (server_stub E crash now tick stream) c seq k st)
    \<lparr>ipr_leaf_index = seq, ipr_tree_size = n, ipr_proof = map to_vec p, ipr_sth = from_pb_sth s\<rparr>"
  using finish_served [OF assms, where g = pb_inclusion_of and crash = crash and
    f = "\<lambda>r. \<lparr>ipr_leaf_index = pbi_leaf_index r, ipr_tree_size = pbi_tree_size r, ipr_proof = pbi_proof r,
         ipr_sth = from_pb_sth (unwrap_or default_sth (pbi_sth r))\<rparr>"]
  by (simp add: client_inclusion_proof_def server_stub_def guarded_def pb_inclusion_of_def)

lemma consistency_answers:
  assumes "served (rpc_consistency_proof E old new st)
      (Inr \<lparr>cp_old_size = m, cp_new_size = n, cp_proof = map to_vec p, cp_old_sth = s, cp_new_sth = s'\<rparr>)"
    and "interceptor (st_config st) (make_request c) = Inr ()"
  shows "answers st (client_consistency_proof (server_stub E crash now tick stream) c old new st)
    \<lparr>cpr_old_size = m, cpr_new_size = n, cpr_proof = map to_vec p, cpr_old_sth = from_pb_sth s, cpr_new_sth = from_pb_sth s'\<rparr>"
  using finish_served [OF assms, where g = pb_consistency_of and crash = crash and
    f = "\<lambda>r. \<lparr>cpr_old_size = pbc_old_size r, cpr_new_size = pbc_new_size r, cpr_proof = pbc_proof r,
         cpr_old_sth = from_pb_sth (unwrap_or default_sth (pbc_old_sth r)),
         cpr_new_sth = from_pb_sth (unwrap_or default_sth (pbc_new_sth r))\<rparr>"]
  by (simp add: client_consistency_proof_def server_stub_def guarded_def pb_consistency_of_def)

text \<open>The first page is asked for with the cursor 0, which the handlers read as the start of the log.\<close>

lemma list_entries_answers:
  assumes page: "yields (ls_seq_range_paged (e_rocks E) (e_codec E) (st_db st) cursor to_seq 50) (es, next)"
    and pass: "interceptor (st_config st) (make_request c) = Inr ()"
  shows "answers st (client_list_entries (server_stub E crash now tick stream) c 0 to_seq cursor 0 st)
    \<lparr>pg_entries = map (\<lambda>e. from_pb_entry (entry_of e)) es, pg_next_cursor = next\<rparr>"
proof -
  have start: "(if 0 < cursor then cursor else 0) = cursor" by (simp add: word_gt_0)
  have "served (bindR (blocking (ls_seq_range_paged (e_rocks E) (e_codec E) (st_db st) cursor to_seq 50))
      (\<lambda>(entries, next). Inr (map entry_of entries, next))) (Inr (map entry_of es, next))"
    by (rule served_bind [OF served_storage(2) [OF page]]) simp
  then have "served (rpc_list_entries E 0 to_seq 0 cursor st) (Inr (map entry_of es, next))"
    by (simp add: rpc_list_entries_def start)
  from finish_served [OF this pass, where g = "\<lambda>x. x" and crash = crash and
      f = "\<lambda>(es, next). \<lparr>pg_entries = map from_pb_entry es, pg_next_cursor = next\<rparr>"]
  show ?thesis by (simp add: client_list_entries_def server_stub_def guarded_def comp_def)
qed

lemma get_by_key_answers:
  assumes page: "yields (ls_entries_by_key (e_rocks E) (e_codec E) (st_db st) key cursor 50) (es, next)" and "key \<noteq> []"
    and pass: "interceptor (st_config st) (make_request c) = Inr ()"
  shows "answers st (client_get_by_key (server_stub E crash now tick stream) c key cursor 0 st)
    \<lparr>pg_entries = map (\<lambda>e. from_pb_entry (entry_of e)) es, pg_next_cursor = next\<rparr>"
proof -
  have "served (bindR (blocking (ls_entries_by_key (e_rocks E) (e_codec E) (st_db st) key cursor 50))
      (\<lambda>(entries, next). Inr (map entry_of entries, next))) (Inr (map entry_of es, next))"
    by (rule served_bind [OF served_storage(2) [OF page]]) simp
  then have "served (rpc_get_by_key E key 0 cursor st) (Inr (map entry_of es, next))"
    using \<open>key \<noteq> []\<close> by (simp add: rpc_get_by_key_def)
  from finish_served [OF this pass, where g = "\<lambda>x. x" and crash = crash and
      f = "\<lambda>(es, next). \<lparr>pg_entries = map from_pb_entry es, pg_next_cursor = next\<rparr>"]
  show ?thesis by (simp add: client_get_by_key_def server_stub_def guarded_def comp_def)
qed

section \<open>Properties\<close>

lemma string_bytes_inject: "string_bytes s = string_bytes t \<longleftrightarrow> s = t"
proof -
  have "inj (\<lambda>c :: char. of_nat (of_char c) :: u8)"
  proof (rule injI)
    fix c d :: char
    assume "(of_nat (of_char c) :: u8) = of_nat (of_char d)"
    then have "unat (of_nat (of_char c) :: u8) = unat (of_nat (of_char d) :: u8)" by simp
    then have "(of_char c :: nat) = of_char d" by (simp add: unat_of_nat)
    then show "c = d" by simp
  qed
  then show ?thesis unfolding string_bytes_def by (metis map_injective)
qed

text \<open>
  C29. Authentication between SDK and server: if a string becomes a header value byte by byte, then a
  client gets through to the handlers exactly if the server has no API key or the client was built with
  the same one; otherwise the call returns the unauthenticated status and the state is untouched.
\<close>

theorem api_key_authentication:
  assumes header: "\<And>s v. mv s = Some v \<Longrightarrow> v = string_bytes s" and built: "client_build valid None mv addr key = Inr c"
  shows "(interceptor cfg (make_request c) = Inr () \<longleftrightarrow> cfg_api_key cfg = None \<or> cfg_api_key cfg = key)
    \<and> (cfg_api_key (st_config st) \<noteq> None \<and> cfg_api_key (st_config st) \<noteq> key \<longrightarrow>
        client_append (server_stub E crash now tick stream) c k data st = (st, Inl (Err (Rpc unauthenticated))))"
proof -
  have pass: "interceptor cfg (make_request c) = Inr () \<longleftrightarrow> cfg_api_key cfg = None \<or> cfg_api_key cfg = key" for cfg
    using built header [of "''Bearer '' @ the key"]
    by (auto simp: client_build_def interceptor_def make_request_def unwrap_def string_bytes_inject Let_def result_iffs
        split: if_splits option.splits)
  moreover have "interceptor cfg md = Inr () \<or> interceptor cfg md = Inl (Err unauthenticated)" for cfg md
    by (simp add: interceptor_def Let_def split: option.splits)
  then have refuse: "interceptor (st_config st) (make_request c) = Inl (Err unauthenticated)"
    if "cfg_api_key (st_config st) \<noteq> None" "cfg_api_key (st_config st) \<noteq> key"
    using that pass by metis
  ultimately show ?thesis by (auto simp: client_append_def server_stub_def guarded_def reply_def)
qed


section \<open>Witnesses\<close>

definition no_crash :: status where
  "no_crash = (CodeInternal, ''panic'')"

definition toy_stub :: "families app_state stub" where
  "toy_stub = server_stub mem_env no_crash 5 0 (\<lambda>_ _. [])"

lemma sample_open: "cfg_api_key (st_config sample_state) = None" "cfg_api_key (st_config sample_state1) = None"
  "cfg_api_key (st_config signed_state) = None"
  by (simp_all add: sample_state_def sample_state1_def signed_state_def sample_eval sample_config_def)

theorem api_key_authentication_witness:
  "interceptor (st_config signed_state) (make_request \<lparr>cl_auth_header = Some (string_bytes ''Bearer k'')\<rparr>) = Inr ()
    \<and> client_append toy_stub \<lparr>cl_auth_header = Some (string_bytes ''Bearer k'')\<rparr> [1] [2]
        (signed_state\<lparr>st_config := (st_config signed_state)\<lparr>cfg_api_key := Some ''other''\<rparr>\<rparr>) =
      (signed_state\<lparr>st_config := (st_config signed_state)\<lparr>cfg_api_key := Some ''other''\<rparr>\<rparr>, Inl (Err (Rpc unauthenticated)))"
proof -
  have built: "client_build (\<lambda>_. True) None (\<lambda>s. Some (string_bytes s)) ''http'' (Some ''k'') =
      Inr \<lparr>cl_auth_header = Some (string_bytes ''Bearer k'')\<rparr>"
    by (simp add: client_build_def unwrap_def)
  show ?thesis
    using api_key_authentication [OF _ built, of "st_config signed_state"
        "signed_state\<lparr>st_config := (st_config signed_state)\<lparr>cfg_api_key := Some ''other''\<rparr>\<rparr>" mem_env no_crash 5 0 "\<lambda>_ _. []" "[1]" "[2]"]
    by (simp add: toy_stub_def sample_open)
qed


end
