(* ===== verification/Server_Metrics.thy ===== *)
theory Server_Metrics
  imports Server_Main Server_Front
begin

text \<open>
  The metrics of the server (\<^verbatim>\<open>settled-server/src/metrics.rs\<close>) and the places of \<^verbatim>\<open>service.rs\<close> and \<^verbatim>\<open>sth_task.rs\<close>
  that update them. The registry of the crate \<^verbatim>\<open>prometheus\<close> is a parameter, a \<open>monitor\<close>, with what the crate
  documents as \<open>monitor_laws\<close>: it is read through \<open>mo_read\<close>, a counter adds, a gauge takes the last value, a
  histogram counts its samples, and the error counter, an \<^verbatim>\<open>f64\<close>, is exact below \<open>2 ^ 53\<close>. The handlers of
  \<open>Server_Rpc\<close>, the signing cycle and the admin API appear here once more with the registry threaded
  through them; without the registry they are the handlers of the other theories.
\<close>

section \<open>The registry\<close>

datatype counter = ENTRIES_APPENDED | STH_SIGNED

datatype gauge = TREE_SIZE | STH_LAST_TIMESTAMP_NS

datatype histogram = APPEND_DURATION | STH_SIGN_DURATION

datatype metric = IntCounter counter | IntGauge gauge | Histogram histogram | RPC_ERRORS

fun metric_name :: "metric \<Rightarrow> string" where
  "metric_name (IntCounter ENTRIES_APPENDED) = ''settled_entries_appended_total''"
| "metric_name (Histogram APPEND_DURATION) = ''settled_append_duration_seconds''"
| "metric_name (IntCounter STH_SIGNED) = ''settled_sth_signed_total''"
| "metric_name (Histogram STH_SIGN_DURATION) = ''settled_sth_sign_duration_seconds''"
| "metric_name (IntGauge TREE_SIZE) = ''settled_tree_size''"
| "metric_name (IntGauge STH_LAST_TIMESTAMP_NS) = ''settled_sth_last_timestamp_ns''"
| "metric_name RPC_ERRORS = ''settled_rpc_errors_total''"

definition registered :: "metric list" where
  "registered = [IntCounter ENTRIES_APPENDED, Histogram APPEND_DURATION, IntCounter STH_SIGNED, Histogram STH_SIGN_DURATION,
     IntGauge TREE_SIZE, IntGauge STH_LAST_TIMESTAMP_NS, RPC_ERRORS]"

text \<open>The upper bounds of the buckets, in microseconds.\<close>

fun buckets :: "histogram \<Rightarrow> nat list" where
  "buckets APPEND_DURATION = [25, 50, 100, 250, 500, 1000, 5000, 10000]"
| "buckets STH_SIGN_DURATION = [100, 500, 1000, 5000, 10000, 50000, 100000]"

record readings =
  rd_counter :: "counter \<Rightarrow> u64"
  rd_gauge :: "gauge \<Rightarrow> i64"
  rd_samples :: "histogram \<Rightarrow> u64"
  rd_errors :: "string \<times> string \<Rightarrow> nat"

text \<open>
  \<open>mo_describe\<close> is tonic's description of a status code, \<open>mo_encode\<close> the text encoder, \<open>mo_utf8\<close> the check of
  \<^verbatim>\<open>String::from_utf8\<close>. \<open>mo_observe\<close> records the sample of a timer, which happens when the timer is told to
  or, at the latest, when it is dropped.
\<close>

record 'm monitor =
  mo_read :: "'m \<Rightarrow> readings"
  mo_start :: 'm
  mo_inc :: "counter \<Rightarrow> 'm \<Rightarrow> 'm"
  mo_inc_by :: "counter \<Rightarrow> u64 \<Rightarrow> 'm \<Rightarrow> 'm"
  mo_set :: "gauge \<Rightarrow> i64 \<Rightarrow> 'm \<Rightarrow> 'm"
  mo_observe :: "histogram \<Rightarrow> 'm \<Rightarrow> 'm"
  mo_inc_error :: "string \<times> string \<Rightarrow> 'm \<Rightarrow> 'm"
  mo_describe :: "code \<Rightarrow> string"
  mo_encode :: "'m \<Rightarrow> string + bytes"
  mo_utf8 :: "bytes \<Rightarrow> string option"

definition monitor_laws :: "'m monitor \<Rightarrow> bool" where
  "monitor_laws P \<longleftrightarrow>
     mo_read P (mo_start P) = \<lparr>rd_counter = (\<lambda>_. 0), rd_gauge = (\<lambda>_. 0), rd_samples = (\<lambda>_. 0), rd_errors = (\<lambda>_. 0)\<rparr> \<and>
     (\<forall>c m. mo_read P (mo_inc P c m) = rd_counter_update (\<lambda>f. f(c := f c + 1)) (mo_read P m)) \<and>
     (\<forall>c n m. mo_read P (mo_inc_by P c n m) = rd_counter_update (\<lambda>f. f(c := f c + n)) (mo_read P m)) \<and>
     (\<forall>g v m. mo_read P (mo_set P g v m) = rd_gauge_update (\<lambda>f. f(g := v)) (mo_read P m)) \<and>
     (\<forall>h m. mo_read P (mo_observe P h m) = rd_samples_update (\<lambda>f. f(h := f h + 1)) (mo_read P m)) \<and>
     (\<forall>k m. rd_errors (mo_read P m) k < 2 ^ 53 \<longrightarrow>
        mo_read P (mo_inc_error P k m) = rd_errors_update (\<lambda>f. f(k := f k + 1)) (mo_read P m))"

definition gather_text :: "'m monitor \<Rightarrow> 'm \<Rightarrow> (string, string) result" where
  "gather_text P m = (case mo_encode P m of Inl e \<Rightarrow> Inl (Err e) | Inr buf \<Rightarrow> unwrap (mo_utf8 P buf))"

definition metrics_page :: "'m monitor \<Rightarrow> 'm \<Rightarrow> (http_status, string) result" where
  "metrics_page P m = or_500 (gather_text P m)"

section \<open>The handlers with their metrics\<close>

definition track_err :: "'m monitor \<Rightarrow> string \<Rightarrow> status \<Rightarrow> 'm \<Rightarrow> 'm \<times> status" where
  "track_err P rpc status m = (mo_inc_error P (rpc, mo_describe P (fst status)) m, status)"

text \<open>A handler of which every error goes through \<open>track_err\<close>; a panic does not.\<close>

definition tracked :: "'m monitor \<Rightarrow> string \<Rightarrow> (status, 'a) result \<Rightarrow> 'm \<Rightarrow> 'm \<times> (status, 'a) result" where
  "tracked P rpc r m = (case r of
     Inl (Err status) \<Rightarrow> (let (m, status) = track_err P rpc status m in (m, Inl (Err status)))
   | _ \<Rightarrow> (m, r))"

definition metered_append ::
  "'m monitor \<Rightarrow> 'd env \<Rightarrow> int \<Rightarrow> nat \<Rightarrow> bytes \<Rightarrow> bytes \<Rightarrow> 'd app_state \<times> 'm \<Rightarrow>
   ('d app_state \<times> 'm) \<times> (status, append_response) result" where
  "metered_append P E now tick key data sm =
     (let (st, m) = sm; (st, ok) = take_tokens (try_consume (e_rnd E) tick) st in
      if \<not> ok then (let (m, r) = tracked P ''Append'' (Inl (Err rate_limited)) m in ((st, m), r))
      else case commit_append E now key data st of
        (st, Inl e) \<Rightarrow>
          (let (m, r) = tracked P ''Append'' (Inl e) m; m = mo_observe P APPEND_DURATION m in ((st, m), r))
      | (st, Inr en) \<Rightarrow>
          (let m = mo_observe P APPEND_DURATION m; m = mo_inc P ENTRIES_APPENDED m
           in ((publish [en] st, m), Inr (append_response_of en))))"

definition metered_batch_append ::
  "'m monitor \<Rightarrow> 'd env \<Rightarrow> int \<Rightarrow> nat \<Rightarrow> (bytes \<times> bytes) list \<Rightarrow> 'd app_state \<times> 'm \<Rightarrow>
   ('d app_state \<times> 'm) \<times> (status, append_response list) result" where
  "metered_batch_append P E now tick reqs sm =
     (let (st, m) = sm; n = length reqs in
      if n = 0 then ((st, m), Inr [])
      else if MAX_BATCH < n then
        (let (m, r) = tracked P ''BatchAppend''
           (Inl (Err (status_from (InvalidArgument (''batch size '' @ dec n @ '' exceeds maximum '' @ dec MAX_BATCH))))) m
         in ((st, m), r))
      else let (st, ok) = take_tokens (try_consume_n (e_rnd E) tick (of_nat n)) st in
        if \<not> ok then (let (m, r) = tracked P ''BatchAppend'' (Inl (Err rate_limited)) m in ((st, m), r))
        else case commit_batch E now reqs st of
          (st, Inl e) \<Rightarrow>
            (let (m, r) = tracked P ''BatchAppend'' (Inl e) m; m = mo_observe P APPEND_DURATION m in ((st, m), r))
        | (st, Inr results) \<Rightarrow>
            (let m = mo_observe P APPEND_DURATION m; m = mo_inc_by P ENTRIES_APPENDED (of_nat n) m;
                 ens = batch_message reqs results
             in ((publish ens st, m), Inr (map append_response_of ens))))"

definition metered_write ::
  "'m monitor \<Rightarrow> 'd env \<Rightarrow> int \<Rightarrow> u64 \<Rightarrow> hash option \<Rightarrow> signer \<Rightarrow> signer \<Rightarrow> signer \<Rightarrow> 'd app_state \<times> 'm \<Rightarrow>
   ('d app_state \<times> 'm) \<times> (app_error, unit) result" where
  "metered_write P E now tree_size root_opt sg_sign sg_pk sg_ver sm =
     (let (st, m) = sm in
      case unwrap root_opt of Inl e \<Rightarrow> ((st, m), Inl e)
      | Inr root_hash \<Rightarrow>
        (case timestamp_of now of Inl e \<Rightarrow> ((st, m), Inl e)
         | Inr timestamp_ns \<Rightarrow>
           (let payload = signing_payload tree_size root_hash timestamp_ns;
                signature = signer_sign E sg_sign payload;
                m = mo_observe P STH_SIGN_DURATION m;
                sth = \<lparr>sth_tree_size = tree_size, sth_root_hash = root_hash, sth_timestamp_ns = timestamp_ns,
                       sth_signature = signature,
                       sth_public_key = signer_public_key E sg_pk, sth_key_version = sg_version sg_ver\<rparr>;
                (db', r) = hs_write (e_rocks E) (e_codec E) sth (st_db st);
                st = st\<lparr>st_db := db'\<rparr>
            in case lift_app r of Inl e \<Rightarrow> ((st, m), Inl e)
               | Inr _ \<Rightarrow>
                 (let m = mo_inc P STH_SIGNED m; m = mo_set P TREE_SIZE tree_size m;
                      m = mo_set P STH_LAST_TIMESTAMP_NS timestamp_ns m
                  in ((st, m), Inr ())))))"

definition metered_sign ::
  "'m monitor \<Rightarrow> 'd env \<Rightarrow> int \<Rightarrow> 'd app_state \<times> 'm \<Rightarrow> ('d app_state \<times> 'm) \<times> (app_error, unit) result" where
  "metered_sign P E now sm =
     (let (st, m) = sm in
      if st_poisoned st then ((st, m), Inl (Panic UnwrapFailed))
      else let tree_size = mt_size (st_merkle st); root_hash = mt_root (e_sha E) (st_merkle st)
        in case sth_due E tree_size st of
             Inl e \<Rightarrow> ((st, m), Inl e)
           | Inr due \<Rightarrow>
             if due then metered_write P E now tree_size root_hash (st_signer st) (st_signer st) (st_signer st) (st, m)
             else ((st, m), Inr ()))"

definition metered_force ::
  "hex \<Rightarrow> 'm monitor \<Rightarrow> 'd env \<Rightarrow> int \<Rightarrow> 'd app_state \<times> 'm \<Rightarrow> ('d app_state \<times> 'm) \<times> (http_status, sth_json) result" where
  "metered_force hex P E now sm =
     (case metered_sign P E now sm of ((st, m), r) \<Rightarrow>
      ((st, m), bindR (or_500 r) (\<lambda>_. admin_get_sth hex E st)))"

section \<open>Calls\<close>

datatype api_call =
    Request request
  | Get u64
  | GetLatest u32
  | ListEntries u64 u64 u32 u64
  | GetByKey bytes u32 u64
  | GetSth u64
  | InclusionProof u64 u64
  | ConsistencyProof u64 u64
  | SignCycle int

text \<open>How a call ends: with an answer, with a gRPC status, with an error of the admin API or of the signing task, or in a panic.\<close>

datatype outcome = Answered | RpcFailed status | Failed | Panicked panic

definition outcome_of :: "('e \<Rightarrow> outcome) \<Rightarrow> ('e, 'a) result \<Rightarrow> outcome" where
  "outcome_of f r = (case r of Inl (Err e) \<Rightarrow> f e | Inl (Panic p) \<Rightarrow> Panicked p | Inr _ \<Rightarrow> Answered)"

definition reading ::
  "'m monitor \<Rightarrow> string \<Rightarrow> ('d app_state \<Rightarrow> (status, 'a) result) \<Rightarrow> 'd app_state \<times> 'm \<Rightarrow> ('d app_state \<times> 'm) \<times> outcome" where
  "reading P rpc handler sm =
     (let (st, m) = sm; (m, r) = tracked P rpc (handler st) m in ((st, m), outcome_of RpcFailed r))"

fun handle :: "hex \<Rightarrow> 'm monitor \<Rightarrow> 'd env \<Rightarrow> api_call \<Rightarrow> 'd app_state \<times> 'm \<Rightarrow> ('d app_state \<times> 'm) \<times> outcome" where
  "handle hex P E (Request (ReqAppend now tick key data)) sm =
     apsnd (outcome_of RpcFailed) (metered_append P E now tick key data sm)"
| "handle hex P E (Request (ReqBatch now tick reqs)) sm =
     apsnd (outcome_of RpcFailed) (metered_batch_append P E now tick reqs sm)"
| "handle hex P E (Request (ReqRotate fresh wr)) sm =
     (let (st, m) = sm; (st, r) = rotate_key_json hex E fresh wr st in ((st, m), outcome_of (\<lambda>_. Failed) r))"
| "handle hex P E (Request (ReqForce now)) sm = apsnd (outcome_of (\<lambda>_. Failed)) (metered_force hex P E now sm)"
| "handle hex P E (Get seq) sm = reading P ''Get'' (rpc_get E seq) sm"
| "handle hex P E (GetLatest n) sm = reading P ''GetLatest'' (rpc_get_latest E n) sm"
| "handle hex P E (ListEntries from_seq to_seq limit cursor) sm =
     reading P ''ListEntries'' (rpc_list_entries E from_seq to_seq limit cursor) sm"
| "handle hex P E (GetByKey key limit cursor) sm = reading P ''GetByKey'' (rpc_get_by_key E key limit cursor) sm"
| "handle hex P E (GetSth tree_size) sm = reading P ''GetSth'' (rpc_get_sth E tree_size) sm"
| "handle hex P E (InclusionProof seq tree_size) sm = reading P ''InclusionProof'' (rpc_inclusion_proof E seq tree_size) sm"
| "handle hex P E (ConsistencyProof old_size new_size) sm =
     reading P ''ConsistencyProof'' (rpc_consistency_proof E old_size new_size) sm"
| "handle hex P E (SignCycle now) sm = apsnd (outcome_of (\<lambda>_. Failed)) (metered_sign P E now sm)"

fun handle_all ::
  "hex \<Rightarrow> 'm monitor \<Rightarrow> 'd env \<Rightarrow> api_call list \<Rightarrow> 'd app_state \<times> 'm \<Rightarrow> ('d app_state \<times> 'm) \<times> outcome list" where
  "handle_all hex P E [] sm = (sm, [])"
| "handle_all hex P E (call # calls) sm =
     (let (sm, out) = handle hex P E call sm; (sm, outs) = handle_all hex P E calls sm in (sm, out # outs))"

section \<open>Registration\<close>

text \<open>
  Each metric is registered when it is first used, with \<^verbatim>\<open>unwrap\<close>. The crate refuses a name twice, a name
  with other characters than letters, digits, colons and underscores, and buckets that do not increase;
  none of this occurs.
\<close>

definition name_char :: "char \<Rightarrow> bool" where
  "name_char c \<longleftrightarrow> (let n = (of_char c :: nat) in 48 \<le> n \<and> n \<le> 58 \<or> 65 \<le> n \<and> n \<le> 90 \<or> n = 95 \<or> 97 \<le> n \<and> n \<le> 122)"

lemma registration_accepted:
  "set registered = UNIV \<and> distinct (map metric_name registered)
    \<and> list_all (\<lambda>x. list_all name_char (metric_name x)) registered \<and> sorted_wrt (<) (buckets h)"
proof -
  have "x \<in> set registered" for x
  proof (cases x)
    case (IntCounter c)
    then show ?thesis by (cases c) (simp_all add: registered_def)
  next
    case (IntGauge g)
    then show ?thesis by (cases g) (simp_all add: registered_def)
  next
    case (Histogram h)
    then show ?thesis by (cases h) (simp_all add: registered_def)
  qed (simp add: registered_def)
  moreover have "list_all (\<lambda>x. list_all name_char (metric_name x)) registered"
    by (simp add: registered_def name_char_def Let_def)
  moreover have "sorted_wrt (<) (buckets h)" by (cases h) simp_all
  ultimately show ?thesis by (auto simp: registered_def)
qed

section \<open>The metrics do not disturb the server\<close>

lemma tracked_result [simp]: "snd (tracked P rpc r m) = r"
  by (simp add: tracked_def track_err_def split: sum.splits exn.splits)

lemma trackedE: obtains m' where "tracked P rpc r m = (m', r)"
  by (metis prod.collapse tracked_result)

lemma metered_append_erase:
  "map_prod fst id (metered_append P E now tick key data (st, m)) = rpc_append E now tick key data st"
  by (simp add: metered_append_def rpc_append_def prod_eq_iff split: prod.splits sum.splits)

lemma metered_batch_erase:
  "map_prod fst id (metered_batch_append P E now tick reqs (st, m)) = rpc_batch_append E now tick reqs st"
  by (simp add: metered_batch_append_def rpc_batch_append_def prod_eq_iff Let_def split: prod.splits sum.splits)

lemma metered_write_erase:
  "map_prod fst id (metered_write P E now n r sg_sign sg_pk sg_ver (st, m)) = sign_and_write E now n r sg_sign sg_pk sg_ver st"
  by (simp add: metered_write_def sign_and_write_def prod_eq_iff Let_def split: prod.splits sum.splits)

lemma metered_sign_erase: "map_prod fst id (metered_sign P E now (st, m)) = sign_and_store E now st"
  by (simp add: metered_sign_def sign_and_store_def sign_snapshot_def Let_def metered_write_erase split: sum.splits)

lemma metered_force_erase: "map_prod fst id (metered_force hex P E now (st, m)) = force_sth hex E now st"
  using metered_sign_erase [of P E now st m] by (auto simp: metered_force_def force_sth_def split: prod.splits)

lemma handle_request: "fst (fst (handle hex P E (Request req) (st, m))) = serve hex E req st"
proof (cases req)
  case (ReqRotate fresh wr)
  then show ?thesis by (simp split: prod.splits)
qed (simp_all flip: metered_append_erase [of P _ _ _ _ _ st m] metered_batch_erase [of P _ _ _ _ st m]
    metered_force_erase [of _ P _ _ st m])

section \<open>What the metrics say\<close>

lemma monitor_lawsD:
  assumes "monitor_laws P"
  shows "mo_read P (mo_start P) = \<lparr>rd_counter = (\<lambda>_. 0), rd_gauge = (\<lambda>_. 0), rd_samples = (\<lambda>_. 0), rd_errors = (\<lambda>_. 0)\<rparr>"
    and "mo_read P (mo_inc P c m) = rd_counter_update (\<lambda>f. f(c := f c + 1)) (mo_read P m)"
    and "mo_read P (mo_inc_by P c n m) = rd_counter_update (\<lambda>f. f(c := f c + n)) (mo_read P m)"
    and "mo_read P (mo_set P g v m) = rd_gauge_update (\<lambda>f. f(g := v)) (mo_read P m)"
    and "mo_read P (mo_observe P h m) = rd_samples_update (\<lambda>f. f(h := f h + 1)) (mo_read P m)"
    and "rd_errors (mo_read P m) k < 2 ^ 53 \<Longrightarrow> mo_read P (mo_inc_error P k m) = rd_errors_update (\<lambda>f. f(k := f k + 1)) (mo_read P m)"
  using assms unfolding monitor_laws_def by blast+

text \<open>The name under which the errors of a call are counted, and the label of a call that failed.\<close>

fun rpc_name :: "api_call \<Rightarrow> string option" where
  "rpc_name (Request (ReqAppend now tick key data)) = Some ''Append''"
| "rpc_name (Request (ReqBatch now tick reqs)) = Some ''BatchAppend''"
| "rpc_name (Request _) = None"
| "rpc_name (Get seq) = Some ''Get''"
| "rpc_name (GetLatest n) = Some ''GetLatest''"
| "rpc_name (ListEntries from_seq to_seq limit cursor) = Some ''ListEntries''"
| "rpc_name (GetByKey key limit cursor) = Some ''GetByKey''"
| "rpc_name (GetSth tree_size) = Some ''GetSth''"
| "rpc_name (InclusionProof seq tree_size) = Some ''InclusionProof''"
| "rpc_name (ConsistencyProof old_size new_size) = Some ''ConsistencyProof''"
| "rpc_name (SignCycle now) = None"

definition failures :: "'m monitor \<Rightarrow> api_call \<Rightarrow> outcome \<Rightarrow> (string \<times> string) list" where
  "failures P call out = (case (rpc_name call, out) of
     (Some rpc, RpcFailed status) \<Rightarrow> [(rpc, mo_describe P (fst status))] | _ \<Rightarrow> [])"

fun call_ok :: "api_call \<Rightarrow> bool" where
  "call_ok (Request req) = clock_ok req"
| "call_ok (SignCycle now) = (0 \<le> now)"
| "call_ok _ = True"

fun call_cost :: "api_call \<Rightarrow> nat" where
  "call_cost (Request req) = cost req"
| "call_cost _ = 0"

text \<open>The readings after \<open>n\<close> more entries, some more heads and some failed calls.\<close>

definition tally :: "readings \<Rightarrow> nat \<Rightarrow> signed_tree_head list \<Rightarrow> (string \<times> string) list \<Rightarrow> readings \<Rightarrow> bool" where
  "tally r n heads errs r' \<longleftrightarrow>
     rd_counter r' ENTRIES_APPENDED = rd_counter r ENTRIES_APPENDED + of_nat n \<and>
     rd_counter r' STH_SIGNED = rd_counter r STH_SIGNED + of_nat (length heads) \<and>
     rd_gauge r' TREE_SIZE = (if heads = [] then rd_gauge r TREE_SIZE else sth_tree_size (last heads)) \<and>
     rd_gauge r' STH_LAST_TIMESTAMP_NS =
       (if heads = [] then rd_gauge r STH_LAST_TIMESTAMP_NS else sth_timestamp_ns (last heads)) \<and>
     (\<forall>k. rd_errors r' k = rd_errors r k + count_list errs k)"

lemma tally_refl [simp]: "tally r 0 [] [] r"
  by (simp add: tally_def)

lemma tally_trans: "tally r n hs es r' \<Longrightarrow> tally r' n' hs' es' r'' \<Longrightarrow> tally r (n + n') (hs @ hs') (es @ es') r''"
  by (auto simp: tally_def)

lemma tally_samples [simp]: "tally r n hs es (rd_samples_update f r') = tally r n hs es r'"
  by (simp add: tally_def)

definition accounts ::
  "'m monitor \<Rightarrow> 'd env \<Rightarrow> ('d \<Rightarrow> families) \<Rightarrow> nat \<Rightarrow> 'd app_state \<times> 'm \<Rightarrow> log_entry list \<Rightarrow> signed_tree_head list \<Rightarrow>
   (string \<times> string) list \<Rightarrow> 'd app_state \<times> 'm \<Rightarrow> bool" where
  "accounts P E view k sm es hs errs sm' \<longleftrightarrow> (\<exists>added heads. running E view (fst sm') (es @ added) (hs @ heads)
     \<and> tally (mo_read P (snd sm)) (length added) heads errs (mo_read P (snd sm')) \<and> length added \<le> k
     \<and> unat (next_seq (st_db (fst sm'))) \<le> unat (next_seq (st_db (fst sm))) + k)"

lemma accountsI:
  assumes "running E view st' (es @ added) (hs @ heads)"
    and "tally (mo_read P m) (length added) heads errs (mo_read P m')" and "length added \<le> k"
    and "unat (next_seq (st_db st')) \<le> unat (next_seq (st_db st)) + k"
  shows "accounts P E view k (st, m) es hs errs (st', m')"
  using assms by (auto simp: accounts_def)

lemma accounts_trans:
  assumes "accounts P E view k sm es hs errs sm1"
    and "\<And>added heads. running E view (fst sm1) (es @ added) (hs @ heads) \<Longrightarrow>
      accounts P E view k' sm1 (es @ added) (hs @ heads) errs' sm2"
  shows "accounts P E view (k + k') sm es hs (errs @ errs') sm2"
proof -
  obtain added heads where one: "running E view (fst sm1) (es @ added) (hs @ heads)" "length added \<le> k"
    "unat (next_seq (st_db (fst sm1))) \<le> unat (next_seq (st_db (fst sm))) + k"
    and t1: "tally (mo_read P (snd sm)) (length added) heads errs (mo_read P (snd sm1))"
    using assms(1) by (auto simp: accounts_def)
  obtain more heads' where two: "running E view (fst sm2) ((es @ added) @ more) ((hs @ heads) @ heads')" "length more \<le> k'"
    "unat (next_seq (st_db (fst sm2))) \<le> unat (next_seq (st_db (fst sm1))) + k'"
    and t2: "tally (mo_read P (snd sm1)) (length more) heads' errs' (mo_read P (snd sm2))"
    using assms(2) [OF one(1)] by (auto simp: accounts_def)
  show ?thesis
    unfolding accounts_def using one two tally_trans [OF t1 t2]
    by (intro exI [of _ "added @ more"] exI [of _ "heads @ heads'"]) simp
qed

text \<open>What \<open>tracked\<close> adds to the error counters.\<close>

lemma tally_tracked:
  assumes "monitor_laws P" and "rpc_name call = Some rpc" and "\<forall>k. rd_errors (mo_read P m) k < 2 ^ 53"
  shows "tally (mo_read P m) 0 [] (failures P call (outcome_of RpcFailed r)) (mo_read P (fst (tracked P rpc r m)))"
  using assms(2,3) monitor_lawsD(6) [OF assms(1)]
  by (auto simp: tracked_def track_err_def outcome_of_def failures_def tally_def split: sum.splits exn.splits)

text \<open>A call that adds nothing: it may fail, with or without a sample of its duration.\<close>

lemma tracked_accounts:
  assumes laws: "monitor_laws P" and name: "rpc_name call = Some rpc" and few: "\<forall>k. rd_errors (mo_read P m) k < 2 ^ 53"
    and inv: "running E view st' es hs" and le: "unat (next_seq (st_db st')) \<le> unat (next_seq (st_db st)) + k"
    and t: "tracked P rpc r m = (m', r)"
  shows "accounts P E view k (st, m) es hs (failures P call (outcome_of RpcFailed r)) (st', m')"
    and "accounts P E view k (st, m) es hs (failures P call (outcome_of RpcFailed r)) (st', mo_observe P h m')"
  using tally_tracked [OF laws name few, of r] t inv le
  by (auto simp: monitor_lawsD(5) [OF laws] intro!: accountsI [where added = "[]" and heads = "[]"])

lemma reading_accounts:
  assumes "monitor_laws P" and "running E view st es hs" and "rpc_name call = Some rpc"
    and "\<forall>k. rd_errors (mo_read P m) k < 2 ^ 53" and run: "reading P rpc handler (st, m) = (sm', out)"
  shows "accounts P E view 0 (st, m) es hs (failures P call out) sm'"
proof -
  obtain m' where t: "tracked P rpc (handler st) m = (m', handler st)" by (rule trackedE)
  then have "sm' = (st, m')" "out = outcome_of RpcFailed (handler st)" using run by (simp_all add: reading_def)
  with tracked_accounts(1) [OF assms(1,3,4,2) _ t] show ?thesis by simp
qed

lemma publish_db [simp]: "st_db (publish ens st) = st_db st"
  by (simp add: publish_def)

text \<open>A writer that has committed the entries \<open>new\<close> and counted them.\<close>

lemma committed_accounts:
  assumes laws: "monitor_laws P" and inv: "running E view st' (es @ new) hs"
    and le: "unat (next_seq (st_db st')) \<le> unat (next_seq (st_db st)) + length new"
  shows "accounts P E view (length new) (st, m) es hs []
    (st', mo_inc_by P ENTRIES_APPENDED (of_nat (length new)) (mo_observe P h m))"
  using inv le by (intro accountsI [where added = new and heads = "[]"]) (simp_all add: tally_def monitor_lawsD [OF laws])

lemma committed_one_accounts:
  assumes laws: "monitor_laws P" and inv: "running E view st' (es @ [e]) hs"
    and le: "unat (next_seq (st_db st')) \<le> unat (next_seq (st_db st)) + 1"
  shows "accounts P E view 1 (st, m) es hs [] (st', mo_inc P ENTRIES_APPENDED (mo_observe P h m))"
  using inv le by (intro accountsI [where added = "[e]" and heads = "[]"]) (simp_all add: tally_def monitor_lawsD [OF laws])

lemma no_failures [simp]: "failures P call (outcome_of f (Inr x)) = []"
  by (simp add: failures_def outcome_of_def split: option.splits)

lemma append_accounts:
  assumes laws: "monitor_laws P" and inv: "running E view st es hs" and now: "0 \<le> now"
    and room: "unat (next_seq (st_db st)) + 1 < 2 ^ 64" and few: "\<forall>k. rd_errors (mo_read P m) k < 2 ^ 53"
    and run: "metered_append P E now tick key data (st, m) = (sm', r)"
  shows "accounts P E view 1 (st, m) es hs (failures P (Request (ReqAppend now tick key data)) (outcome_of RpcFailed r)) sm'"
proof -
  have name: "rpc_name (Request (ReqAppend now tick key data)) = Some ''Append''" by simp
  obtain st1 ok where t: "take_tokens (try_consume (e_rnd E) tick) st = (st1, ok)" by fastforce
  then obtain b where st1: "st1 = st\<lparr>st_limiter := b\<rparr>" using take_tokens_frame by blast
  have core1: "core_inv E view st1 es hs" and np: "\<not> st_poisoned st1" and ver: "\<forall>s \<in> set hs. verify_sth (e_ed E) s"
    and room1: "unat (next_seq (st_db st1)) + 1 < 2 ^ 64"
    using inv room by (simp_all add: running_def st1)
  have next1: "unat (next_seq (st_db st) + 1) = unat (next_seq (st_db st)) + 1" using room by (simp add: unat_word_ariths)
  show ?thesis
  proof (cases ok)
    case False
    obtain m' where m': "tracked P ''Append'' (Inl (Err rate_limited) :: (status, append_response) result) m = (m', Inl (Err rate_limited))"
      by (rule trackedE)
    then have "sm' = (st1, m')" "r = Inl (Err rate_limited)" using run t False by (simp_all add: metered_append_def)
    with tracked_accounts(1) [OF laws name few _ _ m', where st' = st1] inv show ?thesis by (simp add: st1)
  next
    case True
    obtain st2 c where c: "commit_append E now key data st1 = (st2, c)" by fastforce
    show ?thesis
    proof (cases rule: commit_append_cases [OF core1 room1 c])
      case (1 e)
      have "sm' = (publish [entry_of e] st2, mo_inc P ENTRIES_APPENDED (mo_observe P APPEND_DURATION m))"
        "r = Inr (append_response_of (entry_of e))" using run t True c 1(2) by (simp_all add: metered_append_def Let_def)
      moreover have "running E view (publish [entry_of e] st2) (es @ [e]) hs" using 1 ver by (simp add: running_def publish_def)
      ultimately show ?thesis using committed_one_accounts [OF laws, of E view "publish [entry_of e] st2" es e hs st m] 1(5) next1 by (simp add: st1)
    next
      case 2
      then obtain x where x: "c = Inl x" by (cases c) auto
      obtain m' where m': "tracked P ''Append'' (Inl x :: (status, append_response) result) m = (m', Inl x)" by (rule trackedE)
      then have "sm' = (st2, mo_observe P APPEND_DURATION m')" "r = Inl x"
        using run t True c x by (simp_all add: metered_append_def Let_def)
      moreover have "running E view st2 es hs" using 2 np ver now by (auto simp: running_def)
      ultimately show ?thesis using 2(4) next1 tracked_accounts(2) [OF laws name few _ _ m', where st' = st2]
        by (auto simp: st1)
    qed
  qed
qed

lemma batch_accounts:
  assumes laws: "monitor_laws P" and inv: "running E view st es hs" and now: "0 \<le> now"
    and room: "unat (next_seq (st_db st)) + length reqs < 2 ^ 64" and few: "\<forall>k. rd_errors (mo_read P m) k < 2 ^ 53"
    and run: "metered_batch_append P E now tick reqs (st, m) = (sm', r)" and size: "reqs \<noteq> []" "length reqs \<le> 1000"
  shows "accounts P E view (length reqs) (st, m) es hs
    (failures P (Request (ReqBatch now tick reqs)) (outcome_of RpcFailed r)) sm'"
proof -
  have name: "rpc_name (Request (ReqBatch now tick reqs)) = Some ''BatchAppend''" by simp
  obtain st1 ok where t: "take_tokens (try_consume_n (e_rnd E) tick (of_nat (length reqs))) st = (st1, ok)" by fastforce
  then obtain b where st1: "st1 = st\<lparr>st_limiter := b\<rparr>" using take_tokens_frame by blast
  have core1: "core_inv E view st1 es hs" and np: "\<not> st_poisoned st1" and ver: "\<forall>s \<in> set hs. verify_sth (e_ed E) s"
    and room1: "unat (next_seq (st_db st1)) + length reqs < 2 ^ 64"
    using inv room by (simp_all add: running_def st1)
  have nexts: "unat (next_seq (st_db st) + of_nat (length reqs)) = unat (next_seq (st_db st)) + length reqs"
    using room by (simp add: unat_word_ariths unat_of_nat)
  note eqs = metered_batch_append_def Let_def
  show ?thesis
  proof (cases ok)
    case False
    obtain m' where m': "tracked P ''BatchAppend'' (Inl (Err rate_limited) :: (status, append_response list) result) m = (m', Inl (Err rate_limited))"
      by (rule trackedE)
    then have "sm' = (st1, m')" "r = Inl (Err rate_limited)" using run t False size by (simp_all add: eqs)
    with tracked_accounts(1) [OF laws name few _ _ m', where st' = st1] inv show ?thesis by (simp add: st1)
  next
    case True
    obtain st2 c where c: "commit_batch E now reqs st1 = (st2, c)" by fastforce
    show ?thesis
    proof (cases rule: commit_batch_cases [OF core1 room1 c])
      case (1 new)
      have len: "length new = length reqs" using 1(1) batch_entries_data(1) by (metis length_map)
      have "sm' = (publish (map entry_of new) st2, mo_inc_by P ENTRIES_APPENDED (of_nat (length reqs)) (mo_observe P APPEND_DURATION m))"
        "\<exists>x. r = Inr x" using run t True c size 1(2) by (auto simp: eqs 1(1) batch_response_entries)
      moreover have "running E view (publish (map entry_of new) st2) (es @ new) hs" using 1 ver by (simp add: running_def publish_def)
      ultimately show ?thesis using committed_accounts [OF laws, of E view _ es new hs st m] 1(5) nexts len by (auto simp: st1)
    next
      case 2
      then obtain x where x: "c = Inl x" by (cases c) auto
      obtain m' where m': "tracked P ''BatchAppend'' (Inl x :: (status, append_response list) result) m = (m', Inl x)" by (rule trackedE)
      then have "sm' = (st2, mo_observe P APPEND_DURATION m')" "r = Inl x" using run t True c x size by (simp_all add: eqs)
      moreover have "running E view st2 es hs" using 2 np ver now by (auto simp: running_def)
      ultimately show ?thesis using 2(4) nexts tracked_accounts(2) [OF laws name few _ _ m', where st' = st2]
        by (auto simp: st1)
    qed
  qed
qed

lemma batch_edge_accounts:
  assumes laws: "monitor_laws P" and inv: "running E view st es hs" and few: "\<forall>k. rd_errors (mo_read P m) k < 2 ^ 53"
    and run: "metered_batch_append P E now tick reqs (st, m) = (sm', r)" and size: "reqs = [] \<or> 1000 < length reqs"
  shows "accounts P E view (length reqs) (st, m) es hs
    (failures P (Request (ReqBatch now tick reqs)) (outcome_of RpcFailed r)) sm'"
proof -
  have name: "rpc_name (Request (ReqBatch now tick reqs)) = Some ''BatchAppend''" by simp
  obtain m' where t: "tracked P ''BatchAppend'' r m = (m', r)" by (rule trackedE)
  then have "sm' = (st, m')"
    using run size by (auto simp: metered_batch_append_def Let_def tracked_def track_err_def split: if_splits)
  with tracked_accounts(1) [OF laws name few inv _ t] show ?thesis by simp
qed

lemma metered_write_metrics:
  assumes "metered_write P E now n (Some rh) sg_sign sg_pk sg_ver (st, m) = ((st', m'), r)" and "0 \<le> now"
  shows "m' = (let m = mo_observe P STH_SIGN_DURATION m in if r = Inr () then
    mo_set P STH_LAST_TIMESTAMP_NS (word_of_int now) (mo_set P TREE_SIZE n (mo_inc P STH_SIGNED m)) else m)"
  using assms by (auto simp: metered_write_def unwrap_def timestamp_of_def Let_def split: prod.splits sum.splits)

text \<open>The new head is the one the gauges show.\<close>

lemma write_accounts:
  assumes laws: "monitor_laws P" and inv: "running E view st es hs" and now: "0 \<le> now" and ne: "es \<noteq> []"
    and below: "\<forall>s \<in> set hs. sth_tree_size s < of_nat (length es)"
    and run: "metered_write P E now (of_nat (length es)) (Some (MTH (node_hash (e_sha E)) (map le_leaf_hash es))) sg sg sg (st, m) =
      ((st', m'), r)"
  shows "accounts P E view 0 (st, m) es hs [] (st', m')"
proof -
  let ?s = "new_sth E now sg es"
  have core: "core_inv E view st es hs" and np: "\<not> st_poisoned st" and ver: "\<forall>s \<in> set hs. verify_sth (e_ed E) s"
    using inv by (simp_all add: running_def)
  note metrics = metered_write_metrics [OF run now]
  have w: "sign_and_write E now (of_nat (length es)) (Some (MTH (node_hash (e_sha E)) (map le_leaf_hash es))) sg sg sg st = (st', r)"
    using metered_write_erase [of P E now "of_nat (length es)"] run by (metis fst_conv id_apply map_prod_simp)
  show ?thesis
  proof (cases rule: sign_and_write_cases [OF core ne below w])
    case (1 db')
    have "verify_sth (e_ed E) ?s"
      using verify_sth_signed [OF core_invD(3) [OF core]] by (simp add: new_sth_def Let_def signer_sign_def signer_public_key_def)
    then have "running E view st' es (hs @ [?s])" using 1(2,3) np ver by (auto simp: running_def)
    with 1 metrics show ?thesis
      by (intro accountsI [where added = "[]" and heads = "[?s]"])
        (simp_all add: tally_def monitor_lawsD [OF laws] new_sth_def Let_def)
  next
    case (2 db')
    then have "running E view st' es hs" using np ver by (auto simp: running_def)
    with 2 metrics show ?thesis
      by (intro accountsI [where added = "[]" and heads = "[]"]) (simp_all add: tally_def monitor_lawsD [OF laws])
  qed
qed

lemma sign_accounts:
  assumes laws: "monitor_laws P" and inv: "running E view st es hs" and now: "0 \<le> now"
    and run: "metered_sign P E now (st, m) = (sm', r)"
  shows "accounts P E view 0 (st, m) es hs [] sm'"
proof -
  have core: "core_inv E view st es hs" and np: "\<not> st_poisoned st" using inv by (simp_all add: running_def)
  note t = tree_of_log [OF core]
  have same: "accounts P E view 0 (st, m) es hs [] (st, m)"
    using inv by (intro accountsI [where added = "[]" and heads = "[]"]) simp_all
  show ?thesis
  proof (cases rule: sth_due_cases [OF core])
    case (1 msg)
    with run np t same show ?thesis by (simp add: metered_sign_def)
  next
    case 2
    with run np t same show ?thesis by (simp add: metered_sign_def)
  next
    case 3
    obtain st' m' where sm': "sm' = (st', m')" by fastforce
    have "metered_write P E now (of_nat (length es)) (Some (MTH (node_hash (e_sha E)) (map le_leaf_hash es)))
        (st_signer st) (st_signer st) (st_signer st) (st, m) = ((st', m'), r)"
      using run np t 3 sm' by (simp add: metered_sign_def)
    from write_accounts [OF laws inv now 3(2) _ this] 3(3) show ?thesis by (simp add: sm')
  qed
qed

lemma rotate_running:
  assumes "running E view st es hs" and "rotate_key_json hex E fresh wr st = (st', r)"
  shows "running E view st' es hs" and "next_seq (st_db st') = next_seq (st_db st)"
proof -
  obtain x where run: "rotate_key E fresh wr st = (st', x)" using assms(2) by (auto simp: rotate_key_json_def split: prod.splits)
  with assms(1) rotate_key_core [of E view st es hs fresh wr st' x] rotate_rest [OF run]
  show "running E view st' es hs" "next_seq (st_db st') = next_seq (st_db st)" by (simp_all add: running_def)
qed

lemma handle_accounts:
  assumes laws: "monitor_laws P" and inv: "running E view st es hs" and ok: "call_ok call"
    and room: "unat (next_seq (st_db st)) + call_cost call < 2 ^ 64" and few: "\<forall>k. rd_errors (mo_read P m) k < 2 ^ 53"
    and run: "handle hex P E call (st, m) = (sm', out)"
  shows "accounts P E view (call_cost call) (st, m) es hs (failures P call out) sm'"
proof (cases call)
  case (Request req)
  show ?thesis
  proof (cases req)
    case (ReqAppend now tick key data)
    with run obtain r where "metered_append P E now tick key data (st, m) = (sm', r)" "out = outcome_of RpcFailed r"
      by (auto simp: Request apsnd_def map_prod_def split: prod.splits)
    with append_accounts [OF laws inv _ _ few] ok room show ?thesis by (simp add: Request ReqAppend)
  next
    case (ReqBatch now tick reqs)
    with run obtain r where r: "metered_batch_append P E now tick reqs (st, m) = (sm', r)" "out = outcome_of RpcFailed r"
      by (auto simp: Request apsnd_def map_prod_def split: prod.splits)
    show ?thesis
    proof (cases "reqs = [] \<or> 1000 < length reqs")
      case True
      from batch_edge_accounts [OF laws inv few r(1) this] r(2) show ?thesis by (simp add: Request ReqBatch)
    next
      case False
      with batch_accounts [OF laws inv _ _ few r(1)] ok room r(2) show ?thesis by (simp add: Request ReqBatch)
    qed
  next
    case (ReqRotate fresh wr)
    obtain st' r where r: "rotate_key_json hex E fresh wr st = (st', r)" by fastforce
    then have "sm' = (st', m)" using run by (simp add: Request ReqRotate)
    with rotate_running [OF inv r] show ?thesis
      by (auto simp: Request ReqRotate failures_def intro!: accountsI [where added = "[]" and heads = "[]"])
  next
    case (ReqForce now)
    obtain r where "metered_sign P E now (st, m) = (sm', r)"
      using run by (auto simp: Request ReqForce metered_force_def split: prod.splits)
    with sign_accounts [OF laws inv] ok show ?thesis by (simp add: Request ReqForce failures_def)
  qed
next
  case (SignCycle now)
  with run obtain r where "metered_sign P E now (st, m) = (sm', r)" by (auto simp: apsnd_def map_prod_def split: prod.splits)
  with sign_accounts [OF laws inv] ok show ?thesis by (simp add: SignCycle failures_def)
qed (use run in \<open>auto intro!: reading_accounts [OF laws inv _ few]\<close>)

lemma tally_errors: "tally r n hs es r' \<Longrightarrow> rd_errors r' k \<le> rd_errors r k + length es"
  by (simp add: tally_def count_le_length del: split_paired_All)

lemma failures_short: "length (failures P call out) \<le> 1"
  by (simp add: failures_def split: option.splits outcome.splits)

definition all_failures :: "'m monitor \<Rightarrow> api_call list \<Rightarrow> outcome list \<Rightarrow> (string \<times> string) list" where
  "all_failures P calls outs = concat (map2 (failures P) calls outs)"

lemma handle_all_accounts:
  assumes "monitor_laws P" and "running E view (fst sm) es hs" and "list_all call_ok calls"
    and "unat (next_seq (st_db (fst sm))) + sum_list (map call_cost calls) < 2 ^ 64"
    and "\<forall>k. rd_errors (mo_read P (snd sm)) k + length calls \<le> 2 ^ 53"
    and "handle_all hex P E calls sm = (sm', outs)"
  shows "accounts P E view (sum_list (map call_cost calls)) sm es hs (all_failures P calls outs) sm'"
  using assms
proof (induction calls arbitrary: sm es hs outs)
  case Nil
  then show ?case by (cases sm) (auto simp: all_failures_def intro!: accountsI [where added = "[]" and heads = "[]"])
next
  case (Cons call calls)
  obtain st m where sm: "sm = (st, m)" by fastforce
  obtain sm1 out where one: "handle hex P E call (st, m) = (sm1, out)" by fastforce
  obtain outs' where rest: "handle_all hex P E calls sm1 = (sm', outs')" and outs: "outs = out # outs'"
    using Cons.prems(6) one by (auto simp: sm split: prod.splits)
  have few: "\<forall>k. rd_errors (mo_read P m) k + Suc (length calls) \<le> 2 ^ 53" using Cons.prems(5) by (simp add: sm)
  then have few1: "\<forall>k. rd_errors (mo_read P m) k < 2 ^ 53" by (metis Suc_le_lessD add_Suc_right add_leE add_lessD1)
  have step: "accounts P E view (call_cost call) (st, m) es hs (failures P call out) sm1"
    using Cons.prems few1 one by (intro handle_accounts [OF Cons.prems(1)]) (simp_all add: sm)
  then obtain added :: "log_entry list" and heads where t: "tally (mo_read P m) (length added) heads (failures P call out) (mo_read P (snd sm1))"
    and le: "unat (next_seq (st_db (fst sm1))) \<le> unat (next_seq (st_db st)) + call_cost call" by (auto simp: accounts_def)
  have few2: "\<forall>k. rd_errors (mo_read P (snd sm1)) k + length calls \<le> 2 ^ 53"
  proof
    fix k
    show "rd_errors (mo_read P (snd sm1)) k + length calls \<le> 2 ^ 53"
      using tally_errors [OF t, of k] failures_short [of P call out] spec [OF few, of k] by linarith
  qed
  have "accounts P E view (call_cost call + sum_list (map call_cost calls)) (st, m) es hs
      (failures P call out @ all_failures P calls outs') sm'"
    using Cons.prems le few2 rest by (intro accounts_trans [OF step] Cons.IH) (simp_all add: sm)
  then show ?case by (simp add: sm outs all_failures_def)
qed

text \<open>
  C32. The metrics tell the truth about the process. Over any sequence of gRPC calls that reach a handler
  (all but \<^verbatim>\<open>Watch\<close>, which touches no metric), forced and timed signing cycles and key rotations, answered or failed, \<^verbatim>\<open>settled_entries_appended_total\<close> grows by exactly the number of
  entries the log gains and \<^verbatim>\<open>settled_sth_signed_total\<close> by the number of heads stored; the two gauges show the
  size and the time of the last head stored, which is the latest head; and each error counter grows by the
  number of calls of its method that failed with its status. Assumed is that the clock is past the epoch,
  that the numbers do not run out and that an error counter stays below \<open>2 ^ 53\<close>.
\<close>

theorem metrics_exact:
  assumes laws: "monitor_laws P" and inv: "running E view st es hs" and ok: "list_all call_ok calls"
    and room: "unat (next_seq (st_db st)) + sum_list (map call_cost calls) < 2 ^ 64"
    and few: "\<forall>k. rd_errors (mo_read P m) k + length calls \<le> 2 ^ 53"
    and run: "handle_all hex P E calls (st, m) = ((st', m'), outs)"
  shows "\<exists>added heads. running E view st' (es @ added) (hs @ heads)
    \<and> rd_counter (mo_read P m') ENTRIES_APPENDED = rd_counter (mo_read P m) ENTRIES_APPENDED + of_nat (length added)
    \<and> rd_counter (mo_read P m') STH_SIGNED = rd_counter (mo_read P m) STH_SIGNED + of_nat (length heads)
    \<and> rd_gauge (mo_read P m') TREE_SIZE = (if heads = [] then rd_gauge (mo_read P m) TREE_SIZE else sth_tree_size (last (hs @ heads)))
    \<and> rd_gauge (mo_read P m') STH_LAST_TIMESTAMP_NS =
        (if heads = [] then rd_gauge (mo_read P m) STH_LAST_TIMESTAMP_NS else sth_timestamp_ns (last (hs @ heads)))
    \<and> (\<forall>k. rd_errors (mo_read P m') k = rd_errors (mo_read P m) k + count_list (all_failures P calls outs) k)"
proof -
  have "accounts P E view (sum_list (map call_cost calls)) (st, m) es hs (all_failures P calls outs) (st', m')"
    using assms by (intro handle_all_accounts [OF laws _ ok _ _ run]) simp_all
  then obtain added heads where "running E view st' (es @ added) (hs @ heads)"
    "tally (mo_read P m) (length added) heads (all_failures P calls outs) (mo_read P m')" by (auto simp: accounts_def)
  then show ?thesis by (intro exI [of _ added] exI [of _ heads]) (auto simp: tally_def)
qed

section \<open>Where the metrics mislead\<close>

lemma no_head_beyond:
  assumes core: "core_inv E view st es (hs @ heads)" and s: "s \<in> set hs" "sth_tree_size s = of_nat (length es)"
  shows "heads = []"
proof (rule ccontr)
  assume "heads \<noteq> []"
  then have "sth_tree_size s < sth_tree_size (hd heads)"
    using heads_sorted [OF core_invD(5) [OF core]] s(1) by (auto simp: sorted_wrt_append)
  moreover have "sth_tree_size (hd heads) \<le> of_nat (length es)"
    using \<open>heads \<noteq> []\<close> by (intro heads_below [OF core]) simp
  ultimately show False using s(2) by simp
qed

text \<open>
  After a restart the gauges say nothing until an entry arrives: a process that starts on a log its latest
  head covers shows a tree size and a time of 0, whatever it serves and however often the signing task
  runs, while the latest head has a positive size.
\<close>

theorem metrics_stale_after_restart:
  assumes laws: "monitor_laws P" and inv: "running E view st es hs" and ok: "list_all call_ok calls"
    and covered: "s \<in> set hs" "sth_tree_size s = of_nat (length es)" and reads: "sum_list (map call_cost calls) = 0"
    and few: "length calls \<le> 2 ^ 53"
    and run: "handle_all hex P E calls (st, mo_start P) = ((st', m'), outs)"
  shows "running E view st' es hs \<and> (\<forall>g. rd_gauge (mo_read P m') g = 0) \<and> 0 < sth_tree_size (last hs)"
proof -
  note start = monitor_lawsD(1) [OF laws]
  have "unat (next_seq (st_db st)) < 2 ^ 64" using unsigned_less [of "next_seq (st_db st)"] by simp
  then have "accounts P E view (sum_list (map call_cost calls)) (st, mo_start P) es hs (all_failures P calls outs) (st', m')"
    using inv reads few by (intro handle_all_accounts [OF laws _ ok _ _ run]) (simp_all add: start reads del: sum_list_eq_0_iff)
  then obtain heads where run': "running E view st' es (hs @ heads)"
    and t: "tally (mo_read P (mo_start P)) 0 heads (all_failures P calls outs) (mo_read P m')" by (auto simp: accounts_def reads)
  then have core: "core_inv E view st' es (hs @ heads)" by (simp add: running_def)
  have "heads = []" by (rule no_head_beyond [OF core covered])
  moreover have "0 < sth_tree_size (last hs)"
    using core_invD(6) [OF core, of "last hs"] covered(1) by (cases hs) (auto simp: root_ok_def)
  moreover have "rd_gauge (mo_read P m') g = 0" if "heads = []" for g
    using t that by (cases g) (simp_all add: tally_def start)
  ultimately show ?thesis using run' by simp
qed

lemma metered_write_heads:
  assumes "rocks_laws (e_rocks E) view" "codec_laws (e_codec E)" "heads_fam (e_codec E) (view (db_rocks (st_db st))) hs" and "0 \<le> now"
    and "metered_write P E now n (Some rh) sg_sign sg_pk sg_ver (st, m) = ((st', m'), Inr ())"
  shows "\<exists>s. sth_tree_size s = n \<and> heads_fam (e_codec E) (view (db_rocks (st_db st'))) (upd_by sth_tree_size s hs)"
proof -
  let ?s = "\<lparr>sth_tree_size = n, sth_root_hash = rh, sth_timestamp_ns = word_of_int now,
    sth_signature = signer_sign E sg_sign (signing_payload n rh (word_of_int now)),
    sth_public_key = signer_public_key E sg_pk, sth_key_version = sg_version sg_ver\<rparr>"
  obtain db' w where w: "hs_write (e_rocks E) (e_codec E) ?s (st_db st) = (db', w)" by fastforce
  then have st': "st' = st\<lparr>st_db := db'\<rparr>" "lift_app w = Inr ()"
    using assms(4,5) by (auto simp: metered_write_def unwrap_def timestamp_of_def Let_def split: sum.splits)
  show ?thesis
    by (cases rule: hs_write_cases [OF assms(1-3) w]) (use st' in \<open>auto simp: lift_app_def intro!: exI [of _ ?s]\<close>)
qed

text \<open>
  Two signing cycles at once, the timer's and a forced one: the one with the older and smaller snapshot
  finishes last and puts the gauge back to its size, although a head for the larger size is stored and is
  the one the server serves as the latest.
\<close>

theorem tree_size_gauge_goes_back:
  assumes laws: "monitor_laws P" and core: "core_inv E view st es hs" and clocks: "0 \<le> now" "0 \<le> now'"
    and sizes: "k < n" "\<forall>s \<in> set hs. sth_tree_size s < n"
    and first: "metered_write P E now n (Some rh) sg sg sg (st, m) = ((st1, m1), Inr ())"
    and second: "metered_write P E now' k (Some rh') sg' sg' sg' (st1, m1) = ((st2, m2), Inr ())"
  shows "rd_gauge (mo_read P m2) TREE_SIZE = k
    \<and> (\<exists>s. sth_tree_size s = n \<and> yields (hs_latest (e_rocks E) (e_codec E) (st_db st2)) (Some s))"
proof -
  note D = core_invD [OF core]
  obtain s where s: "sth_tree_size s = n" "heads_fam (e_codec E) (view (db_rocks (st_db st1))) (upd_by sth_tree_size s hs)"
    using metered_write_heads [OF D(1,2,5) clocks(1) first] by blast
  have "upd_by sth_tree_size s hs = hs @ [s]" using sizes(2) s(1) by (intro upd_by_last) auto
  with s(2) obtain s' where s': "sth_tree_size s' = k"
      "heads_fam (e_codec E) (view (db_rocks (st_db st2))) (upd_by sth_tree_size s' (hs @ [s]))"
    using metered_write_heads [OF D(1,2) _ clocks(2) second] by metis
  have "last (upd_by sth_tree_size s' (hs @ [s])) = s" "upd_by sth_tree_size s' (hs @ [s]) \<noteq> []"
    using sizes(1) s(1) s'(1) by (simp_all add: upd_by_def)
  with hs_latest_yields [OF D(1,2) s'(2)] s(1) metered_write_metrics [OF second clocks(2)]
  show ?thesis by (auto simp: Let_def monitor_lawsD [OF laws])
qed

section \<open>Witnesses\<close>

text \<open>A registry that is its readings.\<close>

definition mem_monitor :: "readings monitor" where
  "mem_monitor = \<lparr>mo_read = (\<lambda>r. r),
     mo_start = \<lparr>rd_counter = (\<lambda>_. 0), rd_gauge = (\<lambda>_. 0), rd_samples = (\<lambda>_. 0), rd_errors = (\<lambda>_. 0)\<rparr>,
     mo_inc = (\<lambda>c. rd_counter_update (\<lambda>f. f(c := f c + 1))), mo_inc_by = (\<lambda>c n. rd_counter_update (\<lambda>f. f(c := f c + n))),
     mo_set = (\<lambda>g v. rd_gauge_update (\<lambda>f. f(g := v))), mo_observe = (\<lambda>h. rd_samples_update (\<lambda>f. f(h := f h + 1))),
     mo_inc_error = (\<lambda>k. rd_errors_update (\<lambda>f. f(k := f k + 1))),
     mo_describe = (\<lambda>c. if c = CodeNotFound then ''not found'' else ''error''), mo_encode = (\<lambda>_. Inr []), mo_utf8 = (\<lambda>_. Some [])\<rparr>"

lemma mem_monitor_laws: "monitor_laws mem_monitor"
  by (simp add: monitor_laws_def mem_monitor_def)

lemma metered_append_sample:
  "metered_append P mem_env 5 0 [1] [2] (sample_state, m) =
    ((sample_state1\<lparr>st_watch := [entry_of (new_entry toy_sha 5 0 [1] [2])]\<rparr>,
      mo_inc P ENTRIES_APPENDED (mo_observe P APPEND_DURATION m)),
     Inr (append_response_of (entry_of (new_entry toy_sha 5 0 [1] [2]))))"
proof -
  obtain st c where c: "commit_append mem_env 5 [1] [2] sample_state = (st, c)" by fastforce
  have t: "take_tokens f sample_state = (sample_state, True)" for f by (simp add: take_tokens_def sample_state_def)
  obtain en where en: "c = Inr en" using sample_run c t by (cases c) (auto simp: rpc_append_def)
  have "rpc_append mem_env 5 0 [1] [2] sample_state = (publish [en] st, Inr (append_response_of en))"
    by (simp add: rpc_append_def t c en)
  moreover have "metered_append P mem_env 5 0 [1] [2] (sample_state, m) =
      ((publish [en] st, mo_inc P ENTRIES_APPENDED (mo_observe P APPEND_DURATION m)), Inr (append_response_of en))"
    by (simp add: metered_append_def t c en Let_def)
  ultimately show ?thesis by (simp add: sample_run)
qed

lemma get_sth_sample: "rpc_get_sth mem_env 0 (sample_state1\<lparr>st_watch := w\<rparr>) = Inl (Err (CodeNotFound, ''no STH available yet''))"
  by (simp add: rpc_get_sth_def latest_head_def from_storage_def ok_or_def sample_eval)

theorem metrics_exact_witness:
  "\<exists>added heads. running mem_env (\<lambda>d. d) (sample_state1\<lparr>st_watch := [entry_of (new_entry toy_sha 5 0 [1] [2])]\<rparr>) added heads
    \<and> (1 :: u64) = of_nat (length added) \<and> (0 :: u64) = of_nat (length heads)
    \<and> count_list (all_failures mem_monitor [Request (ReqAppend 5 0 [1] [2]), GetSth 0]
        [Answered, RpcFailed (CodeNotFound, ''no STH available yet'')]) (''GetSth'', ''not found'') = 1"
proof -
  let ?m = "mo_start mem_monitor"
  let ?m' = "mo_inc_error mem_monitor (''GetSth'', ''not found'')
        (mo_inc mem_monitor ENTRIES_APPENDED (mo_observe mem_monitor APPEND_DURATION ?m))"
  have run: "handle_all toy_hex mem_monitor mem_env [Request (ReqAppend 5 0 [1] [2]), GetSth 0] (sample_state, ?m) =
      ((sample_state1\<lparr>st_watch := [entry_of (new_entry toy_sha 5 0 [1] [2])]\<rparr>, ?m'),
       [Answered, RpcFailed (CodeNotFound, ''no STH available yet'')])"
    by (simp add: metered_append_sample reading_def get_sth_sample tracked_def track_err_def outcome_of_def)
      (simp add: mem_monitor_def)
  have room: "unat (next_seq (st_db sample_state)) + 1 < 2 ^ 64" by (simp add: sample_state_def)
  have "rd_counter (mo_read mem_monitor ?m') = (\<lambda>_. 0)(ENTRIES_APPENDED := 1)" "rd_errors (mo_read mem_monitor ?m') (''GetSth'', ''not found'') = 1"
    by (simp_all add: mem_monitor_def)
  moreover have zero: "rd_errors (mo_read mem_monitor ?m) k = 0" "rd_counter (mo_read mem_monitor ?m) c = 0" for k c
    by (simp_all add: mem_monitor_def)
  ultimately show ?thesis
    using metrics_exact [OF mem_monitor_laws sample_running _ _ _ run] room
    by (elim meta_impE exE conjE) (simp_all add: zero, metis append_Nil)
qed

lemma signed_running: "running mem_env (\<lambda>d. d) signed_state [new_entry toy_sha 5 0 [1] [2]] [sample_head]"
  using signed_state_inv(1) sample_unpoisoned(3)
  by (auto simp: running_def server_inv_core in_chain_def)

lemma signed_latest: "hs_latest (e_rocks mem_env) (e_codec mem_env) (st_db signed_state) = Inr (Some sample_head)"
proof -
  note D = server_invD [OF signed_state_inv(1)]
  have "hs_latest mem_rocks C db \<noteq> Inl (Err (RocksDb m))" for C db m
    by (auto simp: hs_latest_def mem_rocks_def decode_sth_def from_lib_def sth_try_from_def corrupt_def bindR_def
        split: list.splits sum.splits option.splits)
  with hs_latest_yields [where view = "\<lambda>d. d", OF D(1,2,5)] show ?thesis by (auto simp: yields_def mem_env_def)
qed

lemma signed_size: "mt_size (st_merkle signed_state) = 1"
  using mt.rel_size [OF server_invD(8) [OF signed_state_inv(1)]] by simp

theorem metrics_stale_after_restart_witness:
  "running mem_env (\<lambda>d. d) signed_state [new_entry toy_sha 5 0 [1] [2]] [sample_head]
    \<and> rd_gauge (mo_read mem_monitor (mo_start mem_monitor)) TREE_SIZE = 0 \<and> 0 < sth_tree_size (last [sample_head])"
proof -
  have "metered_sign mem_monitor mem_env 11 (signed_state, mo_start mem_monitor) = ((signed_state, mo_start mem_monitor), Inr ())"
    by (simp add: metered_sign_def signed_size sample_unpoisoned sth_due_def signed_latest lift_app_def sample_head_size)
  then have run: "handle_all toy_hex mem_monitor mem_env [SignCycle 11] (signed_state, mo_start mem_monitor) =
      ((signed_state, mo_start mem_monitor), [Answered])" by (simp add: outcome_of_def)
  from metrics_stale_after_restart [OF mem_monitor_laws signed_running _ _ _ _ _ run, of sample_head] show ?thesis
    by (simp add: sample_head_size)
qed

lemma mem_write_ok:
  assumes "0 \<le> now"
  shows "metered_write P mem_env now n (Some rh) sg_sign sg_pk sg_ver sm =
    (fst (metered_write P mem_env now n (Some rh) sg_sign sg_pk sg_ver sm), Inr ())"
  using assms by (cases sm) (simp add: metered_write_def sample_eval)

theorem tree_size_gauge_goes_back_witness:
  "\<exists>sm. rd_gauge (mo_read mem_monitor (snd sm)) TREE_SIZE = 1 \<and> (\<exists>s. sth_tree_size s = 2 \<and>
    yields (hs_latest (e_rocks mem_env) (e_codec mem_env) (st_db (fst sm :: families app_state))) (Some s))"
proof -
  let ?sg = "st_signer sample_state1"
  let ?a = "fst (metered_write mem_monitor mem_env 9 2 (Some (arr_of [5])) ?sg ?sg ?sg (sample_state1, mo_start mem_monitor))"
  let ?b = "fst (metered_write mem_monitor mem_env 8 1 (Some (arr_of [6])) ?sg ?sg ?sg ?a)"
  have core: "core_inv mem_env (\<lambda>d. d) sample_state1 [new_entry toy_sha 5 0 [1] [2]] []"
    using sample_state1_inv(1) by (simp add: server_inv_core)
  have "metered_write mem_monitor mem_env 9 2 (Some (arr_of [5])) ?sg ?sg ?sg (sample_state1, mo_start mem_monitor) = ((fst ?a, snd ?a), Inr ())"
    "metered_write mem_monitor mem_env 8 1 (Some (arr_of [6])) ?sg ?sg ?sg (fst ?a, snd ?a) = ((fst ?b, snd ?b), Inr ())"
    unfolding prod.collapse by (rule mem_write_ok; simp)+
  from tree_size_gauge_goes_back [OF mem_monitor_laws core _ _ _ _ this] show ?thesis by (intro exI [of _ ?b]) simp
qed

end
