(* ===== verification/Server_Router.thy ===== *)
theory Server_Router
  imports Server_Metrics
begin

text \<open>
  The router of the admin API (\<open>router\<close> in \<^verbatim>\<open>settled-server/src/admin.rs\<close>): the table of paths and methods,
  the handler behind each, and what a request can and cannot change.
\<close>

section \<open>The table and the handlers\<close>

datatype http_verb = GET | HEAD | POST | OtherMethod

datatype endpoint = Health | Metrics | ListKeys | RotateKey | AdminGetSth | Stats | ForceSth

type_synonym route = "string \<times> http_verb \<times> endpoint"

definition router :: "route list" where
  "router = [(''/health'', GET, Health), (''/metrics'', GET, Metrics), (''/api/keys'', GET, ListKeys),
     (''/api/rotate-key'', POST, RotateKey), (''/api/sth'', GET, AdminGetSth), (''/api/stats'', GET, Stats),
     (''/api/sth/force'', POST, ForceSth)]"

text \<open>
  Matching a request against the table is axum's work, the parameter \<open>serves\<close>. It documents that a request
  goes to the handler registered for its path and method, and that a \<^verbatim>\<open>get\<close> handler also answers \<^verbatim>\<open>HEAD\<close>. The
  law is stated for tables of static paths: parameters (\<^verbatim>\<open>:id\<close>, \<^verbatim>\<open>{id}\<close>) and wildcards (\<^verbatim>\<open>*rest\<close>) match more.
\<close>

definition static_path :: "string \<Rightarrow> bool" where
  "static_path uri \<longleftrightarrow> set uri \<inter> set '':*{}'' = {}"

type_synonym matcher = "route list \<Rightarrow> http_verb \<Rightarrow> string \<Rightarrow> endpoint option"

definition matcher_laws :: "matcher \<Rightarrow> bool" where
  "matcher_laws serves \<longleftrightarrow> (\<forall>rs verb uri. distinct (map fst rs) \<longrightarrow> list_all static_path (map fst rs) \<longrightarrow> (\<forall>e. serves rs verb uri = Some e \<longleftrightarrow>
     (uri, verb, e) \<in> set rs \<or> verb = HEAD \<and> (uri, GET, e) \<in> set rs))"

datatype admin_body =
  StatusBody http_status | TextBody string | KeysBody "key_record_json list" | KeyBody key_record_json | SthBody sth_json | StatsBody stats_json

definition json :: "('a \<Rightarrow> admin_body) \<Rightarrow> (http_status, 'a) result \<Rightarrow> (http_status, admin_body) result" where
  "json f r = bindR r (\<lambda>x. Inr (f x))"

text \<open>
  A request comes with what its handler may ask the outside for: the clock, a fresh key and the outcome
  of writing the key file.
\<close>

fun run_endpoint ::
  "hex \<Rightarrow> 'm monitor \<Rightarrow> 'd env \<Rightarrow> int \<Rightarrow> signing_key \<Rightarrow> (string \<times> bytes option) option \<Rightarrow> endpoint \<Rightarrow> 'd app_state \<times> 'm \<Rightarrow>
   ('d app_state \<times> 'm) \<times> (http_status, admin_body) result" where
  "run_endpoint hex P E now fresh wr Health sm = (sm, Inr (StatusBody health))"
| "run_endpoint hex P E now fresh wr Metrics sm = (sm, json TextBody (metrics_page P (snd sm)))"
| "run_endpoint hex P E now fresh wr ListKeys sm = (sm, json KeysBody (list_keys hex E (fst sm)))"
| "run_endpoint hex P E now fresh wr RotateKey sm =
     (let (st, m) = sm; (st, r) = rotate_key_json hex E fresh wr st in ((st, m), json KeyBody r))"
| "run_endpoint hex P E now fresh wr AdminGetSth sm = (sm, json SthBody (admin_get_sth hex E (fst sm)))"
| "run_endpoint hex P E now fresh wr Stats sm = (sm, json StatsBody (stats E (fst sm)))"
| "run_endpoint hex P E now fresh wr ForceSth sm = apsnd (json SthBody) (metered_force hex P E now sm)"

text \<open>\<^const>\<open>None\<close>: axum answers by itself, that there is no such path or that it does not take this method.\<close>

definition admin_request ::
  "matcher \<Rightarrow> hex \<Rightarrow> 'm monitor \<Rightarrow> 'd env \<Rightarrow> int \<Rightarrow> signing_key \<Rightarrow> (string \<times> bytes option) option \<Rightarrow> http_verb \<Rightarrow> string \<Rightarrow>
   'd app_state \<times> 'm \<Rightarrow> ('d app_state \<times> 'm) \<times> (http_status, admin_body) result option" where
  "admin_request serves hex P E now fresh wr verb uri sm = (case serves router verb uri of
     None \<Rightarrow> (sm, None)
   | Some e \<Rightarrow> apsnd Some (run_endpoint hex P E now fresh wr e sm))"

section \<open>What an admin request can do\<close>

lemma router_static: "distinct (map fst router)" "list_all static_path (map fst router)"
  by (simp_all add: router_def static_path_def)

lemma served_routes:
  assumes "matcher_laws serves"
  shows "serves router verb uri = Some e \<longleftrightarrow>
    (uri, verb, e) \<in> set router \<or> verb = HEAD \<and> (uri, GET, e) \<in> set router"
  using assms router_static unfolding matcher_laws_def by blast

lemma endpoint_accounts:
  assumes laws: "monitor_laws P" and inv: "running E view st es hs" and now: "0 \<le> now"
    and run: "run_endpoint hex P E now fresh wr e (st, m) = (sm', r)"
  shows "accounts P E view 0 (st, m) es hs [] sm'"
proof -
  have same: "accounts P E view 0 (st, m) es hs [] (st', m)"
    if "running E view st' es hs" "next_seq (st_db st') = next_seq (st_db st)" for st'
    using that by (intro accountsI [where added = "[]" and heads = "[]"]) simp_all
  show ?thesis
  proof (cases e)
    case RotateKey
    obtain st' x where x: "rotate_key_json hex E fresh wr st = (st', x)" by fastforce
    with run same rotate_running [OF inv x] show ?thesis by (auto simp: RotateKey)
  next
    case ForceSth
    then obtain x where "metered_sign P E now (st, m) = (sm', x)"
      using run by (auto simp: metered_force_def split: prod.splits)
    with sign_accounts [OF laws inv now] show ?thesis by simp
  qed (use run same [OF inv] in auto)
qed

lemma endpoint_next:
  assumes inv: "running E view st es hs" and now: "0 \<le> now" and run: "run_endpoint hex P E now fresh wr e (st, m) = (sm', r)"
  shows "next_seq (st_db (fst sm')) = next_seq (st_db st)"
proof (cases e)
  case RotateKey
  obtain st' x where x: "rotate_key_json hex E fresh wr st = (st', x)" by fastforce
  with run rotate_running [OF inv x] show ?thesis by (auto simp: RotateKey)
next
  case ForceSth
  then obtain x where "metered_sign P E now (st, m) = (sm', x)"
    using run by (auto simp: metered_force_def split: prod.splits)
  then have "sign_and_store E now st = (fst sm', x)" using metered_sign_erase [of P E now st m] by simp
  from sign_running [OF inv now this] show ?thesis by blast
qed (use run in auto)

lemma router_set: "set router = {(''/health'', GET, Health), (''/metrics'', GET, Metrics), (''/api/keys'', GET, ListKeys),
    (''/api/rotate-key'', POST, RotateKey), (''/api/sth'', GET, AdminGetSth), (''/api/stats'', GET, Stats),
    (''/api/sth/force'', POST, ForceSth)}"
  by (simp add: router_def)

lemma documented_routes:
  assumes "matcher_laws serves"
  shows "serves router GET ''/health'' = Some Health" "serves router GET ''/metrics'' = Some Metrics"
    "serves router GET ''/api/keys'' = Some ListKeys" "serves router GET ''/api/sth'' = Some AdminGetSth"
    "serves router GET ''/api/stats'' = Some Stats" "serves router POST ''/api/rotate-key'' = Some RotateKey"
    "serves router POST ''/api/sth/force'' = Some ForceSth"
  by (simp_all only: served_routes [OF assms] router_set) simp_all


section \<open>Witness\<close>

text \<open>A router that searches the table.\<close>

definition find_route :: matcher where
  "find_route rs verb uri = map_option (snd \<circ> snd)
     (find (\<lambda>(u, m, e). u = uri \<and> (m = verb \<or> verb = HEAD \<and> m = GET)) rs)"

lemma find_route_laws: "matcher_laws find_route"
  unfolding matcher_laws_def
proof (intro allI impI)
  fix rs :: "route list" and verb uri e
  assume "distinct (map fst rs)" and "list_all static_path (map fst rs)"
  then show "find_route rs verb uri = Some e \<longleftrightarrow>
      (uri, verb, e) \<in> set rs \<or> verb = HEAD \<and> (uri, GET, e) \<in> set rs"
    by (induction rs) (auto simp: find_route_def image_iff)
qed


end
