(* ===== verification/Storage_Tree.thy ===== *)
theory Storage_Tree
  imports Storage_Log Core_Merkle
begin

text \<open>
  \<^verbatim>\<open>settled-storage/src/tree_store.rs\<close>: the materialised nodes of the Merkle tree. \<^verbatim>\<open>compute_nodes_from_leaves\<close>
  walks over the leaves with a cache of the nodes found so far and emits every complete node;
  \<^verbatim>\<open>rebuild_from_log\<close> deletes all stored nodes and stores those of the log. The cache is a map; reading a
  missing key from it is a panic. The specification is \<open>node_at\<close>: the node \<open>(l, i)\<close> is the Merkle root of the
  \<open>i\<close>-th block of \<open>2 ^ l\<close> leaves.
\<close>

type_synonym tree_node = "u64 \<times> u64 \<times> hash"

definition tree_key :: "u64 \<Rightarrow> u64 \<Rightarrow> 16 barr" where
  "tree_key level idx =
     (let key = replicate 16 0;
          key = copy_into key 0 (to_vec (u64_to_be level));
          key = copy_into key 8 (to_vec (u64_to_be idx))
      in arr_of key)"

definition put_node :: "tree_node \<Rightarrow> batch_op" where
  "put_node = (\<lambda>(level, idx, hash). PutCf CfTree (to_vec (tree_key level idx)) (to_vec hash))"

definition ts_write_batch :: "'d rocksdb \<Rightarrow> tree_node list \<Rightarrow> 'd db \<Rightarrow> 'd db \<times> (storage_error, unit) result" where
  "ts_write_batch R nodes db =
     (let (d', r) = rdb_write R (db_rocks db) (map put_node nodes)
      in (db\<lparr>db_rocks := d'\<rparr>, from_lib RocksDb r))"

definition ts_get_node :: "'d rocksdb \<Rightarrow> 'd db \<Rightarrow> u64 \<Rightarrow> u64 \<Rightarrow> (storage_error, hash option) result" where
  "ts_get_node R db level idx =
     bindR (from_lib RocksDb (rdb_get R (db_rocks db) CfTree (to_vec (tree_key level idx)))) (\<lambda>got. case got of
       Some v \<Rightarrow> bindR (corrupt ''tree node value must be 32 bytes'' (try_into v)) (\<lambda>hash. Inr (Some hash))
     | None \<Rightarrow> Inr None)"

type_synonym node_cache = "(u64 \<times> u64) \<rightharpoonup> hash"

lemma u64_below_63: "h < (63 :: u64) \<Longrightarrow> 63 - unat (h + 1) < 63 - unat h"
  by (simp add: word_less_nat_alt unat_word_ariths)

text \<open>The inner loop: climb from a new leaf \<open>j\<close> while the blocks that end at it are complete.\<close>

function node_loop :: "sha256 \<Rightarrow> u64 \<Rightarrow> u64 \<Rightarrow> node_cache \<Rightarrow> tree_node list \<Rightarrow> ('e, node_cache \<times> tree_node list) result" where
  "node_loop sha j h cache nodes =
     (if h < 63 \<and> (j + 1) mod shl64 1 (unat h) = 0 then
        (let idx = shr64 j (unat h) in
         bindR (unwrap (cache (h - 1, 2 * idx))) (\<lambda>left.
         bindR (unwrap (cache (h - 1, 2 * idx + 1))) (\<lambda>right.
           let parent = node_hash sha left right in
           node_loop sha j (h + 1) (cache((h, idx) \<mapsto> parent)) (nodes @ [(h, idx, parent)]))))
      else Inr (cache, nodes))"
  by pat_completeness auto
termination
  by (relation "measure (\<lambda>(sha, j, h, cache, nodes). 63 - unat h)") (auto intro: u64_below_63)

definition leaf_step ::
  "sha256 \<Rightarrow> node_cache \<times> tree_node list \<Rightarrow> u64 \<times> hash \<Rightarrow> ('e, node_cache \<times> tree_node list) result" where
  "leaf_step sha = (\<lambda>(cache, nodes) (j, hash). node_loop sha j 1 (cache((0, j) \<mapsto> hash)) (nodes @ [(0, j, hash)]))"

definition compute_nodes_from_leaves :: "sha256 \<Rightarrow> (u64 \<times> hash) list \<Rightarrow> ('e, tree_node list) result" where
  "compute_nodes_from_leaves sha leaves =
     bindR (foldR (leaf_step sha) (Map.empty, []) leaves) (\<lambda>(cache, nodes). Inr nodes)"

text \<open>The keys of the items an iterator delivers, errors skipped.\<close>

definition ok_keys :: "(string + bytes \<times> bytes) list \<Rightarrow> bytes list" where
  "ok_keys items = List.map_filter (\<lambda>r. case r of Inl _ \<Rightarrow> None | Inr (k, v) \<Rightarrow> Some k) items"

definition ts_clear :: "'d rocksdb \<Rightarrow> 'd db \<Rightarrow> 'd db \<times> (storage_error, unit) result" where
  "ts_clear R db =
     (let keys = ok_keys (rdb_iter R (db_rocks db) CfTree IterStart) in
      if keys = [] then (db, Inr ())
      else let (d', r) = rdb_write R (db_rocks db) (map (DeleteCf CfTree) keys)
        in (db\<lparr>db_rocks := d'\<rparr>, from_lib RocksDb r))"

definition ts_rebuild_from_log ::
  "'d rocksdb \<Rightarrow> codec \<Rightarrow> sha256 \<Rightarrow> 'd db \<Rightarrow> 'd db \<times> (storage_error, unit) result" where
  "ts_rebuild_from_log R C sha db =
     (case ts_clear R db of
        (db, Inl e) \<Rightarrow> (db, Inl e)
      | (db, Inr _) \<Rightarrow>
        (case ls_seq_range R C db 0 (- 1) of Inl e \<Rightarrow> (db, Inl e)
         | Inr entries \<Rightarrow>
           (case compute_nodes_from_leaves sha (map (\<lambda>e. (le_seq e, le_leaf_hash e)) entries) of Inl e \<Rightarrow> (db, Inl e)
            | Inr nodes \<Rightarrow> ts_write_batch R nodes db)))"

section \<open>Complete nodes\<close>

declare node_loop.simps [simp del]

lemma to_vec_tree_key: "to_vec (tree_key l i) = be_bytes 8 (unat l) @ be_bytes 8 (unat i)"
  by (simp add: tree_key_def Let_def copy_into_def to_vec_u64_to_be)

lemma tree_key_inject [simp]: "tree_key l i = tree_key l' i' \<longleftrightarrow> l = l' \<and> i = i'"
proof -
  have "be_bytes 8 (unat a) = be_bytes 8 (unat b) \<longleftrightarrow> a = b" for a b :: u64
    by (metis to_vec_u64_to_be to_vec_eq_iff u64_to_be_inject)
  then have "to_vec (tree_key l i) = to_vec (tree_key l' i') \<longleftrightarrow> l = l' \<and> i = i'" unfolding to_vec_tree_key by simp
  then show ?thesis by (simp only: to_vec_eq_iff)
qed

definition node_at :: "sha256 \<Rightarrow> hash list \<Rightarrow> nat \<Rightarrow> nat \<Rightarrow> hash" where
  "node_at sha xs l i = MTH (node_hash sha) (take (2 ^ l) (drop (i * 2 ^ l) xs))"

lemma node_at_leaf: "i < length xs \<Longrightarrow> node_at sha xs 0 i = xs ! i"
  by (simp add: node_at_def take_Suc_conv_app_nth hd_drop_conv_nth take_Suc)

lemma node_at_parent:
  assumes "Suc i * 2 ^ Suc l \<le> length xs"
  shows "node_at sha xs (Suc l) i = node_hash sha (node_at sha xs l (2 * i)) (node_at sha xs l (2 * i + 1))"
proof -
  let ?a = "take (2 ^ l) (drop (2 * i * 2 ^ l) xs)" and ?b = "take (2 ^ l) (drop ((2 * i + 1) * 2 ^ l) xs)"
  have "(2 :: nat) ^ Suc l = 2 ^ l + 2 ^ l" and "i * 2 ^ Suc l = 2 * i * 2 ^ l" by simp_all
  then have "take (2 ^ Suc l) (drop (i * 2 ^ Suc l) xs) = take (2 ^ l + 2 ^ l) (drop (2 * i * 2 ^ l) xs)" by metis
  also have "\<dots> = ?a @ take (2 ^ l) (drop (2 ^ l) (drop (2 * i * 2 ^ l) xs))" by (rule take_add)
  also have "drop (2 ^ l) (drop (2 * i * 2 ^ l) xs) = drop ((2 * i + 1) * 2 ^ l) xs" by (simp add: algebra_simps)
  finally have split: "take (2 ^ Suc l) (drop (i * 2 ^ Suc l) xs) = ?a @ ?b" .
  have "length ?a = 2 ^ l" "length ?b = 2 ^ l" using assms by (simp_all add: algebra_simps)
  then show ?thesis unfolding node_at_def split by (intro MTH_append [of _ l]) simp_all
qed

lemma node_at_append: "Suc i * 2 ^ l \<le> length xs \<Longrightarrow> node_at sha (xs @ ys) l i = node_at sha xs l i"
  by (simp add: node_at_def algebra_simps)

definition complete :: "nat \<Rightarrow> (nat \<times> nat) set" where
  "complete n = {(l, i). l < 63 \<and> Suc i * 2 ^ l \<le> n}"

text \<open>The complete nodes after leaf \<open>n\<close> of which the new ones have been found up to level \<open>h\<close>.\<close>

definition found :: "nat \<Rightarrow> nat \<Rightarrow> (nat \<times> nat) set" where
  "found h n = {(l, i) \<in> complete (Suc n). l < h \<or> Suc i * 2 ^ l \<le> n}"

lemma found_step:
  assumes "h < 63" and "2 ^ h dvd Suc n"
  shows "found (Suc h) n = insert (h, n div 2 ^ h) (found h n)" and "Suc (n div 2 ^ h) * 2 ^ h = Suc n"
proof -
  obtain q where q: "Suc n = 2 ^ h * q" using assms(2) by (elim dvdE)
  then have "0 < q" by (cases q) auto
  then obtain p where p: "q = Suc p" by (cases q) auto
  have "n = 2 ^ h * p + (2 ^ h - 1)" using q p by simp
  then have d: "n div 2 ^ h = p" by (metis div_mult_self4 add.commute add.right_neutral div_less diff_less zero_less_one zero_less_numeral zero_less_power power_not_zero zero_neq_numeral)
  then show *: "Suc (n div 2 ^ h) * 2 ^ h = Suc n" using q p by (simp add: mult.commute)
  have "l = h \<and> i = n div 2 ^ h" if "(l, i) \<in> found (Suc h) n" "(l, i) \<notin> found h n" for l i
  proof -
    have lh: "l = h" using that by (auto simp: found_def complete_def)
    have "Suc i * 2 ^ h = Suc n" using that unfolding lh by (auto simp: found_def complete_def)
    then have "Suc i * 2 ^ h = Suc (n div 2 ^ h) * 2 ^ h" using * by simp
    with lh show ?thesis by (simp del: mult_Suc)
  qed
  moreover have "(h, n div 2 ^ h) \<in> found (Suc h) n" using assms(1) * by (simp add: found_def complete_def)
  moreover have "found h n \<subseteq> found (Suc h) n" by (auto simp: found_def)
  ultimately show "found (Suc h) n = insert (h, n div 2 ^ h) (found h n)" by auto
qed

lemma found_all:
  assumes "\<not> (h < 63 \<and> 2 ^ h dvd Suc n)"
  shows "found h n = complete (Suc n)"
proof -
  have "Suc i * 2 ^ l \<le> n" if "l < 63" "Suc i * 2 ^ l \<le> Suc n" "\<not> l < h" for l i
  proof (rule ccontr)
    assume "\<not> Suc i * 2 ^ l \<le> n"
    with that have "Suc n = Suc i * 2 ^ l" by simp
    moreover have "(2 :: nat) ^ h dvd 2 ^ l" using that(3) by (simp add: le_imp_power_dvd)
    ultimately have "2 ^ h dvd Suc n" by (metis dvd_mult)
    with assms that show False by auto
  qed
  then show ?thesis by (auto simp: found_def complete_def)
qed

lemma found_start: "found 1 n = insert (0, n) (complete n)"
  by (auto simp: found_def complete_def)

section \<open>The computation finds them\<close>

definition node_entry :: "sha256 \<Rightarrow> hash list \<Rightarrow> nat \<times> nat \<Rightarrow> tree_node" where
  "node_entry sha xs = (\<lambda>(l, i). (of_nat l, of_nat i, node_at sha xs l i))"

definition holds_nodes :: "sha256 \<Rightarrow> hash list \<Rightarrow> (nat \<times> nat) set \<Rightarrow> node_cache \<Rightarrow> tree_node list \<Rightarrow> bool" where
  "holds_nodes sha xs D cache nodes \<longleftrightarrow>
     (\<forall>(l, i) \<in> D. cache (of_nat l, of_nat i) = Some (node_at sha xs l i)) \<and> set nodes = node_entry sha xs ` D"

lemma block_index_bound: "Suc i * 2 ^ l \<le> n \<Longrightarrow> i < n"
  by (metis Suc_le_lessD dual_order.trans le_refl mult.right_neutral mult_le_mono one_le_numeral one_le_power)

lemma of_nat_u64_inject: "a < 2 ^ 64 \<Longrightarrow> b < 2 ^ 64 \<Longrightarrow> (of_nat a :: u64) = of_nat b \<longleftrightarrow> a = b"
  by (metis unat_of_nat_u64)

lemma holds_nodes_insert:
  assumes "holds_nodes sha xs D cache nodes" and "length xs < 2 ^ 64"
    and "\<And>l i. (l, i) \<in> D \<Longrightarrow> l < 63 \<and> i < length xs" and "h < 63" and "k < length xs"
  shows "holds_nodes sha xs (insert (h, k) D) (cache((of_nat h, of_nat k) \<mapsto> node_at sha xs h k))
    (nodes @ [(of_nat h, of_nat k, node_at sha xs h k)])"
proof -
  let ?c = "cache((of_nat h, of_nat k) \<mapsto> node_at sha xs h k)"
  have "?c (of_nat l, of_nat i) = Some (node_at sha xs l i)" if D: "(l, i) \<in> insert (h, k) D" for l i
  proof -
    have "l < 63" "i < length xs" using D assms(3) [of l i] assms(4,5) by auto
    then have "(of_nat l :: u64) = of_nat h \<and> (of_nat i :: u64) = of_nat k \<longleftrightarrow> l = h \<and> i = k"
      using assms(2,4,5) by (auto simp: of_nat_u64_inject)
    with D assms(1) show ?thesis by (auto simp: holds_nodes_def)
  qed
  then have "\<forall>(l, i) \<in> insert (h, k) D. ?c (of_nat l, of_nat i) = Some (node_at sha xs l i)" by fast
  moreover have "set (nodes @ [(of_nat h, of_nat k, node_at sha xs h k)]) = node_entry sha xs ` insert (h, k) D"
    using assms(1) by (auto simp: holds_nodes_def node_entry_def)
  ultimately show ?thesis by (simp only: holds_nodes_def)
qed

lemma u64_block_test:
  assumes "h < 64" and "Suc n < 2 ^ 64"
  shows "((of_nat n :: u64) + 1) mod shl64 1 h = 0 \<longleftrightarrow> 2 ^ h dvd Suc n" and "shr64 (of_nat n) h = of_nat (n div 2 ^ h)"
proof -
  have s: "unat ((of_nat n :: u64) + 1) = Suc n" using assms(2) by (simp add: unat_word_ariths unat_of_nat)
  have "unat (of_nat (2 ^ h) :: u64) = 2 ^ h"
    using assms(1) by (intro unat_of_nat_u64) (rule power_strict_increasing, simp_all)
  then have p: "unat (shl64 1 h) = 2 ^ h" using assms(1) by (simp add: shl64_def push_bit_of_1)
  have "((of_nat n :: u64) + 1) mod shl64 1 h = 0 \<longleftrightarrow> unat (((of_nat n :: u64) + 1) mod shl64 1 h) = 0"
    by (simp add: unat_eq_0)
  also have "\<dots> \<longleftrightarrow> 2 ^ h dvd Suc n" unfolding unat_mod_distrib s p by (simp add: mod_eq_0_iff_dvd)
  finally show "((of_nat n :: u64) + 1) mod shl64 1 h = 0 \<longleftrightarrow> 2 ^ h dvd Suc n" .
  have "unat (shr64 (of_nat n :: u64) h) = n div 2 ^ h"
    unfolding shr64_def unat_drop_bit_eq using assms by (simp add: drop_bit_eq_div unat_of_nat)
  moreover have "n div 2 ^ h < 2 ^ 64" using assms(2) div_le_dividend [of n "2 ^ h"] by linarith
  ultimately show "shr64 (of_nat n) h = of_nat (n div 2 ^ h)" by (metis of_nat_unat ucast_id)
qed

text \<open>One round of the loop at a complete block: the parent is computed and recorded.\<close>

lemma node_loop_step:
  assumes len: "length xs = Suc n" "Suc n < 2 ^ 64" and h: "0 < h" "h < 63" and dvd: "2 ^ h dvd Suc n"
    and holds: "holds_nodes sha xs (found h n) cache nodes"
  obtains cache' nodes' where "holds_nodes sha xs (found (Suc h) n) cache' nodes'"
    and "(node_loop sha (of_nat n) (of_nat h) cache nodes :: ('e, node_cache \<times> tree_node list) result) =
      node_loop sha (of_nat n) (of_nat (Suc h)) cache' nodes'"
proof -
  obtain g where g: "h = Suc g" using h(1) by (cases h) auto
  let ?i = "n div 2 ^ h"
  have uh: "unat (of_nat h :: u64) = h" using h(2) by (simp add: unat_of_nat)
  then have lt: "(of_nat h :: u64) < 63" using h(2) by (simp add: word_less_nat_alt)
  have step: "found (Suc h) n = insert (h, ?i) (found h n)" and full: "Suc ?i * 2 ^ h = Suc n"
    by (rule found_step [OF h(2) dvd])+
  have kids: "(g, 2 * ?i) \<in> found h n" "(g, 2 * ?i + 1) \<in> found h n"
    using h(2) full unfolding g by (simp_all add: found_def complete_def algebra_simps)
  have c: "cache (of_nat h - 1, of_nat i) = Some (node_at sha xs g i)" if "(g, i) \<in> found h n" for i
    using that holds by (auto simp: holds_nodes_def g)
  have cs: "cache (of_nat h - 1, 2 * of_nat ?i) = Some (node_at sha xs g (2 * ?i))"
    "cache (of_nat h - 1, 2 * of_nat ?i + 1) = Some (node_at sha xs g (2 * ?i + 1))"
    using c [OF kids(1)] c [OF kids(2)] by (simp_all add: add.commute)
  have par: "node_hash sha (node_at sha xs g (2 * ?i)) (node_at sha xs g (2 * ?i + 1)) = node_at sha xs h ?i"
    unfolding g by (rule node_at_parent [symmetric]) (use full len(1) g in simp)
  have i: "?i < length xs" using len(1) by (simp add: le_imp_less_Suc div_le_dividend)
  have "l < 63 \<and> i < length xs" if "(l, i) \<in> found h n" for l i
    using that block_index_bound [of i l "Suc n"] len(1) by (auto simp: found_def complete_def)
  then have "holds_nodes sha xs (found (Suc h) n) (cache((of_nat h, of_nat ?i) \<mapsto> node_at sha xs h ?i))
      (nodes @ [(of_nat h, of_nat ?i, node_at sha xs h ?i)])"
    unfolding step using holds len h(2) i by (intro holds_nodes_insert) auto
  moreover have "(node_loop sha (of_nat n) (of_nat h) cache nodes :: ('e, node_cache \<times> tree_node list) result) =
      node_loop sha (of_nat n) (of_nat (Suc h)) (cache((of_nat h, of_nat ?i) \<mapsto> node_at sha xs h ?i))
        (nodes @ [(of_nat h, of_nat ?i, node_at sha xs h ?i)])"
    using dvd u64_block_test [of h n, OF _ len(2)] h(2) lt cs
    by (subst node_loop.simps) (simp add: uh unwrap_def par [unfolded One_nat_def add_Suc_right add_0_right] Let_def add.commute)
  ultimately show ?thesis by (rule that)
qed

lemma node_loop_finds:
  assumes "length xs = Suc n" and "Suc n < 2 ^ 64" and "0 < h" and "h \<le> 63"
    and "holds_nodes sha xs (found h n) cache nodes"
  shows "\<exists>cache' nodes'. (node_loop sha (of_nat n) (of_nat h) cache nodes :: ('e, node_cache \<times> tree_node list) result) =
      Inr (cache', nodes') \<and> holds_nodes sha xs (complete (Suc n)) cache' nodes'"
  using assms(3-5)
proof (induction "63 - h" arbitrary: h cache nodes)
  case 0
  then have h: "h = 63" by simp
  have "(node_loop sha (of_nat n) (of_nat h) cache nodes :: ('e, node_cache \<times> tree_node list) result) = Inr (cache, nodes)"
    by (subst node_loop.simps) (simp add: h)
  with 0 found_all [of h n] show ?case by (auto simp: h)
next
  case (Suc d)
  then have h: "h < 63" by simp
  show ?case
  proof (cases "2 ^ h dvd Suc n")
    case False
    then have "(node_loop sha (of_nat n) (of_nat h) cache nodes :: ('e, node_cache \<times> tree_node list) result) = Inr (cache, nodes)"
      using u64_block_test [of h n, OF _ assms(2)] h by (subst node_loop.simps) (simp add: unat_of_nat)
    with False found_all [of h n] Suc.prems show ?thesis by auto
  next
    case True
    obtain cache' nodes' where holds: "holds_nodes sha xs (found (Suc h) n) cache' nodes'"
      and run: "(node_loop sha (of_nat n) (of_nat h) cache nodes :: ('e, node_cache \<times> tree_node list) result) =
        node_loop sha (of_nat n) (of_nat (Suc h)) cache' nodes'"
      by (rule node_loop_step [OF assms(1,2) Suc.prems(1) h True Suc.prems(3)])
    show ?thesis unfolding run using Suc.hyps(2) h holds by (intro Suc.hyps(1)) auto
  qed
qed

lemma leaves_find:
  assumes "length xs < 2 ^ 64"
  shows "\<exists>cache nodes. (foldR (leaf_step sha) (Map.empty, []) (zip (map of_nat [0..<length xs]) xs) ::
      ('e, node_cache \<times> tree_node list) result) = Inr (cache, nodes) \<and> holds_nodes sha xs (complete (length xs)) cache nodes"
  using assms
proof (induction xs rule: rev_induct)
  case Nil
  have "complete 0 = {}" by (auto simp: complete_def)
  then show ?case by (simp add: holds_nodes_def)
next
  case (snoc x xs)
  let ?n = "length xs"
  from snoc obtain cache nodes where run: "(foldR (leaf_step sha) (Map.empty, []) (zip (map of_nat [0..<?n]) xs) ::
      ('e, node_cache \<times> tree_node list) result) = Inr (cache, nodes)"
    and h: "holds_nodes sha xs (complete ?n) cache nodes" by auto
  have same: "node_at sha (xs @ [x]) l i = node_at sha xs l i" if "(l, i) \<in> complete ?n" for l i
    using that by (intro node_at_append) (simp add: complete_def)
  then have "holds_nodes sha (xs @ [x]) (complete ?n) cache nodes"
  proof -
    have "node_entry sha (xs @ [x]) ` complete ?n = node_entry sha xs ` complete ?n"
      by (rule image_cong) (auto simp: node_entry_def same)
    moreover have "\<forall>(l, i) \<in> complete ?n. cache (of_nat l, of_nat i) = Some (node_at sha (xs @ [x]) l i)"
      using h same by (auto simp: holds_nodes_def)
    ultimately show ?thesis using h by (simp add: holds_nodes_def)
  qed
  moreover have "l < 63 \<and> i < length (xs @ [x])" if "(l, i) \<in> complete ?n" for l i
    using that block_index_bound [of i l ?n] by (auto simp: complete_def)
  moreover have "node_at sha (xs @ [x]) 0 ?n = x" by (simp add: node_at_leaf)
  ultimately have "holds_nodes sha (xs @ [x]) (found 1 ?n) (cache((0, of_nat ?n) \<mapsto> x)) (nodes @ [(0, of_nat ?n, x)])"
    unfolding found_start using snoc.prems holds_nodes_insert [of sha "xs @ [x]" "complete ?n" cache nodes 0 ?n] by simp
  with node_loop_finds [of "xs @ [x]" ?n 1 sha] snoc.prems obtain cache' nodes' where
    "(node_loop sha (of_nat ?n) 1 (cache((0, of_nat ?n) \<mapsto> x)) (nodes @ [(0, of_nat ?n, x)]) ::
      ('e, node_cache \<times> tree_node list) result) = Inr (cache', nodes')"
    and "holds_nodes sha (xs @ [x]) (complete (Suc ?n)) cache' nodes'" by fastforce
  with run show ?case by (simp add: foldR_append leaf_step_def)
qed

text \<open>
  The materialised nodes: from the leaves of a log without gaps the computation never panics, and it
  emits exactly the complete nodes, each with the Merkle root of its block of leaves.
\<close>

theorem compute_nodes_correct:
  assumes "length xs < 2 ^ 64"
  shows "\<exists>nodes. (compute_nodes_from_leaves sha (zip (map of_nat [0..<length xs]) xs) :: ('e, tree_node list) result) = Inr nodes
    \<and> set nodes = {(of_nat l, of_nat i, MTH (node_hash sha) (take (2 ^ l) (drop (i * 2 ^ l) xs))) | l i.
        l < 63 \<and> Suc i * 2 ^ l \<le> length xs}"
proof -
  from leaves_find [OF assms, of sha] obtain cache nodes where
    "(foldR (leaf_step sha) (Map.empty, []) (zip (map of_nat [0..<length xs]) xs) ::
      ('e, node_cache \<times> tree_node list) result) = Inr (cache, nodes)"
    and "holds_nodes sha xs (complete (length xs)) cache nodes" by auto
  then show ?thesis
    by (auto simp: compute_nodes_from_leaves_def holds_nodes_def node_entry_def complete_def node_at_def image_def)
qed

text \<open>
  A gap in the numbers makes the rebuild panic: after a failed append the log can hold the numbers
  0, 2 and 3; the node above leaves 2 and 3 is found, but the one above it needs the node over 0 and 1.
\<close>

theorem rebuild_panics_on_gap:
  "(compute_nodes_from_leaves sha [(0, a), (2, b), (3, c)] :: ('e, tree_node list) result) = Inl (Panic UnwrapFailed)"
  by (simp add: compute_nodes_from_leaves_def leaf_step_def node_loop.simps shl64_def shr64_def unwrap_def Let_def)

section \<open>Rebuilding\<close>

lemma ok_keys_Inr: "ok_keys (map Inr xs) = map fst xs"
  by (induction xs) (auto simp: ok_keys_def List.map_filter_simps)

lemma deletes_lookup:
  "fmlookup (fold apply_op (map (DeleteCf c) ks) f c') k =
    (if c' = c \<and> k \<in> set ks then None else fmlookup (f c') k)"
  by (induction ks arbitrary: f) auto

lemma put_nodes_other: "c \<noteq> CfTree \<Longrightarrow> fold apply_op (map put_node nodes) f c = f c"
  by (induction nodes arbitrary: f) (auto simp: put_node_def split: prod.splits)

lemma put_nodes_lookup:
  assumes "\<And>h h'. (l, i, h) \<in> set nodes \<Longrightarrow> (l, i, h') \<in> set nodes \<Longrightarrow> h = h'"
  shows "(l, i, h) \<in> set nodes \<Longrightarrow>
      fmlookup (fold apply_op (map put_node nodes) f CfTree) (to_vec (tree_key l i)) = Some (to_vec h)"
    and "(\<And>h. (l, i, h) \<notin> set nodes) \<Longrightarrow>
      fmlookup (fold apply_op (map put_node nodes) f CfTree) (to_vec (tree_key l i)) = fmlookup (f CfTree) (to_vec (tree_key l i))"
  using assms
proof (induction nodes rule: rev_induct)
  case (snoc x nodes)
  obtain l' i' h' where x: "x = (l', i', h')" by (cases x) auto
  have look: "fmlookup (fold apply_op (map put_node (nodes @ [x])) f CfTree) (to_vec (tree_key l i)) =
      (if l' = l \<and> i' = i then Some (to_vec h')
       else fmlookup (fold apply_op (map put_node nodes) f CfTree) (to_vec (tree_key l i)))"
    by (auto simp: x put_node_def)
  {
    case 1
    then show ?case unfolding look using snoc.IH(1) by (auto simp: x)
  next
    case 2
    then show ?case unfolding look using snoc.IH(2) by (auto simp: x)
  }
qed simp_all

lemma dense_leaves:
  assumes "dense db es"
  shows "map (\<lambda>e. (le_seq e, le_leaf_hash e)) es = zip (map of_nat [0..<length (map le_leaf_hash es)]) (map le_leaf_hash es)"
proof (rule nth_equalityI)
  fix i assume "i < length (map (\<lambda>e. (le_seq e, le_leaf_hash e)) es)"
  then have i: "i < length es" by simp
  then have "le_seq (es ! i) = of_nat i" using dense_nth [OF assms i] by (metis of_nat_unat ucast_id)
  with i show "map (\<lambda>e. (le_seq e, le_leaf_hash e)) es ! i =
      zip (map of_nat [0..<length (map le_leaf_hash es)]) (map le_leaf_hash es) ! i" by simp
qed simp

definition expected_node :: "sha256 \<Rightarrow> hash list \<Rightarrow> u64 \<Rightarrow> u64 \<Rightarrow> hash option" where
  "expected_node sha xs level idx =
     (if unat level < 63 \<and> Suc (unat idx) * 2 ^ unat level \<le> length xs
      then Some (MTH (node_hash sha) (take (2 ^ unat level) (drop (unat idx * 2 ^ unat level) xs))) else None)"

lemma computed_nodes_lookup:
  assumes len: "length xs < 2 ^ 64" and D: "set nodes = node_entry sha xs ` complete (length xs)"
    and empty: "f CfTree = fmempty"
  shows "fmlookup (fold apply_op (map put_node nodes) f CfTree) (to_vec (tree_key level idx)) =
    map_option to_vec (expected_node sha xs level idx)"
proof -
  have mem: "(level, idx, h) \<in> set nodes \<longleftrightarrow> expected_node sha xs level idx = Some h" for h
  proof
    assume "(level, idx, h) \<in> set nodes"
    then obtain l i where li: "(l, i) \<in> complete (length xs)" "level = of_nat l" "idx = of_nat i" "h = node_at sha xs l i"
      unfolding D node_entry_def by auto
    then have "l < 63" "Suc i * 2 ^ l \<le> length xs" "i < length xs"
      using block_index_bound [of i l "length xs"] by (auto simp: complete_def)
    then have "unat level = l" "unat idx = i" using li(2,3) len by (auto intro!: unat_of_nat_u64)
    with li(1,4) show "expected_node sha xs level idx = Some h"
      by (simp add: expected_node_def complete_def node_at_def del: mult_Suc)
  next
    assume e: "expected_node sha xs level idx = Some h"
    then have "(unat level, unat idx) \<in> complete (length xs)" "h = node_at sha xs (unat level) (unat idx)"
      by (auto simp: expected_node_def complete_def node_at_def split: if_splits)
    then have "node_entry sha xs (unat level, unat idx) \<in> set nodes" unfolding D by blast
    then show "(level, idx, h) \<in> set nodes" using \<open>h = _\<close> by (simp add: node_entry_def)
  qed
  then have uniq: "h = h'" if "(level, idx, h) \<in> set nodes" "(level, idx, h') \<in> set nodes" for h h'
    using that by simp
  show ?thesis
  proof (cases "expected_node sha xs level idx")
    case None
    then have "(level, idx, h) \<notin> set nodes" for h using mem by simp
    then show ?thesis using put_nodes_lookup(2) [where f = f, OF uniq] None empty by simp
  next
    case (Some h)
    then have "(level, idx, h) \<in> set nodes" using mem by simp
    then show ?thesis using put_nodes_lookup(1) [where f = f, OF uniq] Some by simp
  qed
qed

lemma ts_clear_cases:
  assumes laws: "rocks_laws R view"
    and scan: "rdb_iter R (db_rocks db) CfTree IterStart = map Inr (fm_list (view (db_rocks db) CfTree))"
    and run: "ts_clear R db = (db1, c)"
  obtains (fail) m where "c = Inl (Err (RocksDb m))"
    | (ok) "c = Inr ()" and "view (db_rocks db1) CfTree = fmempty"
      and "\<And>x. x \<noteq> CfTree \<Longrightarrow> view (db_rocks db1) x = view (db_rocks db) x" and "next_seq db1 = next_seq db"
proof -
  let ?f = "view (db_rocks db)"
  let ?keys = "map fst (fm_list (?f CfTree))"
  let ?ops = "map (DeleteCf CfTree) ?keys"
  have keys: "ok_keys (rdb_iter R (db_rocks db) CfTree IterStart) = ?keys" by (simp add: scan ok_keys_Inr)
  consider m where "c = Inl (Err (RocksDb m))"
    | "c = Inr ()" "view (db_rocks db1) = fold apply_op ?ops ?f" "next_seq db1 = next_seq db"
  proof (cases "?keys = []")
    case True
    with run that(2) show thesis by (auto simp: ts_clear_def keys)
  next
    case False
    obtain d' w where w: "rdb_write R (db_rocks db) ?ops = (d', w)" by fastforce
    with run False have "db1 = db\<lparr>db_rocks := d'\<rparr>" "c = from_lib RocksDb w"
      by (auto simp: ts_clear_def keys Let_def)
    with w rocks_writeD(1) [OF laws] that show thesis by (cases w) auto
  qed
  then show ?thesis
  proof cases
    case 2
    have "fmlookup (view (db_rocks db1) CfTree) k = None" for k
      unfolding 2(2) deletes_lookup using set_keys_fm_list [of "?f CfTree"] by (auto simp: fmdom'_notD)
    then have "view (db_rocks db1) CfTree = fmempty" by (intro fmap_ext) simp
    moreover have "view (db_rocks db1) x = ?f x" if "x \<noteq> CfTree" for x
      unfolding 2(2) by (intro fmap_ext) (simp only: deletes_lookup that, simp)
    ultimately show ?thesis using 2 by (intro ok)
  qed (rule fail)
qed

lemma ts_get_node_yields:
  assumes "rocks_laws R view"
    and "fmlookup (view (db_rocks db) CfTree) (to_vec (tree_key level idx)) = map_option to_vec (x :: hash option)"
  shows "yields (ts_get_node R db level idx) x"
proof (cases "rdb_get R (db_rocks db) CfTree (to_vec (tree_key level idx))")
  case (Inr got)
  with rocks_getD [OF assms(1) Inr] assms(2) show ?thesis
    by (cases x) (simp_all add: ts_get_node_def corrupt_def)
qed (simp add: ts_get_node_def)

lemma dense_nodes:
  assumes "dense db es"
  obtains nodes where "(compute_nodes_from_leaves sha (map (\<lambda>e. (le_seq e, le_leaf_hash e)) es) :: ('e, tree_node list) result) = Inr nodes"
    and "set nodes = node_entry sha (map le_leaf_hash es) ` complete (length es)"
proof -
  let ?xs = "map le_leaf_hash es"
  have "length ?xs < 2 ^ 64" using assms by (simp add: dense_def)
  from leaves_find [OF this, of sha] obtain cache nodes where
    "(foldR (leaf_step sha) (Map.empty, []) (zip (map of_nat [0..<length ?xs]) ?xs) ::
      ('e, node_cache \<times> tree_node list) result) = Inr (cache, nodes)"
    and "holds_nodes sha ?xs (complete (length ?xs)) cache nodes" by auto
  then show ?thesis
    by (intro that [of nodes]) (simp_all add: dense_leaves [OF assms] compute_nodes_from_leaves_def holds_nodes_def)
qed

lemma write_nodes:
  assumes laws: "rocks_laws R view" and rel: "log_rel C sha view db es" and dense: "dense db es"
    and empty: "view (db_rocks db) CfTree = fmempty"
    and nodes: "set nodes = node_entry sha (map le_leaf_hash es) ` complete (length es)"
    and run: "ts_write_batch R nodes db = (db', r)"
  shows "(r = Inr () \<and> log_rel C sha view db' es
      \<and> (\<forall>level idx. yields (ts_get_node R db' level idx) (expected_node sha (map le_leaf_hash es) level idx)))
    \<or> (\<exists>m. r = Inl (Err (RocksDb m)))"
proof -
  obtain d' w where w: "rdb_write R (db_rocks db) (map put_node nodes) = (d', w)" by fastforce
  with run have db': "db' = db\<lparr>db_rocks := d'\<rparr>" and r: "r = from_lib RocksDb w" by (simp_all add: ts_write_batch_def)
  show ?thesis
  proof (cases w)
    case (Inl m)
    with r show ?thesis by simp
  next
    case (Inr u)
    then have v': "view d' = fold apply_op (map put_node nodes) (view (db_rocks db))"
      using rocks_writeD(1) [OF laws] w by simp
    have "log_rel C sha view db' es" using rel by (simp add: log_rel_def log_fam_def db' v' put_nodes_other)
    moreover have "yields (ts_get_node R db' level idx) (expected_node sha (map le_leaf_hash es) level idx)" for level idx
      by (rule ts_get_node_yields [OF laws])
        (use dense nodes computed_nodes_lookup [where f = "view (db_rocks db)" and xs = "map le_leaf_hash es", OF _ _ empty]
          in \<open>simp add: db' v' dense_def\<close>)
    ultimately show ?thesis using r Inr by simp
  qed
qed


section \<open>Witnesses\<close>

theorem compute_nodes_correct_witness:
  "\<exists>nodes. (compute_nodes_from_leaves toy_sha [(0, arr_of [1]), (1, arr_of [2]), (2, arr_of [3])] ::
      (unit, tree_node list) result) = Inr nodes
    \<and> set nodes = {(of_nat l, of_nat i, MTH (node_hash toy_sha) (take (2 ^ l) (drop (i * 2 ^ l) [arr_of [1], arr_of [2], arr_of [3]])))
      | l i. l < 63 \<and> Suc i * 2 ^ l \<le> 3}"
  using compute_nodes_correct [of "[arr_of [1], arr_of [2], arr_of [3]]" toy_sha] by (simp add: upt_rec numeral_3_eq_3)


end
