(* ===== verification/Check_Cli.thy ===== *)
theory Check_Cli
  imports Server_Front
begin

text \<open>
  The command \<^verbatim>\<open>settled-check verify\<close> (\<^verbatim>\<open>settled-check/src/main.rs\<close>). What it prints is left out. The
  properties hold for any server (soundness) or for the server of the repository reached through the SDK
  client.
\<close>

section \<open>The command\<close>

datatype check_error = Context string client_error | Bail string

definition with_context :: "string \<Rightarrow> (client_error, 'a) result \<Rightarrow> (check_error, 'a) result" where
  "with_context msg r = map_err (Context msg) r"

definition or_bail :: "string \<Rightarrow> 'a option \<Rightarrow> (check_error, 'a) result" where
  "or_bail msg x = (case x of None \<Rightarrow> Inl (Err (Bail msg)) | Some a \<Rightarrow> Inr a)"

definition proof_path :: "bytes list \<Rightarrow> (check_error, hash list) result" where
  "proof_path hs = foldR (\<lambda>acc h. bindR (or_bail ''proof node must be 32 bytes'' (try_into h)) (\<lambda>x. Inr (acc @ [x]))) [] hs"

definition check_inclusion ::
  "'n stub \<Rightarrow> sha256 \<Rightarrow> settled_client \<Rightarrow> client_sth \<Rightarrow> hash \<Rightarrow> u64 \<Rightarrow> 'n \<Rightarrow> 'n \<times> (check_error, unit) result" where
  "check_inclusion S sha c sth root_arr seq_num n =
     (case client_inclusion_proof S c seq_num (cs_tree_size sth) n of (n, r) \<Rightarrow>
       (case bindR (with_context ''Failed to fetch inclusion proof'' r) (\<lambda>proof_res.
             bindR (proof_path (ipr_proof proof_res)) (\<lambda>nodes. Inr (proof_res, nodes))) of
          Inl e \<Rightarrow> (n, Inl e)
        | Inr (proof_res, nodes) \<Rightarrow>
          (case client_get S c seq_num n of (n, r) \<Rightarrow>
            (n, bindR (with_context ''Failed to fetch entry'' r) (\<lambda>entry.
              bindR (or_bail ''leaf_hash must be 32 bytes'' (try_into (ce_leaf_hash entry))) (\<lambda>leaf.
                if sdk_verify_inclusion sha leaf (ipr_leaf_index proof_res) (cs_tree_size sth) nodes root_arr then Inr ()
                else Inl (Err (Bail (''Inclusion proof verification FAILED for seq='' @ show_u64 seq_num)))))))))"

definition cmd_verify ::
  "(string \<Rightarrow> bool) \<Rightarrow> string option \<Rightarrow> (string \<Rightarrow> bytes option) \<Rightarrow> 'n stub \<Rightarrow> ed25519 \<Rightarrow> sha256 \<Rightarrow> string \<Rightarrow> u64 option \<Rightarrow> 'n \<Rightarrow>
   'n \<times> (check_error, unit) result" where
  "cmd_verify valid dialled mv S ed sha server seq n =
     (case with_context ''Failed to connect to Settled server'' (client_connect valid dialled mv server) of
        Inl e \<Rightarrow> (n, Inl e)
      | Inr c \<Rightarrow>
        (case client_get_sth S c 0 n of (n, r) \<Rightarrow>
          (case bindR (with_context ''Failed to fetch latest STH'' r) (\<lambda>sth.
               bindR (or_bail ''root_hash must be 32 bytes'' (try_into (cs_root_hash sth))) (\<lambda>root_arr. Inr (sth, root_arr))) of
             Inl e \<Rightarrow> (n, Inl e)
           | Inr (sth, root_arr) \<Rightarrow>
             if \<not> sdk_verify_tree_head ed (cs_tree_size sth) root_arr (cs_timestamp_ns sth) (cs_signature sth) (cs_public_key sth)
             then (n, Inl (Err (Bail ''STH signature verification FAILED'')))
             else (case seq of
               Some seq_num \<Rightarrow> check_inclusion S sha c sth root_arr seq_num n
             | None \<Rightarrow> (n, Inr ())))))"

datatype command = Verify string "u64 option"

definition check_main ::
  "(string \<Rightarrow> bool) \<Rightarrow> string option \<Rightarrow> (string \<Rightarrow> bytes option) \<Rightarrow> 'n stub \<Rightarrow> ed25519 \<Rightarrow> sha256 \<Rightarrow> command \<Rightarrow> 'n \<Rightarrow>
   'n \<times> (check_error, unit) result" where
  "check_main valid dialled mv S ed sha cmd n = (case cmd of Verify server seq \<Rightarrow> cmd_verify valid dialled mv S ed sha server seq n)"

section \<open>Lemmas\<close>

lemma proof_path_eq: "proof_path (map to_vec (nodes :: hash list)) = Inr nodes"
  using foldR_collect [of "map to_vec nodes" "\<lambda>h. or_bail ''proof node must be 32 bytes'' (try_into h)" "arr_of :: bytes \<Rightarrow> hash" "[]"]
  by (simp add: proof_path_def or_bail_def comp_def)

lemma proof_path_Inr:
  assumes "proof_path hs = Inr nodes"
  shows "hs = map to_vec nodes"
proof -
  have "\<exists>ps. xs = acc @ ps \<and> hs = map to_vec ps"
    if "foldR (\<lambda>acc h. bindR (or_bail ''proof node must be 32 bytes'' (try_into h)) (\<lambda>x. Inr (acc @ [x]))) acc hs =
      (Inr xs :: (check_error, hash list) result)" for acc xs
    using that
  proof (induction hs arbitrary: acc)
    case (Cons h hs)
    then obtain x :: hash where x: "try_into h = Some x" by (cases "try_into h :: hash option") (auto simp: or_bail_def)
    with Cons.prems have "foldR (\<lambda>acc h. bindR (or_bail ''proof node must be 32 bytes'' (try_into h)) (\<lambda>x. Inr (acc @ [x]))) (acc @ [x]) hs =
      (Inr xs :: (check_error, hash list) result)" by (simp add: or_bail_def)
    from Cons.IH [OF this] obtain ps where "xs = acc @ x # ps" "hs = map to_vec ps" by auto
    with x show ?case by (intro exI [of _ "x # ps"]) (simp add: try_into_Some_iff)
  qed simp
  from this [of "[]" nodes] assms show ?thesis by (simp add: proof_path_def)
qed

lemma or_bail_Inr [simp]: "or_bail msg x = Inr a \<longleftrightarrow> x = Some a"
  by (simp add: or_bail_def split: option.splits)

lemma with_context_simps [simp]:
  "with_context msg (Inr a) = Inr a" "with_context msg (Inl (Err e)) = Inl (Err (Context msg e))"
  "with_context msg r = Inr a \<longleftrightarrow> r = Inr a"
  by (simp_all add: with_context_def map_err_def split: sum.splits exn.splits)

lemma check_inclusion_ok:
  assumes "check_inclusion S sha c sth root_arr seq n = (n', Inr ())"
  obtains n1 pr nodes e leaf where "client_inclusion_proof S c seq (cs_tree_size sth) n = (n1, Inr pr)"
    and "ipr_proof pr = map to_vec nodes" and "client_get S c seq n1 = (n', Inr e)" and "ce_leaf_hash e = to_vec leaf"
    and "verify_inclusion sha leaf (ipr_leaf_index pr) (cs_tree_size sth) nodes root_arr"
proof -
  obtain n1 r where one: "client_inclusion_proof S c seq (cs_tree_size sth) n = (n1, r)" by fastforce
  with assms obtain pr nodes where pr: "r = Inr pr" and nodes: "proof_path (ipr_proof pr) = Inr nodes"
    by (auto simp: check_inclusion_def result_iffs split: sum.splits)
  obtain n2 g where g: "client_get S c seq n1 = (n2, g)" by fastforce
  from assms one pr nodes g have "n2 = n'" and "bindR (with_context ''Failed to fetch entry'' g) (\<lambda>entry.
      bindR (or_bail ''leaf_hash must be 32 bytes'' (try_into (ce_leaf_hash entry))) (\<lambda>leaf.
        if sdk_verify_inclusion sha leaf (ipr_leaf_index pr) (cs_tree_size sth) nodes root_arr then Inr ()
        else Inl (Err (Bail (''Inclusion proof verification FAILED for seq='' @ show_u64 seq))))) = Inr ()"
    by (simp_all add: check_inclusion_def)
  then obtain e leaf where "g = Inr e" "ce_leaf_hash e = to_vec leaf"
      "verify_inclusion sha leaf (ipr_leaf_index pr) (cs_tree_size sth) nodes root_arr"
    by (auto simp: result_iffs try_into_Some_iff split: if_splits)
  with one pr g \<open>n2 = n'\<close> proof_path_Inr [OF nodes] show ?thesis by (intro that) auto
qed

lemma cmd_verify_ok:
  assumes "cmd_verify valid dialled mv S ed sha server (Some seq) n = (n', Inr ())"
  obtains n1 sth root_arr where "client_get_sth S \<lparr>cl_auth_header = None\<rparr> 0 n = (n1, Inr sth)"
    and "cs_root_hash sth = to_vec root_arr"
    and "sdk_verify_tree_head ed (cs_tree_size sth) root_arr (cs_timestamp_ns sth) (cs_signature sth) (cs_public_key sth)"
    and "check_inclusion S sha \<lparr>cl_auth_header = None\<rparr> sth root_arr seq n1 = (n', Inr ())"
proof -
  obtain n1 r where one: "client_get_sth S \<lparr>cl_auth_header = None\<rparr> 0 n = (n1, r)" by fastforce
  have conn: "client_connect valid dialled mv server = Inr \<lparr>cl_auth_header = None\<rparr>"
    using assms by (auto simp: cmd_verify_def client_connect_def client_build_def split: if_splits option.splits)
  have "\<exists>sth root_arr. r = Inr sth \<and> cs_root_hash sth = to_vec (root_arr :: hash)"
    using assms one conn by (auto simp: cmd_verify_def result_iffs try_into_Some_iff split: sum.splits)
  then obtain sth root_arr where sth: "r = Inr sth" "cs_root_hash sth = to_vec (root_arr :: hash)" by blast
  with assms one conn show ?thesis
    by (intro that [of n1 sth root_arr]) (auto simp: cmd_verify_def or_bail_def split: if_splits)
qed

section \<open>Properties\<close>

text \<open>
  C22. What a successful \<^verbatim>\<open>settled-check verify --seq\<close> means, whatever the server does: the tree head it was
  given is signed by the key in that head, and the entry it was given is bound to the signed root: for
  every log with that root and size, the reported leaf hash is the leaf hash of the log at the reported
  leaf index, unless two of the hashed node inputs collide.
\<close>

theorem cmd_verify_sound:
  assumes "cmd_verify valid dialled mv S ed sha server (Some seq) n = (n', Inr ())"
  shows "\<exists>n1 n2 sth root_arr pr nodes e leaf.
    client_get_sth S \<lparr>cl_auth_header = None\<rparr> 0 n = (n1, Inr sth) \<and> cs_root_hash sth = to_vec root_arr
    \<and> sdk_verify_tree_head ed (cs_tree_size sth) root_arr (cs_timestamp_ns sth) (cs_signature sth) (cs_public_key sth)
    \<and> client_inclusion_proof S \<lparr>cl_auth_header = None\<rparr> seq (cs_tree_size sth) n1 = (n2, Inr pr)
    \<and> ipr_proof pr = map to_vec nodes
    \<and> client_get S \<lparr>cl_auth_header = None\<rparr> seq n2 = (n', Inr e) \<and> ce_leaf_hash e = to_vec leaf
    \<and> (\<forall>ds. length ds < 2 ^ 64 \<and> cs_tree_size sth = of_nat (length ds)
        \<and> (mth sha (map (leaf_hash sha) ds) :: (unit, hash option) result) = Inr (Some root_arr)
        \<and> inj_on sha (node_input ` (set (MTH_pairs (node_hash sha) (map (leaf_hash sha) ds))
            \<union> set (recon_pairs (node_hash sha) (length ds) (unat (ipr_leaf_index pr)) nodes leaf)))
      \<longrightarrow> unat (ipr_leaf_index pr) < length ds \<and> leaf = leaf_hash sha (ds ! unat (ipr_leaf_index pr)))"
proof -
  let ?c = "\<lparr>cl_auth_header = None\<rparr>"
  from cmd_verify_ok [OF assms] obtain n1 sth root_arr where sth: "client_get_sth S ?c 0 n = (n1, Inr sth)" "cs_root_hash sth = to_vec root_arr"
      "sdk_verify_tree_head ed (cs_tree_size sth) root_arr (cs_timestamp_ns sth) (cs_signature sth) (cs_public_key sth)"
    and check: "check_inclusion S sha ?c sth root_arr seq n1 = (n', Inr ())" by blast
  from check_inclusion_ok [OF check] obtain n2 pr nodes e leaf where
    inc: "client_inclusion_proof S ?c seq (cs_tree_size sth) n1 = (n2, Inr pr)" "ipr_proof pr = map to_vec nodes"
      "client_get S ?c seq n2 = (n', Inr e)" "ce_leaf_hash e = to_vec leaf"
    and acc: "verify_inclusion sha leaf (ipr_leaf_index pr) (cs_tree_size sth) nodes root_arr" by blast
  have "unat (ipr_leaf_index pr) < length ds \<and> leaf = leaf_hash sha (ds ! unat (ipr_leaf_index pr))"
    if len: "length ds < 2 ^ 64" and size: "cs_tree_size sth = of_nat (length ds)"
      and rt: "(mth sha (map (leaf_hash sha) ds) :: (unit, hash option) result) = Inr (Some root_arr)"
      and inj: "inj_on sha (node_input ` (set (MTH_pairs (node_hash sha) (map (leaf_hash sha) ds))
            \<union> set (recon_pairs (node_hash sha) (length ds) (unat (ipr_leaf_index pr)) nodes leaf)))" for ds
  proof -
    have un: "unat (of_nat (length ds) :: u64) = length ds" using len by (rule unat_of_nat_u64)
    from rt len have r: "root_arr = MTH (node_hash sha) (map (leaf_hash sha) ds)" by (simp add: mth_Some_iff)
    have "unat (ipr_leaf_index pr) < length ds" using acc un size by (simp add: core_incl.verify_law word_less_nat_alt)
    moreover have "leaf = map (leaf_hash sha) ds ! unat (ipr_leaf_index pr)"
      using core_incl.incl_sound [OF acc [unfolded r size]] un inj_on_node_hash [OF inj] by simp
    ultimately show ?thesis by simp
  qed
  with sth inc show ?thesis by blast
qed

lemma check_inclusion_answers:
  assumes one: "answers st (client_inclusion_proof S c seq (cs_tree_size sth) st) pr" and "ipr_proof pr = map to_vec nodes"
    and two: "answers st (client_get S c seq st) e" and "ce_leaf_hash e = to_vec leaf"
    and "sdk_verify_inclusion sha leaf (ipr_leaf_index pr) (cs_tree_size sth) nodes rt"
  shows "check_inclusion S sha c sth rt seq st = (st, Inr ())
    \<or> (\<exists>msg m. check_inclusion S sha c sth rt seq st = (st, Inl (Err (Context msg (Rpc (CodeInternal, ''RocksDB error: '' @ m))))))"
  using assms by (auto simp: answers_def check_inclusion_def proof_path_eq or_bail_def)

lemma cmd_verify_answers:
  assumes "valid server" and "answers st (client_get_sth S \<lparr>cl_auth_header = None\<rparr> 0 st) sth" and "cs_root_hash sth = to_vec rt"
    and "sdk_verify_tree_head ed (cs_tree_size sth) rt (cs_timestamp_ns sth) (cs_signature sth) (cs_public_key sth)"
  shows "cmd_verify valid None mv S ed sha server (Some seq) st = check_inclusion S sha \<lparr>cl_auth_header = None\<rparr> sth rt seq st
    \<or> (\<exists>msg m. cmd_verify valid None mv S ed sha server (Some seq) st =
        (st, Inl (Err (Context msg (Rpc (CodeInternal, ''RocksDB error: '' @ m))))))"
proof -
  have conn: "client_connect valid None mv server = Inr \<lparr>cl_auth_header = None\<rparr>"
    using assms(1) by (simp add: client_connect_def client_build_def)
  from assms(2) consider "client_get_sth S \<lparr>cl_auth_header = None\<rparr> 0 st = (st, Inr sth)"
    | m where "client_get_sth S \<lparr>cl_auth_header = None\<rparr> 0 st = (st, Inl (Err (Rpc (CodeInternal, ''RocksDB error: '' @ m))))"
    by (auto simp: answers_def)
  then show ?thesis by cases (use conn assms(3,4) in \<open>auto simp: cmd_verify_def or_bail_def\<close>)
qed

text \<open>
  C23. The command accepts the honest server: when the server of the repository runs without an API key,
  its state satisfies the invariant with a gap-free log, a tree head exists, the number is below its size and
  nothing else happens between the calls, the command succeeds, unless RocksDB reports an error. The state
  is unchanged.
\<close>

theorem cmd_verify_accepts_honest:
  assumes inv: "server_inv E view st es hs ks" and dense: "dense (st_db st) es" and open_server: "cfg_api_key (st_config st) = None"
    and heads: "hs \<noteq> []" and seq: "seq < sth_tree_size (last hs)" and conn: "valid server"
  shows "cmd_verify valid None mv (server_stub E crash now tick stream) (e_ed E) (e_sha E) server (Some seq) st = (st, Inr ())
    \<or> (\<exists>msg m. cmd_verify valid None mv (server_stub E crash now tick stream) (e_ed E) (e_sha E) server (Some seq) st =
        (st, Inl (Err (Context msg (Rpc (CodeInternal, ''RocksDB error: '' @ m))))))"
proof -
  let ?c = "\<lparr>cl_auth_header = None\<rparr>" and ?S = "server_stub E crash now tick stream" and ?s = "last hs"
  let ?sth = "from_pb_sth (sth_to_proto ?s)"
  have core: "core_inv E view st es hs" using inv by (simp add: server_inv_core)
  have pass: "interceptor (st_config st) (make_request ?c) = Inr ()" using open_server by (rule interceptor_open)
  have s: "?s \<in> set hs" using heads by simp
  have cs: "cs_tree_size ?sth = sth_tree_size ?s" "cs_root_hash ?sth = to_vec (sth_root_hash ?s)"
    by (simp_all add: from_pb_sth_def sth_to_proto_def)
  have sig: "sdk_verify_tree_head (e_ed E) (cs_tree_size ?sth) (sth_root_hash ?s) (cs_timestamp_ns ?sth) (cs_signature ?sth) (cs_public_key ?sth)"
    using served_head_checks [OF inv s] by (simp add: head_checks_def from_pb_sth_def)
  obtain p where inc: "served (rpc_inclusion_proof E seq (sth_tree_size ?s) st)
      (Inr \<lparr>ip_leaf_index = seq, ip_tree_size = sth_tree_size ?s, ip_proof = map to_vec p, ip_sth = sth_to_proto ?s\<rparr>)"
    and i: "unat seq < length es"
    and acc: "sdk_verify_inclusion (e_sha E) (leaf_hash (e_sha E) (le_data (es ! unat seq))) seq (sth_tree_size ?s) p (sth_root_hash ?s)"
    using inclusion_served [OF core dense_below [OF dense] s _ seq, of "sth_tree_size ?s"] by blast
  have check: "check_inclusion ?S (e_sha E) ?c ?sth (sth_root_hash ?s) seq st = (st, Inr ())
    \<or> (\<exists>msg m. check_inclusion ?S (e_sha E) ?c ?sth (sth_root_hash ?s) seq st =
        (st, Inl (Err (Context msg (Rpc (CodeInternal, ''RocksDB error: '' @ m))))))"
    by (rule check_inclusion_answers [OF inclusion_answers [OF inc pass, folded cs(1)] _ get_answers [OF dense_get [OF core dense i] pass]])
      (use acc stored_leaf [OF core i] in \<open>simp_all add: from_pb_entry_def entry_of_def cs\<close>)
  from cmd_verify_answers [where valid = valid, OF conn get_sth_answers [OF core heads pass] cs(2) sig, of mv crash now tick stream "e_sha E" seq] check
  show ?thesis by auto
qed

text \<open>
  The command sends no API key, so a server with one refuses it at the first call.
\<close>

theorem cmd_verify_refused:
  assumes "cfg_api_key (st_config st) = Some k" and "valid server"
  shows "cmd_verify valid None mv (server_stub E crash now tick stream) (e_ed E) (e_sha E) server seq st =
    (st, Inl (Err (Context ''Failed to fetch latest STH'' (Rpc (CodeUnauthenticated, ''missing or invalid api key'')))))"
  using assms by (simp add: cmd_verify_def client_connect_def client_build_def client_get_sth_def server_stub_def guarded_def
    interceptor_def make_request_def reply_def unauthenticated_def)

section \<open>Witnesses\<close>

theorem cmd_verify_accepts_honest_witness:
  "cmd_verify (\<lambda>_. True) None (\<lambda>_. None) toy_stub (e_ed mem_env) (e_sha mem_env) ''http'' (Some 0) signed_state = (signed_state, Inr ())
    \<or> (\<exists>msg m. cmd_verify (\<lambda>_. True) None (\<lambda>_. None) toy_stub (e_ed mem_env) (e_sha mem_env) ''http'' (Some 0) signed_state =
        (signed_state, Inl (Err (Context msg (Rpc (CodeInternal, ''RocksDB error: '' @ m))))))"
  unfolding toy_stub_def
  by (rule cmd_verify_accepts_honest [OF signed_state_inv sample_open(3)]) (simp_all add: sample_head_size)

theorem cmd_verify_refused_witness:
  "cmd_verify (\<lambda>_. True) None (\<lambda>_. None) toy_stub (e_ed mem_env) (e_sha mem_env) ''http'' (Some 0)
      (signed_state\<lparr>st_config := (st_config signed_state)\<lparr>cfg_api_key := Some ''k''\<rparr>\<rparr>) =
    (signed_state\<lparr>st_config := (st_config signed_state)\<lparr>cfg_api_key := Some ''k''\<rparr>\<rparr>,
     Inl (Err (Context ''Failed to fetch latest STH'' (Rpc (CodeUnauthenticated, ''missing or invalid api key'')))))"
  unfolding toy_stub_def by (rule cmd_verify_refused [where k = "''k''"]) simp_all

text \<open>A server with fixed answers: a log with the one entry \<open>[2]\<close>.\<close>

definition static_head :: signed_tree_head_proto where
  "static_head = \<lparr>sp_tree_size = 1, sp_root_hash = to_vec (leaf_hash toy_sha [2]), sp_timestamp_ns = 5,
     sp_signature = to_vec (ed_sign toy_ed (arr_of [7]) (to_vec (signing_payload 1 (leaf_hash toy_sha [2]) 5))),
     sp_public_key = to_vec (ed_public toy_ed (arr_of [7])), sp_key_version = 1\<rparr>"

definition static_stub :: "unit stub" where
  "static_stub = \<lparr>
     call_append = (\<lambda>_ _ n. (n, Inl no_crash)), call_batch_append = (\<lambda>_ _ n. (n, Inl no_crash)),
     call_get = (\<lambda>_ seq n. (n, Inr (Some \<lparr>en_seq = seq, en_timestamp_ns = 5, en_key = [1], en_data = [2],
       en_leaf_hash = to_vec (leaf_hash toy_sha [2])\<rparr>))),
     call_get_latest = (\<lambda>_ _ n. (n, Inl no_crash)),
     call_get_sth = (\<lambda>_ _ n. (n, Inr (Some static_head))),
     call_inclusion_proof = (\<lambda>_ (seq, k) n. (n, Inr \<lparr>pbi_leaf_index = seq, pbi_tree_size = 1, pbi_proof = [], pbi_sth = Some static_head\<rparr>)),
     call_watch = (\<lambda>_ _ n. (n, Inl no_crash)), call_list_entries = (\<lambda>_ _ n. (n, Inl no_crash)),
     call_get_by_key = (\<lambda>_ _ n. (n, Inl no_crash)), call_consistency_proof = (\<lambda>_ _ n. (n, Inl no_crash))\<rparr>"

theorem cmd_verify_sound_witness:
  "\<exists>sth root_arr pr leaf. client_get_sth static_stub \<lparr>cl_auth_header = None\<rparr> 0 () = ((), Inr sth) \<and> cs_root_hash sth = to_vec root_arr
    \<and> sdk_verify_tree_head toy_ed (cs_tree_size sth) root_arr (cs_timestamp_ns sth) (cs_signature sth) (cs_public_key sth)
    \<and> client_inclusion_proof static_stub \<lparr>cl_auth_header = None\<rparr> 0 (cs_tree_size sth) () = ((), Inr pr)
    \<and> (\<exists>e. client_get static_stub \<lparr>cl_auth_header = None\<rparr> 0 () = ((), Inr e) \<and> ce_leaf_hash e = to_vec (leaf :: hash))"
proof -
  have "cmd_verify (\<lambda>_. True) None (\<lambda>_. None) static_stub toy_ed toy_sha ''http'' (Some 0) () = ((), Inr ())" by code_simp
  from cmd_verify_sound [OF this] show ?thesis by (metis old.unit.exhaust)
qed

end
