(* ===== verification/Demo_Cli.thy ===== *)
theory Demo_Cli
  imports Server_Front
begin

text \<open>
  The demo program, \<^verbatim>\<open>demos/rust/src/main.rs\<close>: a client that appends entries, waits for a tree head, pages
  through the log and checks every proof. What a function prints is its result here (a verdict, rows of
  entries with a verdict), and the layout of the output is left out. A loop that waits is option-valued:
  \<open>expired i\<close> is the \<open>i\<close>-th comparison of the clock with the deadline and \<open>pause i\<close> is what happens to the
  server while the program sleeps. The paging loop occurs twice in the code, with two requests; it is the
  function \<open>drain\<close> of the request. The locale \<open>paged_reader\<close> is the contract of such a request, and both
  requests are interpretations.
\<close>

datatype demo_error = DemoClient client_error | DemoMsg string

definition lift_demo :: "(client_error, 'a) result \<Rightarrow> (demo_error, 'a) result" where
  "lift_demo r = map_err DemoClient r"

section \<open>Helpers\<close>

definition to32 :: "bytes \<Rightarrow> ('e, hash) result" where
  "to32 b = unwrap (try_into b)"

definition proof32 :: "bytes list \<Rightarrow> ('e, hash list) result" where
  "proof32 p = foldR (\<lambda>acc b. bindR (to32 b) (\<lambda>h. Inr (acc @ [h]))) [] p"

partial_function (option) wait_for_sth ::
  "'n stub \<Rightarrow> settled_client \<Rightarrow> u64 \<Rightarrow> (nat \<Rightarrow> bool) \<Rightarrow> (nat \<Rightarrow> 'n \<Rightarrow> 'n) \<Rightarrow> nat \<Rightarrow> 'n \<Rightarrow>
   ('n \<times> (demo_error, client_sth) result) option" where
  "wait_for_sth S c min_size expired pause i n =
     (case client_get_sth S c 0 n of (n, r) \<Rightarrow>
       (case (case r of Inr sth \<Rightarrow> if min_size \<le> cs_tree_size sth then Some sth else None | Inl _ \<Rightarrow> None) of
          Some sth \<Rightarrow> Some (n, Inr sth)
        | None \<Rightarrow>
          if expired i then
            Some (n, Inl (Err (DemoMsg (''no STH covering '' @ show_u64 min_size @ '' entries within 10s''))))
          else wait_for_sth S c min_size expired pause (Suc i) (pause i n)))"

text \<open>A head and the verdict on its signature.\<close>

definition head_verdict :: "ed25519 \<Rightarrow> client_sth \<Rightarrow> (demo_error, client_sth \<times> bool) result" where
  "head_verdict ed sth =
     bindR (to32 (cs_root_hash sth)) (\<lambda>rt.
       Inr (sth, sdk_verify_tree_head ed (cs_tree_size sth) rt (cs_timestamp_ns sth) (cs_signature sth) (cs_public_key sth)))"

definition check_sth ::
  "'n stub \<Rightarrow> ed25519 \<Rightarrow> settled_client \<Rightarrow> u64 \<Rightarrow> (nat \<Rightarrow> bool) \<Rightarrow> (nat \<Rightarrow> 'n \<Rightarrow> 'n) \<Rightarrow> 'n \<Rightarrow>
   ('n \<times> (demo_error, client_sth \<times> bool) result) option" where
  "check_sth S ed c min_size expired pause n =
     map_option (\<lambda>(n, r). (n, bindR r (head_verdict ed))) (wait_for_sth S c min_size expired pause 0 n)"

text \<open>Fetch the proof for one entry and check it; the size is the one the proof response reports.\<close>

definition check_entry ::
  "'n stub \<Rightarrow> sha256 \<Rightarrow> settled_client \<Rightarrow> client_sth \<Rightarrow> u64 \<Rightarrow> bytes \<Rightarrow> 'n \<Rightarrow> 'n \<times> (demo_error, bool) result" where
  "check_entry S sha c sth seq lh n =
     (case client_inclusion_proof S c seq (cs_tree_size sth) n of (n, r) \<Rightarrow>
       (n, bindR (lift_demo r) (\<lambda>p.
         bindR (to32 lh) (\<lambda>leaf.
         bindR (proof32 (ipr_proof p)) (\<lambda>nodes.
         bindR (to32 (cs_root_hash sth)) (\<lambda>rt.
           Inr (sdk_verify_inclusion sha leaf (ipr_leaf_index p) (ipr_tree_size p) nodes rt)))))))"

fun check_inclusions ::
  "'n stub \<Rightarrow> sha256 \<Rightarrow> settled_client \<Rightarrow> client_sth \<Rightarrow> client_entry list \<Rightarrow> (u64 \<rightharpoonup> bool) \<Rightarrow> 'n \<Rightarrow>
   'n \<times> (demo_error, u64 \<rightharpoonup> bool) result" where
  "check_inclusions S sha c sth [] results n = (n, Inr results)"
| "check_inclusions S sha c sth (e # entries) results n =
     (case check_entry S sha c sth (ce_seq e) (ce_leaf_hash e) n of
        (n, Inl x) \<Rightarrow> (n, Inl x)
      | (n, Inr ok) \<Rightarrow> check_inclusions S sha c sth entries (results(ce_seq e \<mapsto> ok)) n)"

text \<open>
  \<open>None\<close> as a verdict: nothing to prove. The whole is option-valued because the consistency check of the
  SDK may not return.
\<close>

definition check_consistency ::
  "'n stub \<Rightarrow> sha256 \<Rightarrow> settled_client \<Rightarrow> client_sth \<Rightarrow> client_sth \<Rightarrow> 'n \<Rightarrow> ('n \<times> (demo_error, bool option) result) option" where
  "check_consistency S sha c older newer n =
     (if cs_tree_size older = cs_tree_size newer then Some (n, Inr None)
      else (case client_consistency_proof S c (cs_tree_size older) (cs_tree_size newer) n of (n, r) \<Rightarrow>
        (case bindR (lift_demo r) (\<lambda>cp.
             bindR (proof32 (cpr_proof cp)) (\<lambda>nodes.
             bindR (to32 (cs_root_hash older)) (\<lambda>old_rt.
             bindR (to32 (cs_root_hash newer)) (\<lambda>new_rt. Inr (cp, nodes, old_rt, new_rt))))) of
           Inl e \<Rightarrow> Some (n, Inl e)
         | Inr (cp, nodes, old_rt, new_rt) \<Rightarrow>
             map_option (\<lambda>ok. (n, Inr (Some ok)))
               (sdk_verify_consistency sha (cpr_old_size cp) (cpr_new_size cp) nodes old_rt new_rt))))"

section \<open>Modes\<close>

text \<open>The paging loop: ask for the page at the cursor until the server says there is no further one.\<close>

partial_function (option) drain ::
  "(u64 \<Rightarrow> 'n \<Rightarrow> 'n \<times> (client_error, page_result) result) \<Rightarrow> u64 \<Rightarrow> client_entry list \<Rightarrow> 'n \<Rightarrow>
   ('n \<times> (demo_error, client_entry list) result) option" where
  "drain fetch cursor entries n =
     (case fetch cursor n of (n, r) \<Rightarrow>
       (case lift_demo r of
          Inl e \<Rightarrow> Some (n, Inl e)
        | Inr page \<Rightarrow>
          (let entries = entries @ pg_entries page in
           if pg_next_cursor page = 0 then Some (n, Inr entries)
           else drain fetch (pg_next_cursor page) entries n)))"

definition list_page ::
  "'n stub \<Rightarrow> settled_client \<Rightarrow> u64 \<Rightarrow> u64 \<Rightarrow> 'n \<Rightarrow> 'n \<times> (client_error, page_result) result" where
  "list_page S c to_seq cursor n = client_list_entries S c 0 to_seq cursor 0 n"

definition key_page ::
  "'n stub \<Rightarrow> settled_client \<Rightarrow> bytes \<Rightarrow> u64 \<Rightarrow> 'n \<Rightarrow> 'n \<times> (client_error, page_result) result" where
  "key_page S c key cursor n = client_get_by_key S c key cursor 0 n"

definition mode_get_by_key ::
  "'n stub \<Rightarrow> settled_client \<Rightarrow> string \<Rightarrow> 'n \<Rightarrow> ('n \<times> (demo_error, client_entry list) result) option" where
  "mode_get_by_key S c key n = drain (key_page S c (string_bytes key)) 0 [] n"

definition mode_append ::
  "'n stub \<Rightarrow> settled_client \<Rightarrow> string \<Rightarrow> string \<Rightarrow> 'n \<Rightarrow> 'n \<times> (demo_error, append_result) result" where
  "mode_append S c key data n =
     (case client_append S c (string_bytes key) (string_bytes data) n of (n, r) \<Rightarrow> (n, lift_demo r))"

definition demo_entries :: "(string \<times> string) list" where
  "demo_entries = [(''user:alice'', ''login''), (''order:1001'', ''created''), (''order:1001'', ''payment_received''),
     (''order:1001'', ''shipped''), (''user:bob'', ''login''), (''order:1002'', ''created'')]"

fun append_entries ::
  "'n stub \<Rightarrow> settled_client \<Rightarrow> (string \<times> string) list \<Rightarrow> 'n \<Rightarrow> 'n \<times> (demo_error, unit) result" where
  "append_entries S c [] n = (n, Inr ())"
| "append_entries S c ((key, data) # kvs) n =
     (case mode_append S c key data n of
        (n, Inl e) \<Rightarrow> (n, Inl e)
      | (n, Inr _) \<Rightarrow> append_entries S c kvs n)"

text \<open>A row of the table: an entry and, when proofs are checked, the verdict on its proof.\<close>

type_synonym row = "client_entry \<times> bool option"

definition print_table :: "client_entry list \<Rightarrow> (u64 \<rightharpoonup> bool) option \<Rightarrow> row list" where
  "print_table entries verified = map (\<lambda>e. (e, map_option (\<lambda>v. unwrap_or False (v (ce_seq e))) verified)) entries"

text \<open>What the default mode shows: the table, and the verdicts on head and consistency.\<close>

record demo_report =
  dr_rows :: "row list"
  dr_head_ok :: "bool option"
  dr_consistent :: "bool option"

text \<open>Sequencing of steps that thread the state, may fail and may not return.\<close>

definition and_then ::
  "('n \<times> ('e, 'a) result) option \<Rightarrow> ('n \<Rightarrow> 'a \<Rightarrow> ('n \<times> ('e, 'b) result) option) \<Rightarrow> ('n \<times> ('e, 'b) result) option" where
  "and_then x f = (case x of None \<Rightarrow> None | Some (n, r) \<Rightarrow> (case r of Inl e \<Rightarrow> Some (n, Inl e) | Inr a \<Rightarrow> f n a))"

lemma and_then_simps [simp]:
  "and_then None f = None" "and_then (Some (n, Inl e)) f = Some (n, Inl e)" "and_then (Some (n, Inr a)) f = f n a"
  by (simp_all add: and_then_def)

type_synonym 'n waits = "(nat \<Rightarrow> bool) \<times> (nat \<Rightarrow> 'n \<Rightarrow> 'n)"

definition verify_all ::
  "'n stub \<Rightarrow> ed25519 \<Rightarrow> sha256 \<Rightarrow> settled_client \<Rightarrow> 'n waits \<Rightarrow> client_sth option \<Rightarrow> u64 \<Rightarrow> client_entry list \<Rightarrow> 'n \<Rightarrow>
   ('n \<times> (demo_error, demo_report) result) option" where
  "verify_all S ed sha c w old_sth tree_size entries n =
     and_then (check_sth S ed c tree_size (fst w) (snd w) n) (\<lambda>n (sth, head_ok).
     and_then (Some (check_inclusions S sha c sth entries Map.empty n)) (\<lambda>n v.
     and_then (case old_sth of Some old \<Rightarrow> check_consistency S sha c old sth n | None \<Rightarrow> Some (n, Inr None)) (\<lambda>n cons.
       Some (n, Inr \<lparr>dr_rows = print_table entries (Some v), dr_head_ok = Some head_ok, dr_consistent = cons\<rparr>))))"

definition take_snapshot :: "'n stub \<Rightarrow> settled_client \<Rightarrow> bool \<Rightarrow> 'n \<Rightarrow> 'n \<times> client_sth option" where
  "take_snapshot S c do_consistency n =
     (if do_consistency then (case client_get_sth S c 0 n of (n, r) \<Rightarrow> (n, case r of Inr s \<Rightarrow> Some s | Inl _ \<Rightarrow> None))
      else (n, None))"

text \<open>The second half of the default mode; without a head the log counts as empty and there is no report.\<close>

definition show_log ::
  "'n stub \<Rightarrow> ed25519 \<Rightarrow> sha256 \<Rightarrow> settled_client \<Rightarrow> bool \<Rightarrow> client_sth option \<Rightarrow> 'n waits \<Rightarrow> 'n waits \<Rightarrow> 'n \<Rightarrow>
   ('n \<times> (demo_error, demo_report option) result) option" where
  "show_log S ed sha c do_verify old_sth w1 w2 n =
     (case wait_for_sth S c 1 (fst w1) (snd w1) 0 n of
        None \<Rightarrow> None
      | Some (n, Inl (Panic p)) \<Rightarrow> Some (n, Inl (Panic p))
      | Some (n, Inl (Err _)) \<Rightarrow> Some (n, Inr None)
      | Some (n, Inr sth) \<Rightarrow>
        and_then (drain (list_page S c (cs_tree_size sth)) 0 [] n) (\<lambda>n entries.
        and_then (if do_verify then verify_all S ed sha c w2 old_sth (cs_tree_size sth) entries n
          else Some (n, Inr \<lparr>dr_rows = print_table entries None, dr_head_ok = None, dr_consistent = None\<rparr>))
          (\<lambda>n report. Some (n, Inr (Some report)))))"

definition mode_default ::
  "'n stub \<Rightarrow> ed25519 \<Rightarrow> sha256 \<Rightarrow> settled_client \<Rightarrow> bool \<Rightarrow> bool \<Rightarrow> bool \<Rightarrow> 'n waits \<Rightarrow> 'n waits \<Rightarrow> 'n \<Rightarrow>
   ('n \<times> (demo_error, demo_report option) result) option" where
  "mode_default S ed sha c do_verify do_consistency skip_append w1 w2 n =
     (case take_snapshot S c do_consistency n of (n, old_sth) \<Rightarrow>
        and_then (Some (if skip_append then (n, Inr ()) else append_entries S c demo_entries n))
          (\<lambda>n _. show_log S ed sha c do_verify old_sth w1 w2 n))"

definition mode_get ::
  "'n stub \<Rightarrow> ed25519 \<Rightarrow> sha256 \<Rightarrow> settled_client \<Rightarrow> u64 \<Rightarrow> bool \<Rightarrow> 'n waits \<Rightarrow> 'n \<Rightarrow> ('n \<times> (demo_error, row) result) option" where
  "mode_get S ed sha c seq do_verify w n =
     and_then (Some (case client_get S c seq n of (n, r) \<Rightarrow> (n, lift_demo r))) (\<lambda>n e.
       if do_verify then
         and_then (check_sth S ed c (seq + 1) (fst w) (snd w) n) (\<lambda>n (sth, _).
         and_then (Some (check_entry S sha c sth seq (ce_leaf_hash e) n)) (\<lambda>n ok. Some (n, Inr (e, Some ok))))
       else Some (n, Inr (e, None)))"

text \<open>
  The polling mode. A round fetches the entries up to the size of the latest head; an entry that cannot
  be fetched is passed over, and so is a proof. The rounds end when the user stops the program.
\<close>

definition watch_entry ::
  "'n stub \<Rightarrow> sha256 \<Rightarrow> settled_client \<Rightarrow> bool \<Rightarrow> client_sth \<Rightarrow> u64 \<Rightarrow> 'n \<Rightarrow> 'n \<times> (demo_error, row list) result" where
  "watch_entry S sha c do_verify sth seq n =
     (case client_get S c seq n of
        (n, Inl _) \<Rightarrow> (n, Inr [])
      | (n, Inr e) \<Rightarrow>
        if do_verify then
          (case check_entry S sha c sth seq (ce_leaf_hash e) n of
             (n, Inr ok) \<Rightarrow> (n, Inr [(e, Some ok)])
           | (n, Inl (Err _)) \<Rightarrow> (n, Inr [(e, None)])
           | (n, Inl (Panic p)) \<Rightarrow> (n, Inl (Panic p)))
        else (n, Inr [(e, None)]))"

lemma u64_below_size:
  assumes "seq < (m :: u64)"
  shows "unat (seq + 1) = Suc (unat seq)" and "unat m - unat (seq + 1) < unat m - unat seq"
proof -
  have "unat seq + 1 < 2 ^ 64" using assms unat_lt2p [of m] by (simp add: word_less_nat_alt)
  then show "unat (seq + 1) = Suc (unat seq)" by (simp add: unat_word_ariths)
  with assms show "unat m - unat (seq + 1) < unat m - unat seq" by (simp add: word_less_nat_alt)
qed

function catch_up ::
  "'n stub \<Rightarrow> sha256 \<Rightarrow> settled_client \<Rightarrow> bool \<Rightarrow> client_sth \<Rightarrow> u64 \<Rightarrow> row list \<Rightarrow> 'n \<Rightarrow>
   'n \<times> (demo_error, row list \<times> u64) result" where
  "catch_up S sha c do_verify sth seq rows n =
     (if seq < cs_tree_size sth then
        (case watch_entry S sha c do_verify sth seq n of
           (n, Inl e) \<Rightarrow> (n, Inl e)
         | (n, Inr new) \<Rightarrow> catch_up S sha c do_verify sth (seq + 1) (rows @ new) n)
      else (n, Inr (rows, seq)))"
  by pat_completeness auto
termination
  by (relation "measure (\<lambda>(S, sha, c, v, sth, seq, rows, n). unat (cs_tree_size sth) - unat seq)") (auto intro: u64_below_size(2))

declare catch_up.simps [simp del]

fun watch_rounds ::
  "'n stub \<Rightarrow> sha256 \<Rightarrow> settled_client \<Rightarrow> bool \<Rightarrow> 'n waits list \<Rightarrow> u64 \<Rightarrow> row list \<Rightarrow> 'n \<Rightarrow>
   ('n \<times> (demo_error, row list) result) option" where
  "watch_rounds S sha c do_verify [] seq rows n = Some (n, Inr rows)"
| "watch_rounds S sha c do_verify (w # ws) seq rows n =
     (case wait_for_sth S c 1 (fst w) (snd w) 0 n of
        None \<Rightarrow> None
      | Some (n, Inl (Panic p)) \<Rightarrow> Some (n, Inl (Panic p))
      | Some (n, Inl (Err _)) \<Rightarrow> watch_rounds S sha c do_verify ws seq rows n
      | Some (n, Inr sth) \<Rightarrow>
        (case catch_up S sha c do_verify sth seq rows n of
           (n, Inl e) \<Rightarrow> Some (n, Inl e)
         | (n, Inr (rows, seq)) \<Rightarrow> watch_rounds S sha c do_verify ws seq rows n))"

definition mode_watch ::
  "'n stub \<Rightarrow> sha256 \<Rightarrow> settled_client \<Rightarrow> bool \<Rightarrow> 'n waits \<Rightarrow> 'n waits list \<Rightarrow> 'n \<Rightarrow> ('n \<times> (demo_error, row list) result) option" where
  "mode_watch S sha c do_verify w ws n =
     (case wait_for_sth S c 1 (fst w) (snd w) 0 n of
        None \<Rightarrow> None
      | Some (n, Inl (Panic p)) \<Rightarrow> Some (n, Inl (Panic p))
      | Some (n, Inl (Err _)) \<Rightarrow> watch_rounds S sha c do_verify ws 0 [] n
      | Some (n, Inr sth) \<Rightarrow> watch_rounds S sha c do_verify ws (cs_tree_size sth) [] n)"

section \<open>Entry point\<close>

text \<open>The arguments, without the polling interval: how long a round sleeps is part of its \<open>waits\<close>.\<close>

record demo_args =
  da_host :: string
  da_skip_append :: bool
  da_verify :: bool
  da_consistency :: bool
  da_get :: "u64 option"
  da_watch :: bool
  da_append :: "string list option"
  da_key :: "string option"

text \<open>What a mode prints. The error of the whole program is its exit code.\<close>

datatype demo_output = Watched "row list" | Got row | Appended append_result | KeyEntries "client_entry list" | Report "demo_report option"

definition demo_mode ::
  "'n stub \<Rightarrow> ed25519 \<Rightarrow> sha256 \<Rightarrow> settled_client \<Rightarrow> demo_args \<Rightarrow> 'n waits \<Rightarrow> 'n waits \<Rightarrow> 'n waits list \<Rightarrow> 'n \<Rightarrow>
   ('n \<times> (demo_error, demo_output) result) option" where
  "demo_mode S ed sha c args w1 w2 ws n =
     (if da_watch args then and_then (mode_watch S sha c (da_verify args) w1 ws n) (\<lambda>n x. Some (n, Inr (Watched x)))
      else case da_get args of
        Some seq \<Rightarrow> and_then (mode_get S ed sha c seq (da_verify args) w1 n) (\<lambda>n x. Some (n, Inr (Got x)))
      | None \<Rightarrow> (case da_append args of
          Some kv \<Rightarrow> and_then (Some (n, index kv 0)) (\<lambda>n key. and_then (Some (n, index kv 1)) (\<lambda>n data.
            and_then (Some (mode_append S c key data n)) (\<lambda>n x. Some (n, Inr (Appended x)))))
        | None \<Rightarrow> (case da_key args of
            Some key \<Rightarrow> and_then (mode_get_by_key S c key n) (\<lambda>n x. Some (n, Inr (KeyEntries x)))
          | None \<Rightarrow> and_then (mode_default S ed sha c (da_verify args) (da_consistency args) (da_skip_append args) w1 w2 n)
              (\<lambda>n x. Some (n, Inr (Report x))))))"

definition demo_main ::
  "(string \<Rightarrow> bool) \<Rightarrow> string option \<Rightarrow> (string \<Rightarrow> bytes option) \<Rightarrow> 'n stub \<Rightarrow> ed25519 \<Rightarrow> sha256 \<Rightarrow> demo_args \<Rightarrow>
   'n waits \<Rightarrow> 'n waits \<Rightarrow> 'n waits list \<Rightarrow> 'n \<Rightarrow> ('n \<times> (nat, demo_output) result) option" where
  "demo_main valid dialled mv S ed sha args w1 w2 ws n =
     (case client_connect valid dialled mv (da_host args) of
        Inl (Panic p) \<Rightarrow> Some (n, Inl (Panic p))
      | Inl (Err _) \<Rightarrow> Some (n, Inl (Err (1)))
      | Inr c \<Rightarrow> map_option (\<lambda>(n, r). (n, map_err (\<lambda>_. 1) r)) (demo_mode S ed sha c args w1 w2 ws n))"

section \<open>The paging loop is complete\<close>

abbreviation shown :: "log_entry list \<Rightarrow> client_entry list" where
  "shown es \<equiv> map (\<lambda>e. from_pb_entry (entry_of e)) es"

definition rocks_failure :: "('n \<times> (demo_error, 'a) result) option \<Rightarrow> 'n \<Rightarrow> bool" where
  "rocks_failure x st \<longleftrightarrow> (\<exists>m. x = Some (st, Inl (Err (DemoClient (Rpc (CodeInternal, ''RocksDB error: '' @ m))))))"

text \<open>
  The contract of a paged request: in a state that stands for the log \<open>es\<close>, the page at a cursor is the
  first \<open>limit\<close> of the selected entries from the cursor on, with the cursor of the next page.
\<close>

locale paged_reader =
  fixes fetch :: "u64 \<Rightarrow> 'n \<Rightarrow> 'n \<times> (client_error, page_result) result"
    and stands_for :: "'n \<Rightarrow> log_entry list \<Rightarrow> bool"
    and selected :: "log_entry \<Rightarrow> bool" and bound :: u64 and limit :: nat
  assumes limit_pos: "0 < limit"
    and log_sorted: "stands_for st es \<Longrightarrow> sorted_wrt (\<lambda>a b. le_seq a < le_seq b) es"
    and page_law: "stands_for st es \<Longrightarrow>
      xs = filter (\<lambda>e. cursor \<le> le_seq e \<and> (bound = 0 \<or> le_seq e < bound) \<and> selected e) es \<Longrightarrow>
      answers st (fetch cursor st) \<lparr>pg_entries = shown (take limit xs), pg_next_cursor = page_cursor bound limit xs\<rparr>"
begin

lemma drain_complete:
  assumes st: "stands_for st es"
  shows "drain fetch cursor acc st = Some (st, Inr (acc @
      shown (filter (\<lambda>e. cursor \<le> le_seq e \<and> (bound = 0 \<or> le_seq e < bound) \<and> selected e) es)))
    \<or> rocks_failure (drain fetch cursor acc st) st"
proof (induction "2 ^ 64 - unat cursor" arbitrary: cursor acc rule: less_induct)
  case less
  let ?sel = "\<lambda>c. filter (\<lambda>e. c \<le> le_seq e \<and> (bound = 0 \<or> le_seq e < bound) \<and> selected e) es"
  let ?xs = "?sel cursor" and ?c = "page_cursor bound limit (?sel cursor)"
  from page_law [OF st refl] consider m where "fetch cursor st = (st, Inl (Err (Rpc (CodeInternal, ''RocksDB error: '' @ m))))"
    | "fetch cursor st = (st, Inr \<lparr>pg_entries = shown (take limit ?xs), pg_next_cursor = ?c\<rparr>)"
    by (auto simp: answers_def)
  then show ?case
  proof cases
    case 1
    then show ?thesis by (subst (2) drain.simps) (simp add: rocks_failure_def lift_demo_def)
  next
    case 2
    then have step: "drain fetch cursor acc st =
        (if ?c = 0 then Some (st, Inr (acc @ shown (take limit ?xs))) else drain fetch ?c (acc @ shown (take limit ?xs)) st)"
      by (subst drain.simps) (simp add: lift_demo_def Let_def)
    have rest: "drop limit ?xs = (if ?c = 0 then [] else ?sel ?c)"
      by (rule page_cursor_complete [OF log_sorted [OF st] refl limit_pos])
    have split: "shown ?xs = shown (take limit ?xs) @ shown (drop limit ?xs)" by (simp flip: map_append)
    show ?thesis
    proof (cases "?c = 0")
      case True
      with step rest split show ?thesis by simp
    next
      case False
      have "cursor < ?c" by (rule page_cursor_grows [OF _ limit_pos False]) auto
      then have "2 ^ 64 - unat ?c < 2 ^ 64 - unat cursor"
        using unat_lt2p [of cursor] by (simp add: word_less_nat_alt diff_less_mono2)
      from less [OF this, of "acc @ shown (take limit ?xs)"] show ?thesis
        unfolding step using False rest split by simp
    qed
  qed
qed

end

section \<open>The two requests of the demo\<close>

definition open_log :: "'d env \<Rightarrow> ('d \<Rightarrow> families) \<Rightarrow> settled_client \<Rightarrow> 'd app_state \<Rightarrow> log_entry list \<Rightarrow> bool" where
  "open_log E view c st es \<longleftrightarrow> (\<exists>hs. core_inv E view st es hs) \<and> interceptor (st_config st) (make_request c) = Inr ()"

lemma open_logD:
  assumes "open_log E view c st es"
  shows "rocks_laws (e_rocks E) view" "codec_laws (e_codec E)" "log_rel (e_codec E) (e_sha E) view (st_db st) es"
    "interceptor (st_config st) (make_request c) = Inr ()"
  using assms by (auto simp: open_log_def dest: core_invD(1,2,4))

lemma open_log_sorted: "open_log E view c st es \<Longrightarrow> sorted_wrt (\<lambda>a b. le_seq a < le_seq b) es"
  by (rule log_rel_sorted [OF open_logD(3)])

lemma list_page_answers:
  assumes st: "open_log E view c st es"
    and xs: "xs = filter (\<lambda>e. cursor \<le> le_seq e \<and> (to_seq = 0 \<or> le_seq e < to_seq)) es"
  shows "answers st (list_page (server_stub E crash now tick stream) c to_seq cursor st)
      \<lparr>pg_entries = shown (take 50 xs), pg_next_cursor = page_cursor to_seq 50 xs\<rparr>"
  unfolding list_page_def
  by (rule list_entries_answers [OF ls_seq_range_paged_yields [OF open_logD(1-3) [OF st]] open_logD(4) [OF st]]) (simp_all add: xs)

lemma key_page_answers:
  assumes st: "open_log E view c st es" and "key \<noteq> []"
    and xs: "xs = filter (\<lambda>e. cursor \<le> le_seq e \<and> le_key e = key) es"
  shows "answers st (key_page (server_stub E crash now tick stream) c key cursor st)
      \<lparr>pg_entries = shown (take 50 xs), pg_next_cursor = page_cursor 0 50 xs\<rparr>"
  unfolding key_page_def
  by (rule get_by_key_answers [OF ls_entries_by_key_yields [OF open_logD(1-3) [OF st]] _ open_logD(4) [OF st]])
    (simp_all add: xs \<open>key \<noteq> []\<close>)

interpretation listing: paged_reader "list_page (server_stub E crash now tick stream) c to_seq"
  "open_log E view c" "\<lambda>_. True" to_seq 50
  by unfold_locales (simp_all add: open_log_sorted list_page_answers)

interpretation history: paged_reader "key_page (server_stub E crash now tick stream) c (b # key)"
  "open_log E view c" "\<lambda>e. le_key e = b # key" 0 50
  by unfold_locales (simp_all add: open_log_sorted key_page_answers)

section \<open>The checks against the server of the repository\<close>

lemma wait_for_sth_now:
  assumes "client_get_sth S c 0 n = (n', Inr sth)" and "min_size \<le> cs_tree_size sth"
  shows "wait_for_sth S c min_size expired pause i n = Some (n', Inr sth)"
  using assms by (subst wait_for_sth.simps) simp

lemma lift_demo_simps [simp]: "lift_demo (Inr a) = Inr a" "lift_demo (Inl (Err e)) = Inl (Err (DemoClient e))"
  by (simp_all add: lift_demo_def)

lemma to32_to_vec [simp]: "to32 (to_vec h) = Inr h"
  by (simp add: to32_def unwrap_def)

lemma proof32_to_vec [simp]: "proof32 (map to_vec nodes) = (Inr nodes :: ('e, hash list) result)"
  using foldR_collect [of "map to_vec nodes" "to32 :: _ \<Rightarrow> ('e, hash) result" arr_of "[]"] by (simp add: proof32_def comp_def)

definition client_head :: "signed_tree_head \<Rightarrow> client_sth" where
  "client_head s = from_pb_sth (sth_to_proto s)"

lemma client_head_simps [simp]:
  "cs_tree_size (client_head s) = sth_tree_size s" "cs_root_hash (client_head s) = to_vec (sth_root_hash s)"
  by (simp_all add: client_head_def from_pb_sth_def sth_to_proto_def)

lemma head_verdict_honest:
  assumes "server_inv E view st es hs ks" and "s \<in> set hs"
  shows "head_verdict (e_ed E) (client_head s) = Inr (client_head s, True)"
  using served_head_checks [OF assms] by (simp add: head_verdict_def head_checks_def client_head_def from_pb_sth_def sth_to_proto_def)

lemma check_entry_honest:
  assumes core: "core_inv E view st es hs" and dense: "dense (st_db st) es" and s: "s \<in> set hs"
    and seq: "seq < sth_tree_size s" and pass: "interceptor (st_config st) (make_request c) = Inr ()"
  shows "check_entry (server_stub E crash now tick stream) (e_sha E) c (client_head s) seq (to_vec (le_leaf_hash (es ! unat seq))) st = (st, Inr True)
    \<or> rocks_failure (Some (check_entry (server_stub E crash now tick stream) (e_sha E) c (client_head s) seq
        (to_vec (le_leaf_hash (es ! unat seq))) st)) st"
proof -
  obtain p where inc: "served (rpc_inclusion_proof E seq (sth_tree_size s) st)
      (Inr \<lparr>ip_leaf_index = seq, ip_tree_size = sth_tree_size s, ip_proof = map to_vec p, ip_sth = sth_to_proto s\<rparr>)"
    and i: "unat seq < length es"
    and acc: "sdk_verify_inclusion (e_sha E) (leaf_hash (e_sha E) (le_data (es ! unat seq))) seq (sth_tree_size s) p (sth_root_hash s)"
    using inclusion_served [OF core dense_below [OF dense] s _ seq, of "sth_tree_size s"] by blast
  from inclusion_answers [OF inc pass, of crash now tick stream] acc stored_leaf [OF core i] show ?thesis
    by (auto simp: answers_def check_entry_def rocks_failure_def)
qed

lemma check_inclusions_all:
  assumes "\<forall>e \<in> set entries. check_entry S sha c sth (ce_seq e) (ce_leaf_hash e) st = (st, Inr True)
      \<or> rocks_failure (Some (check_entry S sha c sth (ce_seq e) (ce_leaf_hash e) st)) st"
  shows "(\<exists>v. check_inclusions S sha c sth entries results st = (st, Inr v) \<and> (\<forall>e \<in> set entries. v (ce_seq e) = Some True)
      \<and> (\<forall>k. results k = Some True \<longrightarrow> v k = Some True))
    \<or> rocks_failure (Some (check_inclusions S sha c sth entries results st)) st"
  using assms
proof (induction entries arbitrary: results)
  case (Cons e entries)
  from Cons.prems consider "check_entry S sha c sth (ce_seq e) (ce_leaf_hash e) st = (st, Inr True)"
    | "rocks_failure (Some (check_entry S sha c sth (ce_seq e) (ce_leaf_hash e) st)) st" by auto
  then show ?case
  proof cases
    case 1
    let ?v = "results(ce_seq e \<mapsto> True)"
    have step: "check_inclusions S sha c sth (e # entries) results st = check_inclusions S sha c sth entries ?v st"
      using 1 by simp
    from Cons.prems have "\<forall>e \<in> set entries. check_entry S sha c sth (ce_seq e) (ce_leaf_hash e) st = (st, Inr True)
      \<or> rocks_failure (Some (check_entry S sha c sth (ce_seq e) (ce_leaf_hash e) st)) st" by simp
    from Cons.IH [OF this, of ?v] show ?thesis
      unfolding step
    proof (elim disjE exE conjE)
      fix v
      assume "check_inclusions S sha c sth entries ?v st = (st, Inr v)" "\<forall>e \<in> set entries. v (ce_seq e) = Some True"
        "\<forall>k. ?v k = Some True \<longrightarrow> v k = Some True"
      then show "(\<exists>v. check_inclusions S sha c sth entries ?v st = (st, Inr v) \<and> (\<forall>e \<in> set (e # entries). v (ce_seq e) = Some True)
          \<and> (\<forall>k. results k = Some True \<longrightarrow> v k = Some True))
        \<or> rocks_failure (Some (check_inclusions S sha c sth entries ?v st)) st" by (intro disjI1 exI [of _ v]) auto
    qed (rule disjI2)
  next
    case 2
    then show ?thesis by (auto simp: rocks_failure_def)
  qed
qed simp

lemma print_table_all:
  "\<forall>e \<in> set entries. v (ce_seq e) = Some True \<Longrightarrow> print_table entries (Some v) = map (\<lambda>e. (e, Some True)) entries"
  by (simp add: print_table_def)

lemma rocks_failure_bind: "rocks_failure x st \<Longrightarrow> rocks_failure (and_then x f) st"
  by (auto simp: rocks_failure_def)

lemma verify_all_honest:
  assumes inv: "server_inv E view st es hs ks" and dense: "dense (st_db st) es" and s: "s \<in> set hs"
    and pass: "interceptor (st_config st) (make_request c) = Inr ()"
    and head: "client_get_sth (server_stub E crash now tick stream) c 0 st = (st, Inr (client_head s))"
    and old: "old = None \<or> old = Some (client_head s)"
  shows "verify_all (server_stub E crash now tick stream) (e_ed E) (e_sha E) c w old (sth_tree_size s)
        (shown (take (unat (sth_tree_size s)) es)) st =
      Some (st, Inr \<lparr>dr_rows = map (\<lambda>e. (from_pb_entry (entry_of e), Some True)) (take (unat (sth_tree_size s)) es),
        dr_head_ok = Some True, dr_consistent = None\<rparr>)
    \<or> rocks_failure (verify_all (server_stub E crash now tick stream) (e_ed E) (e_sha E) c w old (sth_tree_size s)
        (shown (take (unat (sth_tree_size s)) es)) st) st"
proof -
  let ?S = "server_stub E crash now tick stream" and ?n = "unat (sth_tree_size s)" and ?sth = "client_head s"
  let ?es = "shown (take ?n es)"
  have core: "core_inv E view st es hs" using inv by (simp add: server_inv_core)
  have sth: "check_sth ?S (e_ed E) c (sth_tree_size s) (fst w) (snd w) st = Some (st, Inr (?sth, True))"
    using wait_for_sth_now [OF head, of "sth_tree_size s"] head_verdict_honest [OF inv s] by (simp add: check_sth_def)
  have "check_entry ?S (e_sha E) c ?sth (ce_seq e) (ce_leaf_hash e) st = (st, Inr True)
      \<or> rocks_failure (Some (check_entry ?S (e_sha E) c ?sth (ce_seq e) (ce_leaf_hash e) st)) st" if "e \<in> set ?es" for e
  proof -
    from that obtain i where i: "i < ?n" "i < length es" "e = from_pb_entry (entry_of (es ! i))"
      by (auto simp: in_set_conv_nth)
    then have u: "unat (ce_seq e) = i" using dense_nth [OF dense i(2)] by (simp add: from_pb_entry_def entry_of_def)
    with i have "ce_seq e < sth_tree_size s" and "ce_leaf_hash e = to_vec (le_leaf_hash (es ! unat (ce_seq e)))"
      by (simp_all add: word_less_nat_alt from_pb_entry_def entry_of_def)
    with check_entry_honest [OF core dense s _ pass] show ?thesis by simp
  qed
  then consider v where "check_inclusions ?S (e_sha E) c ?sth ?es Map.empty st = (st, Inr v)" "\<forall>e \<in> set ?es. v (ce_seq e) = Some True"
    | "rocks_failure (Some (check_inclusions ?S (e_sha E) c ?sth ?es Map.empty st)) st"
    using check_inclusions_all [of ?es ?S "e_sha E" c ?sth st Map.empty] by blast
  then show ?thesis
  proof cases
    case 1
    have "(case old of Some old \<Rightarrow> check_consistency ?S (e_sha E) c old ?sth st | None \<Rightarrow> Some (st, Inr None)) = Some (st, Inr None)"
      using old by (auto simp: check_consistency_def)
    with 1 sth print_table_all [OF 1(2)] show ?thesis by (simp add: verify_all_def comp_def)
  next
    case 2
    with sth show ?thesis by (simp add: verify_all_def rocks_failure_bind)
  qed
qed

lemma append_entries_run:
  assumes "server_inv E view st es hs ks" and "dense (st_db st) es" and "unat (next_seq (st_db st)) + length kvs < 2 ^ 64"
    and "interceptor (st_config st) (make_request c) = Inr ()"
    and "append_entries (server_stub E crash now tick stream) c kvs st = (st', r)"
  shows "\<exists>new. server_inv E view st' (es @ new) hs ks \<and> st_config st' = st_config st
    \<and> (r = Inr () \<and> dense (st_db st') (es @ new) \<and> map (\<lambda>e. (le_key e, le_data e)) new = map (map_prod string_bytes string_bytes) kvs
      \<or> (\<exists>s. r = Inl (Err (DemoClient (Rpc s)))))"
  using assms
proof (induction kvs arbitrary: st es)
  case Nil
  then show ?case by (intro exI [of _ "[]"]) simp
next
  case (Cons kv kvs)
  obtain key data where kv: "kv = (key, data)" by fastforce
  obtain st1 a where run: "rpc_append E now tick (string_bytes key) (string_bytes data) st = (st1, a)" by fastforce
  have call: "mode_append (server_stub E crash now tick stream) c key data st =
      (st1, case a of Inl (Err s) \<Rightarrow> Inl (Err (DemoClient (Rpc s))) | Inl (Panic p) \<Rightarrow> Inl (Err (DemoClient (Rpc crash)))
        | Inr x \<Rightarrow> Inr (append_result_of x))"
    using Cons.prems(4) run by (simp add: mode_append_def client_append_def server_stub_def guarded_def reply_def
        split: sum.splits exn.splits)
  have room: "unat (next_seq (st_db st)) + 1 < 2 ^ 64" using Cons.prems(3) by simp
  note outcome = rpc_append_run [OF Cons.prems(1) room run]
  show ?case
  proof (cases a)
    case (Inl x)
    with outcome Cons.prems(5) call kv show ?thesis by (intro exI [of _ "[]"]) (auto split: exn.splits)
  next
    case (Inr x)
    with outcome Cons.prems(2) obtain e where e: "server_inv E view st1 (es @ [e]) hs ks" "dense (st_db st1) (es @ [e])"
        "le_key e = string_bytes key" "le_data e = string_bytes data" "st_config st1 = st_config st" by blast
    have "unat (next_seq (st_db st1)) + length kvs < 2 ^ 64"
      using dense_next [OF e(2)] dense_next [OF Cons.prems(2)] Cons.prems(3) by simp
    moreover have "append_entries (server_stub E crash now tick stream) c kvs st1 = (st', r)"
      using Cons.prems(5) call kv Inr by simp
    ultimately have "\<exists>new. server_inv E view st' ((es @ [e]) @ new) hs ks \<and> st_config st' = st_config st1
      \<and> (r = Inr () \<and> dense (st_db st') ((es @ [e]) @ new) \<and> map (\<lambda>e. (le_key e, le_data e)) new = map (map_prod string_bytes string_bytes) kvs
        \<or> (\<exists>s. r = Inl (Err (DemoClient (Rpc s)))))"
      using Cons.IH [OF e(1,2)] Cons.prems(4) e(5) by simp
    then obtain new where "server_inv E view st' (es @ e # new) hs ks \<and> st_config st' = st_config st1
      \<and> (r = Inr () \<and> dense (st_db st') (es @ e # new) \<and> map (\<lambda>e. (le_key e, le_data e)) new = map (map_prod string_bytes string_bytes) kvs
        \<or> (\<exists>s. r = Inl (Err (DemoClient (Rpc s)))))" by auto
    with e kv show ?thesis by (intro exI [of _ "e # new"]) simp
  qed
qed

lemma take_snapshot_honest:
  assumes "core_inv E view st es hs" and "hs \<noteq> []" and "interceptor (st_config st) (make_request c) = Inr ()"
  obtains old where "take_snapshot (server_stub E crash now tick stream) c do_consistency st = (st, old)"
    and "old = None \<or> old = Some (client_head (last hs))"
  using get_sth_answers [OF assms, of crash now tick stream]
  by (cases do_consistency) (auto simp: answers_def take_snapshot_def client_head_def)

abbreviation report_of :: "log_entry list \<Rightarrow> demo_report" where
  "report_of es \<equiv> \<lparr>dr_rows = map (\<lambda>e. (from_pb_entry (entry_of e), Some True)) es, dr_head_ok = Some True, dr_consistent = None\<rparr>"

lemma show_log_head:
  assumes inv: "server_inv E view st es hs ks" and dense: "dense (st_db st) es" and heads: "hs \<noteq> []"
    and pass: "interceptor (st_config st) (make_request c) = Inr ()" and old: "old = None \<or> old = Some (client_head (last hs))"
    and head: "client_get_sth (server_stub E crash now tick stream) c 0 st = (st, Inr (client_head (last hs)))"
  shows "show_log (server_stub E crash now tick stream) (e_ed E) (e_sha E) c True old w1 w2 st =
        Some (st, Inr (Some (report_of (take (unat (sth_tree_size (last hs))) es))))
      \<or> rocks_failure (show_log (server_stub E crash now tick stream) (e_ed E) (e_sha E) c True old w1 w2 st) st"
proof -
  let ?S = "server_stub E crash now tick stream" and ?s = "last hs" and ?n = "sth_tree_size (last hs)"
  let ?es = "take (unat ?n) es"
  have core: "core_inv E view st es hs" using inv by (simp add: server_inv_core)
  have s: "?s \<in> set hs" using heads by simp
  have n: "0 < ?n" using core_invD(6) [OF core s] by (simp add: root_ok_def)
  then have wait: "wait_for_sth ?S c 1 (fst w1) (snd w1) 0 st = Some (st, Inr (client_head ?s))"
    by (intro wait_for_sth_now [OF head]) (simp add: word_le_nat_alt word_less_nat_alt)
  have "open_log E view c st es" using core pass by (auto simp: open_log_def)
  moreover have "filter (\<lambda>e. ?n = 0 \<or> le_seq e < ?n) es = ?es" using n dense_take [OF dense, of ?n] by (simp add: word_gt_0)
  ultimately consider "drain (list_page ?S c ?n) 0 [] st = Some (st, Inr (shown ?es))"
    | "rocks_failure (drain (list_page ?S c ?n) 0 [] st) st"
    using listing.drain_complete [of E view c st es crash now tick stream ?n 0 "[]"] by auto
  then show ?thesis
  proof cases
    case 1
    with verify_all_honest [OF inv dense s pass head old, of w2] wait show ?thesis
      by (auto simp: show_log_def rocks_failure_bind)
  next
    case 2
    with wait show ?thesis by (simp add: show_log_def rocks_failure_bind)
  qed
qed

lemma show_log_honest:
  assumes inv: "server_inv E view st es hs ks" and dense: "dense (st_db st) es" and heads: "hs \<noteq> []"
    and pass: "interceptor (st_config st) (make_request c) = Inr ()" and old: "old = None \<or> old = Some (client_head (last hs))"
  obtains (report) "show_log (server_stub E crash now tick stream) (e_ed E) (e_sha E) c True old w1 w2 st =
        Some (st, Inr (Some (report_of (take (unat (sth_tree_size (last hs))) es))))"
    | (failure) m where "show_log (server_stub E crash now tick stream) (e_ed E) (e_sha E) c True old w1 w2 st =
        Some (st, Inl (Err (DemoClient (Rpc (CodeInternal, ''RocksDB error: '' @ m)))))"
    | (no_head) m where "client_get_sth (server_stub E crash now tick stream) c 0 st =
        (st, Inl (Err (Rpc (CodeInternal, ''RocksDB error: '' @ m))))"
proof -
  have core: "core_inv E view st es hs" using inv by (simp add: server_inv_core)
  from get_sth_answers [OF core heads pass, of crash now tick stream] show ?thesis
    using show_log_head [OF inv dense heads pass old, of crash now tick stream w1 w2] report failure no_head
    by (auto simp: answers_def client_head_def rocks_failure_def)
qed

section \<open>Properties\<close>

text \<open>
  The key history of the demo is complete: on a server whose state stands for the log \<open>es\<close>, the paging loop
  ends and has collected exactly the entries of the key, in the order of the log and each once; and so
  has the listing up to a number, unless RocksDB reports an error.
\<close>

theorem demo_history_complete:
  assumes st: "open_log E view c st es" and key: "key \<noteq> []"
  shows "(mode_get_by_key (server_stub E crash now tick stream) c key st =
        Some (st, Inr (shown (filter (\<lambda>e. le_key e = string_bytes key) es)))
      \<or> rocks_failure (mode_get_by_key (server_stub E crash now tick stream) c key st) st)
    \<and> (drain (list_page (server_stub E crash now tick stream) c to_seq) 0 [] st =
        Some (st, Inr (shown (filter (\<lambda>e. to_seq = 0 \<or> le_seq e < to_seq) es)))
      \<or> rocks_failure (drain (list_page (server_stub E crash now tick stream) c to_seq) 0 [] st) st)"
proof -
  obtain b bs where b: "string_bytes key = b # bs" using key by (cases key) (simp_all add: string_bytes_def)
  show ?thesis
    using history.drain_complete [OF st, of crash now tick stream b bs 0 "[]"]
      listing.drain_complete [OF st, of crash now tick stream to_seq 0 "[]"]
    by (simp add: mode_get_by_key_def b)
qed

text \<open>
  Waiting for a tree head ends: if the clock ever passes the deadline, the loop returns, whatever the
  server answers and does in between, with a head of the wanted size or with the message of a timeout.
\<close>

theorem wait_for_sth_returns:
  assumes "i \<le> j" and "expired j"
  shows "\<exists>n' r. wait_for_sth S c min_size expired pause i n = Some (n', r)
    \<and> (case r of Inr sth \<Rightarrow> min_size \<le> cs_tree_size sth
       | Inl e \<Rightarrow> e = Err (DemoMsg (''no STH covering '' @ show_u64 min_size @ '' entries within 10s'')))"
  using assms
proof (induction i arbitrary: n rule: inc_induct)
  case base
  show ?case using base by (subst wait_for_sth.simps) (auto split: prod.splits sum.splits if_splits)
next
  case (step i)
  obtain n1 r where g: "client_get_sth S c 0 n = (n1, r)" by fastforce
  from step.IH [OF step.prems, of "pause i n1"] g show ?case
    by (subst (1) wait_for_sth.simps) (auto split: sum.splits if_splits)
qed

text \<open>
  The default mode against the server of the repository, when nothing else happens on it meanwhile, no signing
  cycle either: when a tree head exists, the log has no gap and the appends succeed, every check of the report is positive: the head's signature, and the proof of every
  entry listed. The entries listed are those the existing head covers, so the ones the demo has just
  appended are in the log but not in the report.
\<close>

theorem demo_report_honest:
  assumes inv: "server_inv E view st es hs ks" and dense: "dense (st_db st) es" and heads: "hs \<noteq> []"
    and room: "length es + length demo_entries < 2 ^ 64" and pass: "interceptor (st_config st) (make_request c) = Inr ()"
  shows "\<exists>st' new r. server_inv E view st' (es @ new) hs ks
    \<and> mode_default (server_stub E crash now tick stream) (e_ed E) (e_sha E) c True do_consistency skip_append w1 w2 st = r
    \<and> (r = Some (st', Inr (Some (report_of (take (unat (sth_tree_size (last hs))) es))))
        \<and> map (\<lambda>e. (le_key e, le_data e)) new = (if skip_append then [] else map (map_prod string_bytes string_bytes) demo_entries)
      \<or> (\<exists>s. r = Some (st', Inl (Err (DemoClient (Rpc s)))) \<and> (skip_append \<longrightarrow> (\<exists>m. s = (CodeInternal, ''RocksDB error: '' @ m))))
      \<or> (\<exists>m. client_get_sth (server_stub E crash now tick stream) c 0 st' =
          (st', Inl (Err (Rpc (CodeInternal, ''RocksDB error: '' @ m))))))"
proof -
  let ?S = "server_stub E crash now tick stream" and ?s = "last hs" and ?n = "unat (sth_tree_size (last hs))"
  let ?kvs = "if skip_append then [] else demo_entries"
  have core: "core_inv E view st es hs" using inv by (simp add: server_inv_core)
  have n: "?n \<le> length es" using core_invD(6) [OF core last_in_set [OF heads]] by (simp add: root_ok_def)
  from take_snapshot_honest [OF core heads pass] obtain old where
    old: "take_snapshot ?S c do_consistency st = (st, old)" "old = None \<or> old = Some (client_head ?s)" by metis
  obtain st' r where app: "append_entries ?S c ?kvs st = (st', r)" by fastforce
  have run: "mode_default ?S (e_ed E) (e_sha E) c True do_consistency skip_append w1 w2 st =
      and_then (Some (st', r)) (\<lambda>n _. show_log ?S (e_ed E) (e_sha E) c True old w1 w2 n)"
    using app old(1) by (cases skip_append) (auto simp: mode_default_def)
  have room': "unat (next_seq (st_db st)) + length ?kvs < 2 ^ 64" using room dense_next [OF dense] by simp
  from append_entries_run [OF inv dense room' pass app] obtain new where inv': "server_inv E view st' (es @ new) hs ks"
    and cfg: "st_config st' = st_config st"
    and res: "r = Inr () \<and> dense (st_db st') (es @ new) \<and> map (\<lambda>e. (le_key e, le_data e)) new = map (map_prod string_bytes string_bytes) ?kvs
      \<or> (\<exists>s. r = Inl (Err (DemoClient (Rpc s))))" by blast
  have pass': "interceptor (st_config st') (make_request c) = Inr ()" using pass cfg by simp
  have "r = Inr ()" if skip_append using that app by simp
  with res consider x where "r = Inl (Err (DemoClient (Rpc x)))" "\<not> skip_append"
    | "r = Inr ()" "dense (st_db st') (es @ new)" "map (\<lambda>e. (le_key e, le_data e)) new = map (map_prod string_bytes string_bytes) ?kvs"
    by auto
  then show ?thesis
  proof cases
    case 1
    with run inv' show ?thesis by auto
  next
    case 2
    show ?thesis
      by (cases rule: show_log_honest [OF inv' 2(2) heads pass' old(2), of crash now tick stream w1 w2];
          rule exI [of _ st'], rule exI [of _ new]) (use run 2(1,3) inv' n in simp_all)
  qed
qed

text \<open>
  The consistency check of the demo accepts any two heads that the server has stored, in the order of their
  sizes: it reports OK, or that there is nothing to prove for equal sizes, unless RocksDB reports an
  error. The bound on the size is the range in which the SDK's verifier returns.
\<close>

theorem demo_consistency_honest:
  assumes inv: "server_inv E view st es hs ks" and dense: "dense (st_db st) es" and pass: "interceptor (st_config st) (make_request c) = Inr ()"
    and heads: "older \<in> set hs" "newer \<in> set hs" "sth_tree_size older \<le> sth_tree_size newer" and bound: "unat (sth_tree_size newer) \<le> 2 ^ 63"
  shows "check_consistency (server_stub E crash now tick stream) (e_sha E) c (client_head older) (client_head newer) st =
      Some (st, Inr (if sth_tree_size older = sth_tree_size newer then None else Some True))
    \<or> rocks_failure (check_consistency (server_stub E crash now tick stream) (e_sha E) c (client_head older) (client_head newer) st) st"
proof -
  have core: "core_inv E view st es hs" using inv by (simp add: server_inv_core)
  from consistency_served [OF core dense_below [OF dense] heads, of "sth_tree_size newer"] obtain p where
    srv: "served (rpc_consistency_proof E (sth_tree_size older) (sth_tree_size newer) st)
      (Inr \<lparr>cp_old_size = sth_tree_size older, cp_new_size = sth_tree_size newer, cp_proof = map to_vec p,
            cp_old_sth = sth_to_proto older, cp_new_sth = sth_to_proto newer\<rparr>)"
    and ver: "sdk_verify_consistency (e_sha E) (sth_tree_size older) (sth_tree_size newer) p (sth_root_hash older) (sth_root_hash newer) = Some True"
    using bound by blast
  from consistency_answers [OF srv pass, of crash now tick stream] ver show ?thesis
    by (auto simp: answers_def check_consistency_def rocks_failure_def)
qed

text \<open>
  C40. The demo checks a proof at the size that the proof response reports, not at the size of the head. A
  server can therefore pass off an inner node as the leaf of an entry: against a signed head over any log
  of two or more entries, the demo reports OK for the root of the left half of the tree, presented as the
  first of two leaves.
\<close>

theorem demo_accepts_inner_node:
  assumes head: "cs_root_hash sth = to_vec (MTH (node_hash sha) xs)" and xs: "2 \<le> length xs"
    and answer: "client_inclusion_proof S c seq (cs_tree_size sth) n =
      (n', Inr \<lparr>ipr_leaf_index = 0, ipr_tree_size = 2,
        ipr_proof = [to_vec (MTH (node_hash sha) (drop (kpow (length xs)) xs))], ipr_sth = s\<rparr>)"
  shows "check_entry S sha c sth seq (to_vec (MTH (node_hash sha) (take (kpow (length xs)) xs))) n = (n', Inr True)"
proof -
  let ?nd = "node_hash sha"
  let ?l = "MTH ?nd (take (kpow (length xs)) xs)" and ?r = "MTH ?nd (drop (kpow (length xs)) xs)"
  have root: "MTH ?nd xs = ?nd ?l ?r" using xs by (subst MTH.simps) simp
  have "verify_inclusion sha ?l 0 2 [?r] (?nd ?l ?r)"
    by (simp add: verify_inclusion_def shr64_def)
  moreover have "proof32 [to_vec ?r] = (Inr [?r] :: (demo_error, hash list) result)" using proof32_to_vec [of "[?r]"] by simp
  ultimately show ?thesis using answer head by (simp add: check_entry_def root)
qed

section \<open>Witnesses\<close>

definition anonymous :: settled_client where
  "anonymous = \<lparr>cl_auth_header = None\<rparr>"

lemma sample_pass: "interceptor (st_config signed_state) (make_request anonymous) = Inr ()"
  by (rule interceptor_open [OF sample_open(3)])

theorem demo_history_complete_witness:
  "mode_get_by_key toy_stub anonymous [CHR 0x01] signed_state =
        Some (signed_state, Inr (shown (filter (\<lambda>e. le_key e = string_bytes [CHR 0x01]) [new_entry toy_sha 5 0 [1] [2]])))
      \<or> rocks_failure (mode_get_by_key toy_stub anonymous [CHR 0x01] signed_state) signed_state"
proof -
  have "open_log mem_env (\<lambda>d. d) anonymous signed_state [new_entry toy_sha 5 0 [1] [2]]"
    using signed_state_inv(1) sample_pass by (auto simp: open_log_def server_inv_core)
  from demo_history_complete [OF this, of "[CHR 0x01]" no_crash 5 0 "\<lambda>_ _. []" 0] show ?thesis
    unfolding toy_stub_def by blast
qed

theorem wait_for_sth_returns_witness:
  "\<exists>n' r. wait_for_sth toy_stub anonymous 1 (\<lambda>i. 2 \<le> i) (\<lambda>_ n. n) 0 sample_state1 = Some (n', r)
    \<and> (case r of Inr sth \<Rightarrow> 1 \<le> cs_tree_size sth
       | Inl e \<Rightarrow> e = Err (DemoMsg (''no STH covering '' @ show_u64 1 @ '' entries within 10s'')))"
  by (rule wait_for_sth_returns [of 0 2]) simp_all

theorem demo_report_honest_witness:
  "\<exists>st' new r. server_inv mem_env (\<lambda>d. d) st' ([new_entry toy_sha 5 0 [1] [2]] @ new) [sample_head] [sample_key]
    \<and> mode_default toy_stub (e_ed mem_env) (e_sha mem_env) anonymous True True True (\<lambda>_. True, \<lambda>_ n. n) (\<lambda>_. True, \<lambda>_ n. n) signed_state = r
    \<and> (r = Some (st', Inr (Some (report_of [new_entry toy_sha 5 0 [1] [2]]))) \<and> new = []
      \<or> (\<exists>m. r = Some (st', Inl (Err (DemoClient (Rpc (CodeInternal, ''RocksDB error: '' @ m))))))
      \<or> (\<exists>m. client_get_sth toy_stub anonymous 0 st' = (st', Inl (Err (Rpc (CodeInternal, ''RocksDB error: '' @ m))))))"
proof -
  have room: "length [new_entry toy_sha 5 0 [1] [2]] + length demo_entries < 2 ^ 64" by (simp add: demo_entries_def)
  from demo_report_honest [OF signed_state_inv _ room sample_pass, of no_crash 5 0 "\<lambda>_ _. []" True True
      "(\<lambda>_. True, \<lambda>_ n. n)" "(\<lambda>_. True, \<lambda>_ n. n)"]
  show ?thesis by (simp add: toy_stub_def sample_head_size) blast
qed

theorem demo_consistency_honest_witness:
  "check_consistency toy_stub (e_sha mem_env) anonymous (client_head sample_head) (client_head sample_head) signed_state =
      Some (signed_state, Inr None)
    \<or> rocks_failure (check_consistency toy_stub (e_sha mem_env) anonymous (client_head sample_head) (client_head sample_head) signed_state)
        signed_state"
  using demo_consistency_honest [OF signed_state_inv sample_pass, of sample_head sample_head no_crash 5 0 "\<lambda>_ _. []"]
  by (simp add: toy_stub_def sample_head_size)

text \<open>A server that answers every request for a proof with the root of the right half of its tree.\<close>

definition liar_leaves :: "hash list" where
  "liar_leaves = map (leaf_hash toy_sha) [[1], [2], [3]]"

definition liar_stub :: "unit stub" where
  "liar_stub = \<lparr>
     call_append = (\<lambda>_ _ n. (n, Inl no_crash)), call_batch_append = (\<lambda>_ _ n. (n, Inl no_crash)),
     call_get = (\<lambda>_ _ n. (n, Inl no_crash)), call_get_latest = (\<lambda>_ _ n. (n, Inl no_crash)), call_get_sth = (\<lambda>_ _ n. (n, Inl no_crash)),
     call_inclusion_proof = (\<lambda>_ _ n. (n, Inr \<lparr>pbi_leaf_index = 0, pbi_tree_size = 2,
       pbi_proof = [to_vec (MTH (node_hash toy_sha) (drop (kpow (length liar_leaves)) liar_leaves))], pbi_sth = None\<rparr>)),
     call_watch = (\<lambda>_ _ n. (n, Inl no_crash)), call_list_entries = (\<lambda>_ _ n. (n, Inl no_crash)),
     call_get_by_key = (\<lambda>_ _ n. (n, Inl no_crash)), call_consistency_proof = (\<lambda>_ _ n. (n, Inl no_crash))\<rparr>"

definition liar_head :: client_sth where
  "liar_head = \<lparr>cs_tree_size = 3, cs_root_hash = to_vec (MTH (node_hash toy_sha) liar_leaves), cs_timestamp_ns = 0,
     cs_signature = [], cs_public_key = [], cs_key_version = 0\<rparr>"

theorem demo_accepts_inner_node_witness:
  "check_entry liar_stub toy_sha anonymous liar_head 0
      (to_vec (MTH (node_hash toy_sha) (take (kpow (length liar_leaves)) liar_leaves))) () = ((), Inr True)"
  by (rule demo_accepts_inner_node)
    (simp_all add: liar_head_def liar_leaves_def client_inclusion_proof_def liar_stub_def)

end
