(* ===== verification/Demo_Format.thy ===== *)
theory Demo_Format
  imports Demo_Cli
begin

text \<open>
  The layout of the table the demo prints (\<^verbatim>\<open>fmt_time\<close>, \<^verbatim>\<open>fmt_hash\<close>, \<^verbatim>\<open>table_header\<close>, \<^verbatim>\<open>entry_row\<close> and \<^verbatim>\<open>print_table\<close> of
  \<^verbatim>\<open>demos/rust/src/main.rs\<close>). Text is the list of its Unicode scalar values, which is what the widths of
  \<^verbatim>\<open>format!\<close> count. The hexadecimal encoding and \<^verbatim>\<open>from_utf8_lossy\<close> are arguments.
\<close>

type_synonym utext = "nat list"

definition utext :: "string \<Rightarrow> utext" where
  "utext s = map of_char s"

section \<open>The pieces of \<^verbatim>\<open>format!\<close>\<close>

definition pad_left :: "nat \<Rightarrow> utext \<Rightarrow> utext" where
  "pad_left w t = replicate (w - length t) 32 @ t"

definition pad_right :: "nat \<Rightarrow> utext \<Rightarrow> utext" where
  "pad_right w t = t @ replicate (w - length t) 32"

definition zero_pad :: "nat \<Rightarrow> nat \<Rightarrow> utext" where
  "zero_pad w n = replicate (w - length (dec n)) 48 @ utext (dec n)"

section \<open>The table\<close>

definition fmt_time :: "i64 \<Rightarrow> utext" where
  "fmt_time ts_ns =
     (let t = nat \<bar>sint ts_ns\<bar>; secs = t div 1000000000; ms = t mod 1000000000 div 1000000;
          h = secs mod 86400 div 3600; m = secs mod 3600 div 60; s = secs mod 60
      in zero_pad 2 h @ utext '':'' @ zero_pad 2 m @ utext '':'' @ zero_pad 2 s @ utext ''.'' @ zero_pad 3 ms @ utext ''Z'')"

definition fmt_hash :: "(bytes \<Rightarrow> string) \<Rightarrow> bytes \<Rightarrow> utext" where
  "fmt_hash hex bs = (let h = hex bs in utext (take (min (length h) 16) h) @ [8230])"

definition table_header :: "bool \<Rightarrow> utext" where
  "table_header show_proof =
     (let h = pad_left 4 (utext ''Seq'') @ utext ''  '' @ pad_right 20 (utext ''Key'') @ utext ''  '' @ pad_right 20 (utext ''Data'') @
            utext ''  '' @ pad_right 20 (utext ''Time'') @ utext ''  '' @ pad_right 18 (utext ''Leaf Hash'')
      in if show_proof then h @ utext ''  Proof'' else h)"

definition entry_row :: "(bytes \<Rightarrow> string) \<Rightarrow> (bytes \<Rightarrow> utext) \<Rightarrow> client_entry \<Rightarrow> utext \<Rightarrow> utext" where
  "entry_row hex lossy e proof_col =
     pad_left 4 (utext (show_u64 (ce_seq e))) @ utext ''  '' @ pad_right 20 (lossy (ce_key e)) @ utext ''  '' @
     pad_right 20 (lossy (ce_data e)) @ utext ''  '' @ pad_right 20 (fmt_time (ce_timestamp_ns e)) @ utext ''  '' @
     pad_right 18 (fmt_hash hex (ce_leaf_hash e)) @ proof_col"

text \<open>The lines of \<^verbatim>\<open>print_table\<close>; the rows with their verdicts are those of \<open>print_table\<close> in \<open>Demo_Cli\<close>.\<close>

definition table_lines :: "(bytes \<Rightarrow> string) \<Rightarrow> (bytes \<Rightarrow> utext) \<Rightarrow> client_entry list \<Rightarrow> (u64 \<rightharpoonup> bool) option \<Rightarrow> utext list" where
  "table_lines hex lossy entries verified =
     (let hdr = table_header (verified \<noteq> None)
      in hdr # replicate (length hdr) 45 #
         map (\<lambda>(e, verdict). entry_row hex lossy e (case verdict of None \<Rightarrow> []
           | Some ok \<Rightarrow> if ok then utext ''  OK'' else utext ''  FAIL'')) (print_table entries verified))"

section \<open>What the table shows\<close>

lemma utext_simps [simp]: "utext [] = []" "utext (c # s) = of_char c # utext s" "utext (s @ t) = utext s @ utext t" "length (utext s) = length s"
  by (simp_all add: utext_def)

lemma dec_digits:
  "n < 10 \<Longrightarrow> dec n = [char_of (48 + n)]"
  "10 \<le> n \<Longrightarrow> n < 100 \<Longrightarrow> dec n = [char_of (48 + n div 10), char_of (48 + n mod 10)]"
  "100 \<le> n \<Longrightarrow> n < 1000 \<Longrightarrow> dec n = [char_of (48 + n div 100), char_of (48 + n div 10 mod 10), char_of (48 + n mod 10)]"
proof -
  have small: "n < 10 \<Longrightarrow> dec n = [char_of (48 + n)]" for n by (simp add: dec.simps)
  have two: "10 \<le> n \<Longrightarrow> n < 100 \<Longrightarrow> dec n = [char_of (48 + n div 10), char_of (48 + n mod 10)]" for n
    by (subst dec.simps) (simp add: small)
  show "n < 10 \<Longrightarrow> dec n = [char_of (48 + n)]"
    "10 \<le> n \<Longrightarrow> n < 100 \<Longrightarrow> dec n = [char_of (48 + n div 10), char_of (48 + n mod 10)]" by (fact small two)+
  show "100 \<le> n \<Longrightarrow> n < 1000 \<Longrightarrow> dec n = [char_of (48 + n div 100), char_of (48 + n div 10 mod 10), char_of (48 + n mod 10)]"
    by (subst dec.simps) (simp add: two div_mult2_eq [symmetric])
qed

lemma zero_pad_two: "n < 100 \<Longrightarrow> zero_pad 2 n = [48 + n div 10, 48 + n mod 10]"
  by (cases "n < 10") (simp_all add: zero_pad_def dec_digits numeral_2_eq_2)

lemma zero_pad_three: "n < 1000 \<Longrightarrow> zero_pad 3 n = [48 + n div 100, 48 + n div 10 mod 10, 48 + n mod 10]"
  by (cases "n < 10"; cases "n < 100") (simp_all add: zero_pad_def dec_digits numeral_2_eq_2 numeral_3_eq_3)

text \<open>The number a run of decimal digits stands for.\<close>

definition digits_value :: "utext \<Rightarrow> nat" where
  "digits_value t = foldl (\<lambda>a d. 10 * a + (d - 48)) 0 t"

lemma mod_div_nat: "0 < b \<Longrightarrow> (x :: nat) mod (b * c) div b = x div b mod c"
  by (simp add: mod_mult2_eq)

lemma seconds_split: "(s mod 86400 div 3600 * 60 + s mod 3600 div 60) * 60 + s mod 60 = s mod (86400 :: nat)"
proof -
  have "s mod 86400 div 3600 = s div 3600 mod 24" "s mod 3600 div 60 = s div 60 mod 60"
    using mod_div_nat [of 3600 s 24] mod_div_nat [of 60 s 60] by simp_all
  moreover have "s mod 86400 = 3600 * (s div 3600 mod 24) + s mod 3600" "s mod 3600 = 60 * (s div 60 mod 60) + s mod 60"
    using mod_mult2_eq [of s 3600 24] mod_mult2_eq [of s 60 60] by simp_all
  ultimately show ?thesis by simp
qed

lemma milliseconds_split: "t div 1000000000 mod 86400 * 1000 + t mod 1000000000 div 1000000 = t div 1000000 mod (86400000 :: nat)"
proof -
  have "t mod 1000000000 div 1000000 = t div 1000000 mod 1000" using mod_div_nat [of 1000000 t 1000] by simp
  moreover have "t div 1000000 mod 86400000 = 1000 * (t div 1000000 div 1000 mod 86400) + t div 1000000 mod 1000"
    using mod_mult2_eq [of "t div 1000000" 1000 86400] by simp
  moreover have "t div 1000000 div 1000 = t div 1000000000" by (simp add: div_mult2_eq [symmetric])
  ultimately show ?thesis by simp
qed

lemma fmt_time_fields:
  "\<exists>h m s ms. fmt_time ts = zero_pad 2 h @ utext '':'' @ zero_pad 2 m @ utext '':'' @ zero_pad 2 s @ utext ''.'' @ zero_pad 3 ms @ utext ''Z''
    \<and> h < 24 \<and> m < 60 \<and> s < 60 \<and> ms < 1000
    \<and> ((h * 60 + m) * 60 + s) * 1000 + ms = nat \<bar>sint ts\<bar> div 1000000 mod 86400000"
proof -
  define t where "t = nat \<bar>sint ts\<bar>"
  define secs where "secs = t div 1000000000"
  have "fmt_time ts = zero_pad 2 (secs mod 86400 div 3600) @ utext '':'' @ zero_pad 2 (secs mod 3600 div 60) @ utext '':'' @
      zero_pad 2 (secs mod 60) @ utext ''.'' @ zero_pad 3 (t mod 1000000000 div 1000000) @ utext ''Z''"
    by (simp only: fmt_time_def Let_def secs_def t_def)
  moreover have "secs mod 86400 div 3600 < 24" "secs mod 3600 div 60 < 60" "secs mod 60 < 60" "t mod 1000000000 div 1000000 < 1000"
    by (simp_all add: less_mult_imp_div_less)
  moreover have "((secs mod 86400 div 3600 * 60 + secs mod 3600 div 60) * 60 + secs mod 60) * 1000 + t mod 1000000000 div 1000000 =
      t div 1000000 mod 86400000"
    unfolding seconds_split unfolding secs_def by (rule milliseconds_split)
  ultimately show ?thesis unfolding t_def by blast
qed

text \<open>
  The time column is the UTC time of day of the timestamp, to the millisecond, in the fixed form
  \<^verbatim>\<open>HH:MM:SS.mmmZ\<close>: the four fields read back give the milliseconds since midnight. A time before the epoch is
  shown as its mirror image after it.
\<close>

theorem fmt_time_correct:
  assumes "0 \<le> sint ts"
  shows "\<exists>h m s ms. fmt_time ts = h @ utext '':'' @ m @ utext '':'' @ s @ utext ''.'' @ ms @ utext ''Z''
    \<and> map length [h, m, s, ms] = [2, 2, 2, 3] \<and> digits_value h < 24 \<and> digits_value m < 60 \<and> digits_value s < 60
    \<and> ((digits_value h * 60 + digits_value m) * 60 + digits_value s) * 1000 + digits_value ms = nat (sint ts) div 1000000 mod 86400000"
proof -
  obtain h m s ms where fmt: "fmt_time ts = zero_pad 2 h @ utext '':'' @ zero_pad 2 m @ utext '':'' @ zero_pad 2 s @ utext ''.'' @
      zero_pad 3 ms @ utext ''Z''" and lt: "h < 24" "m < 60" "s < 60" "ms < 1000"
    and day: "((h * 60 + m) * 60 + s) * 1000 + ms = nat (sint ts) div 1000000 mod 86400000"
    using fmt_time_fields [of ts] unfolding abs_of_nonneg [OF assms] by blast
  have "digits_value (zero_pad 2 n) = n \<and> length (zero_pad 2 n) = 2" if "n < 100" for n
    using that by (simp add: zero_pad_two digits_value_def)
  moreover have "digits_value (zero_pad 3 ms) = ms \<and> length (zero_pad 3 ms) = 3"
  proof -
    have "ms div 100 = ms div 10 div 10" by (simp add: div_mult2_eq [symmetric])
    then show ?thesis using lt by (simp add: zero_pad_three digits_value_def)
  qed
  ultimately show ?thesis using fmt lt day
    by (intro exI [of _ "zero_pad 2 h"] exI [of _ "zero_pad 2 m"] exI [of _ "zero_pad 2 s"] exI [of _ "zero_pad 3 ms"]) simp
qed

lemma fmt_time_mirror: "sint ts' = - sint ts \<Longrightarrow> fmt_time ts' = fmt_time ts"
  by (simp add: fmt_time_def)

lemma fmt_time_length: "length (fmt_time ts) = 13"
proof -
  obtain h m s ms where "fmt_time ts = zero_pad 2 h @ utext '':'' @ zero_pad 2 m @ utext '':'' @ zero_pad 2 s @ utext ''.'' @
      zero_pad 3 ms @ utext ''Z''" "h < 24" "m < 60" "s < 60" "ms < 1000" using fmt_time_fields by blast
  then show ?thesis by (simp add: zero_pad_two zero_pad_three)
qed

lemma pad_length [simp]: "length (pad_left w t) = max w (length t)" "length (pad_right w t) = max w (length t)"
  by (simp_all add: pad_left_def pad_right_def)

lemma header_length: "length (table_header b) = (if b then 97 else 90)"
  by (simp add: table_header_def Let_def)

text \<open>
  The table lines up: a row whose number has at most four digits and whose key and data have at most twenty
  characters is as wide as the header without its proof column, which then follows.
\<close>

theorem rows_aligned:
  assumes "length (show_u64 (ce_seq e)) \<le> 4" and "length (lossy (ce_key e)) \<le> 20" and "length (lossy (ce_data e)) \<le> 20"
  shows "length (entry_row hex lossy e proof_col) = length (table_header False) + length proof_col"
  using assms by (simp add: entry_row_def header_length fmt_time_length fmt_hash_def Let_def max_def)

text \<open>The printed table has the header, a rule of its width and one line for each entry, in order, with the verdict of its proof.\<close>

lemma table_lines_rows:
  "length (table_lines hex lossy entries verified) = length entries + 2
    \<and> length (table_lines hex lossy entries verified ! 1) = length (table_lines hex lossy entries verified ! 0)
    \<and> (i < length entries \<longrightarrow> table_lines hex lossy entries (Some v) ! (i + 2) =
        entry_row hex lossy (entries ! i) (if v (ce_seq (entries ! i)) = Some True then utext ''  OK'' else utext ''  FAIL''))"
  by (auto simp: table_lines_def print_table_def unwrap_or_def Let_def split: option.splits)

section \<open>Witnesses\<close>

theorem fmt_time_correct_witness:
  "\<exists>h m s ms. fmt_time 3723004000000 = h @ utext '':'' @ m @ utext '':'' @ s @ utext ''.'' @ ms @ utext ''Z''
    \<and> ((digits_value h * 60 + digits_value m) * 60 + digits_value s) * 1000 + digits_value ms = 3723004"
proof -
  have "sint (3723004000000 :: i64) = 3723004000000" by simp
  with fmt_time_correct [of 3723004000000] show ?thesis by auto
qed

theorem rows_aligned_witness:
  "length (entry_row (\<lambda>_. ''ab'') (map unat) \<lparr>ce_seq = 7, ce_timestamp_ns = 5, ce_key = [97], ce_data = [98], ce_leaf_hash = []\<rparr> []) = 90"
  using rows_aligned [of "\<lparr>ce_seq = 7, ce_timestamp_ns = 5, ce_key = [97], ce_data = [98], ce_leaf_hash = []\<rparr>" "map unat" "\<lambda>_. ''ab''" "[]"]
  by (simp add: header_length show_u64_def dec_digits)

end
