(* ===== verification/Demo_Watch.thy ===== *)
theory Demo_Watch
  imports Demo_Format
begin

text \<open>
  The watch mode of the demo (\<^verbatim>\<open>mode_watch\<close> of \<^verbatim>\<open>demos/rust/src/main.rs\<close>) against the server of the repository:
  what one round of its catch-up loop prints.
\<close>

definition shown_entry :: "log_entry list \<Rightarrow> nat \<Rightarrow> client_entry" where
  "shown_entry es k = from_pb_entry (entry_of (es ! k))"

text \<open>The numbers whose entry the server hands out, rather than report an error of RocksDB.\<close>

definition fetched :: "'n stub \<Rightarrow> settled_client \<Rightarrow> 'n \<Rightarrow> nat \<Rightarrow> bool" where
  "fetched S c n k \<longleftrightarrow> \<not> isl (snd (client_get S c (of_nat k) n))"

lemma watch_entry_honest:
  assumes core: "core_inv E view st es hs" and dense: "dense (st_db st) es" and s: "s \<in> set hs"
    and seq: "seq < sth_tree_size s" and pass: "interceptor (st_config st) (make_request c) = Inr ()"
    and S: "S = server_stub E crash now tick stream"
  shows "\<exists>new. watch_entry S (e_sha E) c v (client_head s) seq st = (st, Inr new)
    \<and> map fst new = (if fetched S c st (unat seq) then [shown_entry es (unat seq)] else [])
    \<and> (\<forall>r \<in> set new. snd r \<noteq> Some False)"
proof -
  let ?e = "shown_entry es (unat seq)"
  have i: "unat seq < length es"
    using inclusion_served [OF core dense_below [OF dense] s _ seq, of "sth_tree_size s"] by blast
  have "answers st (client_get S c seq st) ?e"
    using get_answers [OF dense_get [OF core dense i] pass] by (simp add: S shown_entry_def)
  then consider "client_get S c seq st = (st, Inr ?e)" "fetched S c st (unat seq)"
    | x where "client_get S c seq st = (st, Inl x)" "\<not> fetched S c st (unat seq)"
    by (auto simp: answers_def fetched_def)
  then show ?thesis
  proof cases
    case 1
    have "ce_leaf_hash ?e = to_vec (le_leaf_hash (es ! unat seq))" by (simp add: shown_entry_def from_pb_entry_def entry_of_def)
    with check_entry_honest [OF core dense s seq pass, of crash now tick stream] 1 show ?thesis
      by (auto simp: watch_entry_def rocks_failure_def S)
  next
    case 2
    then show ?thesis by (simp add: watch_entry_def)
  qed
qed

text \<open>
  One round of the watch mode: from the number it has reached it goes through every entry the head covers
  and stops exactly at the size of the head. It prints, in order and once, the entries the server hands out, and
  never a failed proof. An entry whose request fails is passed over for good.
\<close>

theorem watch_round_honest:
  assumes core: "core_inv E view st es hs" and dense: "dense (st_db st) es" and s: "s \<in> set hs"
    and pass: "interceptor (st_config st) (make_request c) = Inr ()" and S: "S = server_stub E crash now tick stream"
  shows "\<exists>shown. catch_up S (e_sha E) c v (client_head s) seq rows st = (st, Inr (rows @ shown, max seq (sth_tree_size s)))
    \<and> map fst shown = map (shown_entry es) (filter (fetched S c st) [unat seq..<unat (sth_tree_size s)])
    \<and> (\<forall>r \<in> set shown. snd r \<noteq> Some False)"
proof (induction "unat (sth_tree_size s) - unat seq" arbitrary: seq rows rule: less_induct)
  case less
  show ?case
  proof (cases "seq < sth_tree_size s")
    case False
    then have "max seq (sth_tree_size s) = seq" "\<not> unat seq < unat (sth_tree_size s)"
      by (simp_all add: max_absorb1 word_less_nat_alt [symmetric])
    with False show ?thesis by (subst catch_up.simps) simp
  next
    case True
    note next1 = u64_below_size [OF True]
    obtain new where new: "watch_entry S (e_sha E) c v (client_head s) seq st = (st, Inr new)"
      "map fst new = (if fetched S c st (unat seq) then [shown_entry es (unat seq)] else [])"
      "\<forall>r \<in> set new. snd r \<noteq> Some False"
      using watch_entry_honest [OF core dense s True pass S, of v] by blast
    obtain shown where shown: "catch_up S (e_sha E) c v (client_head s) (seq + 1) (rows @ new) st =
        (st, Inr ((rows @ new) @ shown, max (seq + 1) (sth_tree_size s)))"
      "map fst shown = map (shown_entry es) (filter (fetched S c st) [Suc (unat seq)..<unat (sth_tree_size s)])"
      "\<forall>r \<in> set shown. snd r \<noteq> Some False"
      using less [OF next1(2), of "rows @ new"] next1(1) by auto
    have max: "max (seq + 1) (sth_tree_size s) = max seq (sth_tree_size s)"
      using True next1(1) by (auto simp: max_def word_le_nat_alt word_less_nat_alt)
    have "[unat seq..<unat (sth_tree_size s)] = unat seq # [Suc (unat seq)..<unat (sth_tree_size s)]"
      using True by (intro upt_conv_Cons) (simp add: word_less_nat_alt)
    then have "map fst (new @ shown) = map (shown_entry es) (filter (fetched S c st) [unat seq..<unat (sth_tree_size s)])"
      using new(2) shown(2) by simp
    moreover have "catch_up S (e_sha E) c v (client_head s) seq rows st = (st, Inr (rows @ (new @ shown), max seq (sth_tree_size s)))"
      using True new(1) shown(1) max by (subst catch_up.simps) simp
    ultimately show ?thesis using new(3) shown(3) by (intro exI [of _ "new @ shown"]) auto
  qed
qed

section \<open>Witness\<close>

theorem watch_round_honest_witness:
  "\<exists>shown. catch_up toy_stub (e_sha mem_env) anonymous True (client_head sample_head) 0 [] signed_state = (signed_state, Inr (shown, 1))
    \<and> map fst shown = map (shown_entry [new_entry toy_sha 5 0 [1] [2]]) (filter (fetched toy_stub anonymous signed_state) [0])"
proof -
  have core: "core_inv mem_env (\<lambda>d. d) signed_state [new_entry toy_sha 5 0 [1] [2]] [sample_head]"
    using signed_state_inv(1) by (simp add: server_inv_core)
  have "sample_head \<in> set [sample_head]" by simp
  from watch_round_honest [OF core signed_state_inv(2) this sample_pass toy_stub_def, of True 0 "[]"] show ?thesis
    by (auto simp: sample_head_size max_def)
qed

end
