(* ===== verification/Test_Tools.thy ===== *)
theory Test_Tools
  imports Server_Front
begin

text \<open>
  The fuzz targets (\<^verbatim>\<open>fuzz/fuzz_targets\<close>) and the generator of test vectors (\<^verbatim>\<open>tools/gen-sth-vectors\<close>). A
  fuzz target cuts the arguments of a verifier out of any byte string; its result here is the verdict the
  target throws away, and \<open>None\<close> for an early return. A vector has the bytes that the generator writes
  in hexadecimal.
\<close>

section \<open>Fuzz targets\<close>

text \<open>\<^verbatim>\<open>data[lo..hi]\<close>, \<^verbatim>\<open>data[lo..hi].try_into().unwrap()\<close> and \<^verbatim>\<open>u64::from_le_bytes\<close>.\<close>

definition slice :: "bytes \<Rightarrow> nat \<Rightarrow> nat \<Rightarrow> ('e, bytes) result" where
  "slice data lo hi = (if lo \<le> hi \<and> hi \<le> length data then Inr (take (hi - lo) (drop lo data)) else Inl (Panic IndexOutOfBounds))"

definition fixed :: "bytes \<Rightarrow> nat \<Rightarrow> nat \<Rightarrow> ('e, 'n::len barr) result" where
  "fixed data lo hi = bindR (slice data lo hi) (\<lambda>b. unwrap (try_into b))"

definition u64_from_le :: "8 barr \<Rightarrow> u64" where
  "u64_from_le a = of_nat (be_val (rev (to_vec a)))"

definition read_proof :: "bytes \<Rightarrow> ('e, hash list) result" where
  "read_proof proof_bytes =
     (let n_elements = length proof_bytes div 32 in
      foldR (\<lambda>acc i. bindR (fixed proof_bytes (i * 32) ((i + 1) * 32)) (\<lambda>h. Inr (acc @ [h]))) [] [0..<n_elements])"

definition fuzz_verify_inclusion :: "sha256 \<Rightarrow> bytes \<Rightarrow> ('e, bool option) result" where
  "fuzz_verify_inclusion sha data =
     (if length data < 48 then Inr None
      else
        bindR (fixed data 0 32) (\<lambda>leaf.
        bindR (fixed data 32 40) (\<lambda>leaf_index.
        bindR (fixed data 40 48) (\<lambda>tree_size.
        bindR (read_proof (drop 48 data)) (\<lambda>proof.
          Inr (Some (verify_inclusion sha leaf (u64_from_le leaf_index) (u64_from_le tree_size) proof (arr_of []))))))))"

definition fuzz_verify_consistency :: "sha256 \<Rightarrow> bytes \<Rightarrow> ('e, bool option) result" where
  "fuzz_verify_consistency sha data =
     (if length data < 80 then Inr None
      else
        bindR (fixed data 0 8) (\<lambda>old_size.
        bindR (fixed data 8 16) (\<lambda>new_size.
        bindR (fixed data 16 48) (\<lambda>old_root.
        bindR (fixed data 48 80) (\<lambda>new_root.
        bindR (read_proof (drop 80 data)) (\<lambda>proof.
          Inr (Some (verify_consistency sha (u64_from_le old_size) (u64_from_le new_size) proof old_root new_root))))))))"

definition fuzz_verify_tree_head :: "ed25519 \<Rightarrow> bytes \<Rightarrow> ('e, bool option) result" where
  "fuzz_verify_tree_head ed data =
     (if length data < 144 then Inr None
      else
        bindR (fixed data 0 32) (\<lambda>pk_bytes.
        bindR (fixed data 32 40) (\<lambda>tree_size.
        bindR (fixed data 40 72) (\<lambda>root_hash.
        bindR (fixed data 72 80) (\<lambda>timestamp_ns.
        bindR (fixed data 80 144) (\<lambda>sig_bytes.
          if \<not> ed_key_ok ed pk_bytes then Inr None
          else Inr (Some (verify_tree_head ed pk_bytes (u64_from_le tree_size) root_hash (u64_from_le timestamp_ns) sig_bytes))))))))"

section \<open>Test vectors\<close>

record sth_vector =
  tv_seed :: signing_key
  tv_public_key :: public_key
  tv_tree_size :: u64
  tv_root_hash :: hash
  tv_timestamp_ns :: i64
  tv_signing_payload :: "48 barr"
  tv_signature :: signature

definition vector_leaves :: "sha256 \<Rightarrow> hash list" where
  "vector_leaves sha = map (\<lambda>i. leaf_hash sha (string_bytes (''entry-'' @ show_u64 (of_nat i)))) [0..<8]"

definition vector_cases :: "(u64 \<times> i64) list" where
  "vector_cases = [(1, 1000000000), (4, 2000000000), (8, 1713362400000000000)]"

definition gen_vector :: "ed25519 \<Rightarrow> sha256 \<Rightarrow> signing_key \<Rightarrow> hash list \<Rightarrow> u64 \<times> i64 \<Rightarrow> ('e, sth_vector) result" where
  "gen_vector ed sha seed leaf_hashes = (\<lambda>(tree_size, timestamp_ns).
     if length leaf_hashes < unat tree_size then Inl (Panic IndexOutOfBounds)
     else
       bindR (mth sha (take (unat tree_size) leaf_hashes)) (\<lambda>r.
       bindR (unwrap r) (\<lambda>rt.
         Inr \<lparr>tv_seed = seed, tv_public_key = ed_public ed seed, tv_tree_size = tree_size, tv_root_hash = rt,
           tv_timestamp_ns = timestamp_ns, tv_signing_payload = signing_payload tree_size rt timestamp_ns,
           tv_signature = sign_tree_head ed seed tree_size rt timestamp_ns\<rparr>)))"

definition gen_sth_vectors :: "ed25519 \<Rightarrow> sha256 \<Rightarrow> ('e, sth_vector list) result" where
  "gen_sth_vectors ed sha =
     foldR (\<lambda>acc x. bindR (gen_vector ed sha (arr_of []) (vector_leaves sha) x) (\<lambda>v. Inr (acc @ [v]))) [] vector_cases"

section \<open>Any input reaches the verifier, and every call of it is reached\<close>

lemma fixed_ok:
  assumes "hi = lo + LENGTH('n)" and "hi \<le> length data"
  shows "fixed data lo hi = (Inr (arr_of (take LENGTH('n) (drop lo data))) :: ('e, 'n::len barr) result)"
  using assms by (simp add: fixed_def slice_def try_into_def)

lemma read_proof_eq:
  "read_proof data = (Inr (map (\<lambda>i. arr_of (take 32 (drop (i * 32) data))) [0..<length data div 32]) :: ('e, hash list) result)"
proof -
  have "\<forall>i \<in> set [0..<length data div 32]. (fixed data (i * 32) ((i + 1) * 32) :: ('e, hash) result) = Inr (arr_of (take 32 (drop (i * 32) data)))"
  proof
    fix i assume "i \<in> set [0..<length data div 32]"
    then have "(i + 1) * 32 \<le> length data div 32 * 32" by (intro mult_le_mono) simp_all
    also have "\<dots> \<le> length data" by simp
    finally show "(fixed data (i * 32) ((i + 1) * 32) :: ('e, hash) result) = Inr (arr_of (take 32 (drop (i * 32) data)))"
      using fixed_ok [where 'n = 32, of "(i + 1) * 32" "i * 32" data] by simp
  qed
  from foldR_collect [OF this] show ?thesis unfolding read_proof_def Let_def by simp
qed

definition u64_to_le :: "u64 \<Rightarrow> bytes" where
  "u64_to_le x = rev (be_bytes 8 (unat x))"

lemma u64_from_to_le [simp]: "u64_from_le (arr_of (u64_to_le x)) = x" "length (u64_to_le x) = 8"
  using unat_lt2p [of x] by (simp_all add: u64_from_le_def u64_to_le_def be_val_be_bytes)

lemma take_drop_concat:
  "i < length proof \<Longrightarrow> take 32 (drop (i * 32) (concat (map to_vec proof))) = to_vec (proof ! i :: hash)"
proof (induction "proof" arbitrary: i)
  case (Cons h hs)
  then show ?case by (cases i) simp_all
qed simp

lemma read_proof_concat: "read_proof (concat (map to_vec proof)) = (Inr proof :: ('e, hash list) result)"
proof -
  have len: "length (concat (map to_vec proof)) = 32 * length proof" by (induction "proof") simp_all
  show ?thesis unfolding read_proof_eq len by (auto intro!: nth_equalityI simp: take_drop_concat)
qed

text \<open>
  No input makes a fuzz target panic, and the targets miss no case: for all arguments of a verifier
  there is an input on which the target calls it with these arguments.
\<close>

theorem fuzz_targets_complete:
  "(\<exists>v. (fuzz_verify_inclusion sha data :: (unit, bool option) result) = Inr v)
    \<and> (\<exists>v. (fuzz_verify_consistency sha data :: (unit, bool option) result) = Inr v)
    \<and> (\<exists>v. (fuzz_verify_tree_head ed data :: (unit, bool option) result) = Inr v)
    \<and> (fuzz_verify_inclusion sha (to_vec leaf @ u64_to_le i @ u64_to_le n @ concat (map to_vec proof)) :: (unit, bool option) result) =
        Inr (Some (verify_inclusion sha leaf i n proof (arr_of [])))
    \<and> (fuzz_verify_consistency sha (u64_to_le m @ u64_to_le n @ to_vec old @ to_vec new @ concat (map to_vec proof)) :: (unit, bool option) result) =
        Inr (Some (verify_consistency sha m n proof old new))"
  by (simp add: fuzz_verify_inclusion_def fuzz_verify_consistency_def fuzz_verify_tree_head_def fixed_ok read_proof_eq
      read_proof_concat [unfolded read_proof_eq, simplified])

section \<open>The vectors are right\<close>

lemma gen_vector_ok:
  assumes "0 < tree_size" and "unat tree_size \<le> length xs"
  shows "(gen_vector ed sha seed xs (tree_size, ts) :: ('e, sth_vector) result) =
    (let rt = MTH (node_hash sha) (take (unat tree_size) xs) in
     Inr \<lparr>tv_seed = seed, tv_public_key = ed_public ed seed, tv_tree_size = tree_size, tv_root_hash = rt, tv_timestamp_ns = ts,
       tv_signing_payload = signing_payload tree_size rt ts, tv_signature = sign_tree_head ed seed tree_size rt ts\<rparr>)"
proof -
  have "length (take (unat tree_size) xs) < 2 ^ 64" using assms(2) unat_lt2p [of tree_size] by simp
  moreover have "take (unat tree_size) xs \<noteq> []" using assms by (auto simp: word_less_nat_alt)
  ultimately have "(mth sha (take (unat tree_size) xs) :: ('e, hash option) result) = Inr (Some (MTH (node_hash sha) (take (unat tree_size) xs)))"
    by (simp add: mth_eq)
  then show ?thesis using assms(2) by (simp add: gen_vector_def Let_def)
qed

text \<open>
  The generator never panics, and the SDK accepts each of its three heads; the root of a vector is the
  root of the first entries, as many as its tree size.
\<close>

theorem vectors_accepted:
  assumes "ed_laws ed"
  shows "\<exists>vs. (gen_sth_vectors ed sha :: (unit, sth_vector list) result) = Inr vs \<and> map tv_tree_size vs = [1, 4, 8]
    \<and> list_all (\<lambda>v. sdk_verify_tree_head ed (tv_tree_size v) (tv_root_hash v) (tv_timestamp_ns v) (to_vec (tv_signature v)) (to_vec (tv_public_key v))
        \<and> (mth sha (take (unat (tv_tree_size v)) (vector_leaves sha)) :: (unit, hash option) result) = Inr (Some (tv_root_hash v))) vs"
proof -
  have len: "length (vector_leaves sha) = 8" by (simp add: vector_leaves_def)
  then have "vector_leaves sha \<noteq> []" by auto
  then show ?thesis
    using sign_verify_tree_head [OF assms] ed_lawsD(1,4) [OF assms] len
    by (simp add: gen_sth_vectors_def vector_cases_def gen_vector_ok Let_def word_less_nat_alt mth_eq)
qed

theorem vectors_accepted_witness:
  "\<exists>vs. (gen_sth_vectors toy_ed toy_sha :: (unit, sth_vector list) result) = Inr vs \<and> map tv_tree_size vs = [1, 4, 8]"
proof -
  from vectors_accepted [OF toy_ed_laws, of toy_sha] obtain vs where
    "(gen_sth_vectors toy_ed toy_sha :: (unit, sth_vector list) result) = Inr vs" "map tv_tree_size vs = [1, 4, 8]" by (elim exE conjE)
  then show ?thesis by (intro exI [of _ vs] conjI)
qed

end
