(* ===== verification/Spec2Isabelle.thy ===== *)
theory Spec2Isabelle
  imports Server_Watch Server_Refine Server_Router Storage_Tree Check_Cli Demo_Watch Test_Tools
begin

text \<open>
  \<^bold>\<open>Settled: a verification development.\<close>

  Settled is a tamper-evident append-only log. Entries (a key and data) are stored in RocksDB and hashed
  into an RFC 6962 Merkle tree; a background task signs the root with Ed25519 (a signed tree head, STH);
  clients fetch inclusion and consistency proofs and check them with an SDK. This library models the Rust
  code of the repository and proves what makes it correct.

  \<^bold>\<open>Parts of the program and the theories that model them.\<close>

  \<^item> \<open>Prelude\<close>: machine integers (\<^verbatim>\<open>u64\<close> and \<^verbatim>\<open>u32\<close> as words, \<^verbatim>\<open>i64\<close> as a word read through \<open>sint\<close>), byte arrays of
    fixed length (\<open>'n barr\<close>), big-endian encodings, results with errors and panics (\<open>('e, 'a) result\<close>,
    \<open>bindR\<close> for \<^verbatim>\<open>?\<close>, \<open>foldR\<close> for a loop), shared lemmas.
  \<^item> \<open>Merkle_Spec\<close>, \<open>Merkle_Loop\<close>, \<open>Verifier_Spec\<close>: the abstract specification. \<open>MTH\<close>, \<open>PATH\<close>, \<open>SUBPROOF\<close> are
    the definitions of RFC 6962 over any node hash; \<open>recon\<close> and \<open>recon2\<close> recompute roots from proofs;
    \<open>strip\<close> and \<open>nloop\<close> are the iterative verifier on natural numbers. The locales
    \<open>inclusion_verifier\<close> and \<open>consistency_verifier\<close> are the contracts of a proof verifier; their lemmas give
    completeness and soundness once, and both verifiers of the repository are interpretations.
  \<^item> \<open>Core_Hash\<close>, \<open>Core_Merkle\<close>, \<open>Core_Proof\<close>, \<open>Core_Sth\<close>: the crate \<^verbatim>\<open>settled-core\<close> (\<^verbatim>\<open>hash.rs\<close>, \<^verbatim>\<open>merkle.rs\<close>,
    \<^verbatim>\<open>proof.rs\<close>, \<^verbatim>\<open>sth.rs\<close>). The locale \<open>split_fn\<close> is the contract of the three split functions of the
    repository, \<open>leaf_accumulator\<close> that of the incremental tree.
  \<^item> \<open>Storage_Rocks\<close>, \<open>Storage_Log\<close>, \<open>Storage_Heads\<close>, \<open>Storage_Tree\<close>: the crate \<^verbatim>\<open>settled-storage\<close>. \<open>Storage_Rocks\<close>
    has the errors, messages and types (\<^verbatim>\<open>error.rs\<close>, \<^verbatim>\<open>proto.rs\<close>, \<^verbatim>\<open>types.rs\<close>), the interface of RocksDB and the
    locales \<open>ordered_key\<close> and \<open>record_store\<close> (rows with big-endian keys in one column family);
    \<open>Storage_Log\<close> has \<^verbatim>\<open>db.rs\<close> and \<^verbatim>\<open>log_store.rs\<close> with the locales \<open>growing_store\<close> and \<open>log_extender\<close>;
    \<open>Storage_Heads\<close> has \<^verbatim>\<open>head_store.rs\<close>, \<^verbatim>\<open>key_store.rs\<close> and \<^verbatim>\<open>verify.rs\<close>; \<open>Storage_Tree\<close> has
    \<^verbatim>\<open>tree_store.rs\<close>, whose nodes are specified by \<open>node_at\<close>.
  \<^item> \<open>Server_Limits\<close>, \<open>Server_State\<close>, \<open>Server_Sth\<close>, \<open>Server_Rpc\<close>: the crate \<^verbatim>\<open>settled-server\<close>: the token bucket
    (\<^verbatim>\<open>rate_limit.rs\<close>); errors, configuration, signer, shared state and start-up (\<^verbatim>\<open>error.rs\<close>, \<^verbatim>\<open>config.rs\<close>,
    \<^verbatim>\<open>signer.rs\<close>, \<^verbatim>\<open>state.rs\<close>); the signing cycle and key rotation (\<^verbatim>\<open>sth_task.rs\<close>, \<^verbatim>\<open>admin.rs\<close>); the gRPC
    handlers (\<^verbatim>\<open>service.rs\<close>).
  \<^item> \<open>Server_Serve\<close>: what these handlers promise a client, from the invariant \<open>server_inv\<close> of \<open>Server_State\<close>.
  \<^item> \<open>Server_Machine\<close>: the server as a step relation. A handler holds \<^verbatim>\<open>append_mu\<close> for one step only; what it
    still has to do is a job that may move at any time, so appends, signing cycles, rotations and
    broadcasts interleave freely. The three reads of the signer in a cycle are steps of their own, and so are
    those of a rotation: reading the version, the key file being written (with any content until the
    write returns), the swap of the signer and the key record. \<open>rotate_key_run\<close> and \<open>sign_and_store_run\<close> say that
    the undisturbed handlers are runs of the machine. The locale \<open>simulation\<close> and its extension \<open>growing_system\<close> lift what one
    step does to every run.
  \<^item> \<open>Server_Refine\<close>: the abstract specification of the whole server, a transparent log \<open>tlog\<close> with the steps
    \<open>tstep\<close>, and the refinement of \<open>mstep\<close> to it, as an interpretation of \<open>simulation\<close>.
  \<^item> \<open>Server_Watch\<close>: the \<^verbatim>\<open>Watch\<close> stream, its replay and its live loop.
  \<^item> \<open>Server_Admin\<close>: the HTTP admin API (\<^verbatim>\<open>admin.rs\<close>) and the loop of the signing task.
  \<^item> \<open>Server_Main\<close>: the server process (\<^verbatim>\<open>main.rs\<close>) from its arguments to its shutdown, where the signing task may
    miss the ten seconds it is given (\<open>grace\<close>), and the restart after the process has been killed in the
    middle of any run.
  \<^item> \<open>Server_Metrics\<close>: the metrics (\<^verbatim>\<open>metrics.rs\<close>) and the handlers of \<^verbatim>\<open>service.rs\<close>, \<^verbatim>\<open>sth_task.rs\<close> and \<^verbatim>\<open>admin.rs\<close>
    once more with the registry threaded through them (\<open>metered_append\<close>, \<open>metered_sign\<close> and the like); the
    \<open>_erase\<close> lemmas say that without the registry they are the handlers of the other theories.
  \<^item> \<open>Server_Router\<close>: the routing table of the admin API and what a request can change.
  \<^item> \<open>Sdk_Verifier\<close>, \<open>Sdk_Client\<close>: the Rust SDK, \<^verbatim>\<open>verifier.rs\<close> and \<^verbatim>\<open>client.rs\<close>.
  \<^item> \<open>Server_Front\<close>: the API key check in front of the service (\<^verbatim>\<open>main.rs\<close> of the server) and the stub that
    leads from the SDK client to the handlers.
  \<^item> \<open>Check_Cli\<close>: the command line tool \<^verbatim>\<open>settled-check\<close>.
  \<^item> \<open>Demo_Cli\<close>: the demo client \<^verbatim>\<open>demos/rust/src/main.rs\<close>. The locale \<open>paged_reader\<close> is the contract of a
    paged request; the listing and the history of a key are its interpretations. \<open>Demo_Format\<close> has the layout
    of its table, \<open>Demo_Watch\<close> the rounds of its watch mode.
  \<^item> \<open>Test_Tools\<close>: the fuzz targets and the generator of test vectors.

  \<^bold>\<open>What is shown.\<close> Proofs: the verifiers accept what the generators produce and nothing else, up to hash
  collisions; an accepted consistency proof means that the old log is a prefix of the new one. Tree: the
  incremental tree and the materialised nodes have the roots of the recursive definition. Storage: the
  log only grows under appends that succeed or fail, reads return what was written, pages are exact, and
  reopening continues where the log stopped. Server: start-up, appending, signing and shutdown keep log,
  tree, heads and keys in step; under every interleaving the server refines a transparent log, all heads
  ever served belong to one growing log, every entry is broadcast once, and a kill at any moment, in
  the middle of a rotation too, loses no entry and no head, though a key file cut short has to be replaced before
  the server starts again; the metrics count exactly the entries, heads and failed calls of the process, and only two
  requests of the admin API change anything, none the log; the rate limiter keeps to its burst and its rate.
  Clients: on a log without gaps served proofs and heads verify in the SDK, appended data is read back, paging
  returns every entry once, \<^verbatim>\<open>settled-check\<close> and the demo accept a server on which nothing else happens between
  their calls, and \<^verbatim>\<open>settled-check\<close> proves inclusion against any server. Where the code
  does not do what it means to, a theorem states what it does: numbers lost to failed appends, a head
  with the signature of one key and the public key of another after a rotation in the middle of a cycle, a key without a record,
  an entry that \<^verbatim>\<open>Watch\<close> drops, a rebuild that panics, a split loop that never ends, gauges that show 0 after
  a restart or go back when two signing cycles overlap, and a demo that takes an inner node of the tree
  for a leaf.

  \<^bold>\<open>Parameters.\<close> Code that is not in the repository is an argument of the definitions: SHA-256 (any
  function to 32 bytes; soundness theorems assume it injective on the finitely many byte strings that
  occur, never globally), Ed25519 (\<open>ed_laws\<close>: a signature verifies with the public key of its signing
  key, and strict verification implies the plain one), the protobuf codec (\<open>codec_laws\<close>: encoding
  succeeds and decoding inverts it), RocksDB (\<open>rocks_laws\<close>: reads and scans reflect an ordered map per
  column family or report an error, a write batch is applied as a whole or not at all), the rounding of
  \<^verbatim>\<open>f64\<close> (\<open>rnd_laws\<close>), the clocks, the file system's answers, the hexadecimal encoding, the lossy
  decoding of UTF-8, the registry of the crate \<^verbatim>\<open>prometheus\<close> (\<open>monitor_laws\<close>), the route matching of axum
  for static paths (\<open>matcher_laws\<close>), and the gRPC stub with its header values (\<open>stub\<close>; the stub that reaches the modelled
  server is \<open>server_stub\<close>: one clock for all calls, and no other client or signing cycle between two calls).
  Each has a concrete instance
  (\<open>toy_sha\<close>, \<open>toy_ed\<close>, \<open>mem_codec\<close>, \<open>mem_rocks\<close>, \<open>mem_monitor\<close>, \<open>find_route\<close>, and \<open>flaky_rocks\<close>, whose first write fails) on which the
  witnesses evaluate. \<^verbatim>\<open>yields r x\<close> says that a read returns \<open>x\<close> or an error reported by RocksDB.

  \<^bold>\<open>Bounds.\<close> Arithmetic is that of a release build: it wraps. \<^verbatim>\<open>usize\<close> has 64 bits. Theorems about sizes
  assume fewer than \<open>2 ^ 64\<close> entries, the range of the counter. All loops are total functions, except the
  split loop of the SDK and the recursion that calls it, which are option-valued and proved to return
  exactly for sizes up to \<open>2 ^ 63\<close>, the replay of \<^verbatim>\<open>Watch\<close> and the paging loop of the demo, which are
  option-valued and proved to return, and the demo's wait for a head, proved to return once the deadline
  has passed.
  Loops that wait for events (the live phase of \<^verbatim>\<open>Watch\<close>, the signing task, the polling of the demo) are
  functions of the list of events.

  \<^bold>\<open>Not modelled.\<close> Log output, the values of the duration histograms (only the number of samples is kept) and
  the text of the metrics page, the remaining lines \<^verbatim>\<open>settled-check\<close> and the demo print, the serialisation to
  JSON of the admin API, the parsing of arguments (clap), listeners and signals of the server process,
  the size limit on messages (enforced by tonic): each is the work of a library or plain output. The
  benchmarks, the build scripts, the tests and the SDKs in other languages have no logic of the server or
  are in another language. A read of the database by one handler is one step of the model; a handler
  that reads several times sees one state, except in \<open>Server_Machine\<close> and \<open>Server_Watch\<close>. \<open>Server_Main\<close> follows
  the signing task with the requests one after another. The metrics are
  followed along sequences of calls, and under one interleaving, that of two signing cycles.
\<close>

end
